(* ===== verification/Fcgi_Prelude.thy ===== *)
theory Fcgi_Prelude
  imports "HOL-Library.Word"
begin

text \<open>
  What every other theory of the development shares: the names of the machine types, the
  values that stand for the C++ exceptions, the model of \<open>std::map\<close> as a list of entries in
  key order, and generic lemmas on lists and bytes.
\<close>

unbundle bit_operations_syntax

section \<open>Machine types and exceptions\<close>

text \<open>
  \<open>std::uint8_t\<close>, \<open>std::uint16_t\<close>: words of that width. A descriptor (\<open>int\<close>) and a value of
  \<open>std::int_fast32_t\<close> are \<^typ>\<open>int\<close>; a \<open>std::size_t\<close> that counts bytes of an existing
  sequence is \<^typ>\<open>nat\<close>.
\<close>

type_synonym byte = "8 word"
type_synonym bytes = "8 word list"
type_synonym u16 = "16 word"
type_synonym fd = int

text \<open>
  The exceptions the code throws explicitly. \<open>SystemError\<close> carries \<open>errno\<close>.
\<close>

datatype exn =
    InvalidArgument
  | LogicError
  | RuntimeError
  | LengthError
  | OutOfRange
  | SystemError int

named_theorems std_map_simps "rewrite rules for the model of std::map"
named_theorems byte_simps "rewrite rules for splitting and joining bytes"

section \<open>Ordered maps\<close>

text \<open>
  A \<open>std::map<K, V>\<close> is the list of its entries in iteration order, that is, in strictly
  increasing key order. An iterator stays valid while its entry is present, so it is
  represented by the key of its entry, and the past-the-end iterator by \<open>None\<close>.
\<close>

type_synonym ('k, 'v) std_map = "('k \<times> 'v) list"

fun om_insert :: "'k::linorder \<Rightarrow> 'v \<Rightarrow> ('k, 'v) std_map \<Rightarrow> ('k, 'v) std_map" where
  "om_insert k v [] = [(k, v)]"
| "om_insert k v ((k', v') # m) =
     (if k' < k then (k', v') # om_insert k v m
      else if k' = k then (k', v') # m
      else (k, v) # (k', v') # m)"

fun om_erase :: "'k \<Rightarrow> ('k, 'v) std_map \<Rightarrow> ('k, 'v) std_map" where
  "om_erase k [] = []"
| "om_erase k ((k', v') # m) = (if k' = k then m else (k', v') # om_erase k m)"

fun om_set :: "'k \<Rightarrow> 'v \<Rightarrow> ('k, 'v) std_map \<Rightarrow> ('k, 'v) std_map" where
  "om_set k v [] = []"
| "om_set k v ((k', v') # m) = (if k' = k then (k', v) # m else (k', v') # om_set k v m)"

definition om_find :: "'k \<Rightarrow> ('k, 'v) std_map \<Rightarrow> 'v option" where
  "om_find k m = map_of m k"

definition om_mem :: "'k \<Rightarrow> ('k, 'v) std_map \<Rightarrow> bool" where
  "om_mem k m \<longleftrightarrow> om_find k m \<noteq> None"

definition om_wf :: "('k::linorder, 'v) std_map \<Rightarrow> bool" where
  "om_wf m \<longleftrightarrow> sorted_wrt (<) (map fst m)"

lemma om_wf_Nil [simp]: "om_wf []"
  by (simp add: om_wf_def)

lemma om_wf_Cons: "om_wf ((k, v) # m) \<longleftrightarrow> (\<forall>k' \<in> fst ` set m. k < k') \<and> om_wf m"
  by (simp add: om_wf_def)

lemma om_find_Nil [simp]: "om_find k [] = None"
  by (simp add: om_find_def)

lemma om_find_Cons [simp]:
  "om_find k ((k', v) # m) = (if k' = k then Some v else om_find k m)"
  by (simp add: om_find_def)

lemma om_find_eq_None: "om_find k m = None \<longleftrightarrow> k \<notin> fst ` set m"
  by (simp add: om_find_def map_of_eq_None_iff)

lemma om_find_in_set: "om_find k m = Some v \<Longrightarrow> (k, v) \<in> set m"
  by (simp add: om_find_def map_of_SomeD)

lemma om_find_key: "om_find k m = Some v \<Longrightarrow> k \<in> fst ` set m"
  by (force dest: om_find_in_set)

lemma om_wf_distinct: "om_wf m \<Longrightarrow> distinct (map fst m)"
  by (simp add: om_wf_def strict_sorted_iff)

lemma om_find_set_iff: "om_wf m \<Longrightarrow> om_find k m = Some v \<longleftrightarrow> (k, v) \<in> set m"
  by (simp add: om_find_def map_of_eq_Some_iff om_wf_distinct)

lemma set_om_insert_sub: "set (om_insert k v m) \<subseteq> insert (k, v) (set m)"
  by (induction k v m rule: om_insert.induct) auto

lemma keys_om_insert: "fst ` set (om_insert k v m) = insert k (fst ` set m)"
  by (induction k v m rule: om_insert.induct) auto

lemma keys_om_set [simp]: "fst ` set (om_set k v m) = fst ` set m"
  by (induction k v m rule: om_set.induct) auto

lemma map_fst_om_set [simp]: "map fst (om_set k v m) = map fst m"
  by (induction k v m rule: om_set.induct) auto

lemma keys_om_erase: "om_wf m \<Longrightarrow> fst ` set (om_erase k m) = fst ` set m - {k}"
  by (induction k m rule: om_erase.induct) (auto simp: om_wf_Cons)

lemma om_wf_insert: "om_wf m \<Longrightarrow> om_wf (om_insert k v m)"
  by (induction k v m rule: om_insert.induct) (auto simp: om_wf_Cons keys_om_insert)

lemma om_wf_erase: "om_wf m \<Longrightarrow> om_wf (om_erase k m)"
  by (induction k m rule: om_erase.induct) (auto simp: om_wf_Cons keys_om_erase)

lemma om_wf_set [simp]: "om_wf (om_set k v m) \<longleftrightarrow> om_wf m"
  by (simp add: om_wf_def)

lemma om_find_insert:
  "om_wf m \<Longrightarrow> om_find j (om_insert k v m) =
     (if j = k then (case om_find k m of None \<Rightarrow> Some v | Some w \<Rightarrow> Some w) else om_find j m)"
  by (induction k v m rule: om_insert.induct)
     (auto simp: om_wf_Cons om_find_eq_None split: option.splits dest: om_find_key)

lemma om_find_erase:
  "om_wf m \<Longrightarrow> om_find j (om_erase k m) = (if j = k then None else om_find j m)"
  by (induction k m rule: om_erase.induct) (auto simp: om_wf_Cons dest: om_find_key intro: ccontr)

lemma om_find_set:
  "om_find j (om_set k v m) = (if j = k \<and> om_find k m \<noteq> None then Some v else om_find j m)"
  by (induction k v m rule: om_set.induct) auto

text \<open>The same operations at a known position.\<close>

lemma om_erase_at: "k \<notin> fst ` set pre \<Longrightarrow> om_erase k (pre @ (k, v) # post) = pre @ post"
  by (induction pre) auto

lemma om_set_at:
  "k \<notin> fst ` set pre \<Longrightarrow> om_set k v (pre @ (k, w) # post) = pre @ (k, v) # post"
  by (induction pre) auto

lemma om_insert_at:
  "\<forall>p \<in> set pre. fst p < k \<Longrightarrow> \<forall>p \<in> set post. k < fst p \<Longrightarrow>
     om_insert k v (pre @ post) = pre @ (k, v) # post"
proof (induction pre)
  case Nil
  then show ?case by (cases post) auto
qed auto

lemma om_mem_iff: "om_mem k m \<longleftrightarrow> k \<in> fst ` set m"
  by (metis om_find_eq_None om_mem_def)

lemma om_wf_filter: "om_wf m \<Longrightarrow> om_wf (filter P m)"
  by (induction m) (auto simp: om_wf_Cons)

lemmas om_wf_intros = om_wf_Nil om_wf_insert om_wf_erase om_wf_filter
lemmas om_find_simps = om_find_insert om_find_erase om_find_set

declare om_find_simps [std_map_simps] keys_om_insert [std_map_simps] keys_om_erase [std_map_simps]
declare om_mem_iff [std_map_simps] om_wf_intros [intro]

text \<open>The set of keys, for statements that do not care about the order.\<close>

definition keys :: "('k, 'v) std_map \<Rightarrow> 'k set" where
  "keys m = fst ` set m"

lemma keys_iff: "k \<in> keys m \<longleftrightarrow> om_find k m \<noteq> None"
  by (simp add: keys_def om_find_eq_None)

lemma keys_Some: "k \<in> keys m \<longleftrightarrow> (\<exists>v. om_find k m = Some v)"
  by (simp add: keys_iff)

lemma om_find_None_keys: "om_find k m = None \<longleftrightarrow> k \<notin> keys m"
  by (simp add: keys_iff)

lemma om_find_Some_keys: "om_find k m = Some v \<Longrightarrow> k \<in> keys m"
  by (simp add: keys_iff)

lemma om_mem_keys: "om_mem k m \<longleftrightarrow> k \<in> keys m"
  by (simp add: om_mem_def keys_iff)

lemma keys_Nil [simp]: "keys [] = {}"
  by (simp add: keys_def)

lemma keys_insert [simp]: "keys (om_insert k v m) = insert k (keys m)"
  by (simp add: keys_def keys_om_insert)

lemma keys_set [simp]: "keys (om_set k v m) = keys m"
  by (simp add: keys_def)

lemma keys_erase: "om_wf m \<Longrightarrow> keys (om_erase k m) = keys m - {k}"
  by (simp add: keys_def keys_om_erase)

lemma finite_keys [simp]: "finite (keys m)"
  by (simp add: keys_def)

lemma om_erase_absent: "k \<notin> keys m \<Longrightarrow> om_erase k m = m"
  by (induction m) (auto simp: keys_def)

section \<open>Lists\<close>

lemma takeWhile_sorted:
  "sorted_wrt (<) (map fst m) \<Longrightarrow>
     takeWhile (\<lambda>p. fst p < k) m = filter (\<lambda>p. fst p < (k::'k::linorder)) m"
  by (induction m) (auto intro!: filter_False [symmetric])

lemma dropWhile_sorted:
  "sorted_wrt (<) (map fst m) \<Longrightarrow>
     dropWhile (\<lambda>p. fst p < k) m = filter (\<lambda>p. \<not> fst p < (k::'k::linorder)) m"
  by (induction m) (auto intro!: filter_True [symmetric])

lemma concat_map_singleton: "concat (map (\<lambda>x. [f x]) xs) = map f xs"
  by (induction xs) auto

section \<open>Bytes\<close>

text \<open>Joining the two bytes of a 16 bit value in network order, as the code's shifts do.\<close>

definition join16 :: "byte \<Rightarrow> byte \<Rightarrow> u16" where
  "join16 b1 b0 = push_bit 8 (ucast b1) + ucast b0"

definition hi8 :: "u16 \<Rightarrow> byte" where
  "hi8 w = ucast (drop_bit 8 w)"

definition lo8 :: "u16 \<Rightarrow> byte" where
  "lo8 w = ucast w"

lemma byte_less: "unat (b :: byte) < 256"
  using unsigned_less [of b, where 'a = nat] by simp

lemma byte_uint_less: "uint (b :: byte) < 256"
  using unsigned_less [of b, where 'a = int] by simp

lemma u16_less: "unat (w :: u16) < 65536"
  using unsigned_less [of w, where 'a = nat] by simp

lemma unat_join16: "unat (join16 a b) = 256 * unat a + unat b"
  unfolding join16_def using byte_less [of a] byte_less [of b]
  by (simp add: unat_word_ariths push_bit_eq_mult unsigned_ucast_eq take_bit_eq_mod)

lemma unat_hi8: "unat (hi8 w) = unat w div 256"
  using u16_less [of w]
  by (simp add: hi8_def unsigned_ucast_eq drop_bit_eq_div unat_div_distrib take_bit_eq_mod)

lemma unat_lo8: "unat (lo8 w) = unat w mod 256"
  by (simp add: lo8_def unsigned_ucast_eq take_bit_eq_mod)

lemma join16_split [byte_simps]: "join16 (hi8 w) (lo8 w) = w"
  by (simp add: word_unat_eq_iff unat_join16 unat_hi8 unat_lo8)

lemma hi8_join16 [byte_simps]: "hi8 (join16 a b) = a"
  using byte_less [of a] byte_less [of b]
  by (simp add: word_unat_eq_iff unat_join16 unat_hi8)

lemma lo8_join16 [byte_simps]: "lo8 (join16 a b) = b"
  using byte_less [of a] byte_less [of b]
  by (simp add: word_unat_eq_iff unat_join16 unat_lo8)

text \<open>The leading bit of a byte and the seven bits below it.\<close>

lemma byte_and_7f: "uint ((b :: byte) AND 0x7f) = uint b mod 128"
proof -
  have m: "(0x7f :: int) = mask 7" by (simp add: mask_eq_exp_minus_1)
  have "uint (b AND 0x7f) = uint b AND 0x7f" by (simp add: uint_and)
  also have "\<dots> = uint b mod 128"
    unfolding m by (simp flip: take_bit_eq_mask add: take_bit_eq_mod)
  finally show ?thesis .
qed

lemma byte_and_80: "(b :: byte) AND 0x80 = 0 \<longleftrightarrow> uint b < 128"
proof -
  have "b AND 0x80 = 0 \<longleftrightarrow> \<not> bit b 7"
    using and_exp_eq_0_iff_not_bit [of b 7] by simp
  also have "\<dots> \<longleftrightarrow> \<not> bit (uint b) 7" by (simp add: bit_simps)
  also have "\<dots> \<longleftrightarrow> uint b < 128"
  proof -
    have "uint b div 128 = 0 \<or> uint b div 128 = 1"
      using byte_uint_less [of b] uint_ge_0 [of b] by presburger
    then show ?thesis using uint_ge_0 [of b] unfolding bit_iff_odd by auto
  qed
  finally show ?thesis .
qed

lemma byte_or_80:
  assumes "n < 128" and "0 \<le> n"
  shows "uint (word_of_int n OR (0x80 :: byte)) = n + 128"
proof -
  have "uint (word_of_int n OR (0x80 :: byte)) = n OR 128"
    using assms by (simp add: uint_or unsigned_of_int take_bit_eq_mod)
  also have "\<dots> = n + 128"
  proof -
    have "\<not> (bit n k \<and> bit (128 :: int) k)" for k
    proof (cases "k = 7")
      case True
      then show ?thesis using assms by (simp add: bit_iff_odd)
    next
      case False
      have "(128 :: int) = 2 ^ 7" by simp
      then show ?thesis using False by (metis bit_exp_iff)
    qed
    then have "n AND 128 = 0" by (auto simp: bit_eq_iff bit_simps)
    then show ?thesis by (simp add: disjunctive_add_eq_or)
  qed
  finally show ?thesis .
qed

text \<open>Writing a sequence of bytes into a buffer at an offset.\<close>

definition overwrite :: "'a list \<Rightarrow> nat \<Rightarrow> 'a list \<Rightarrow> 'a list" where
  "overwrite buf off bs = take off buf @ bs @ drop (off + length bs) buf"

lemma length_overwrite [simp]:
  "off + length bs \<le> length buf \<Longrightarrow> length (overwrite buf off bs) = length buf"
  by (simp add: overwrite_def)

end
