(* ===== verification/Id_Manager.thy ===== *)
theory Id_Manager
  imports Fcgi_Prelude
begin

text \<open>
  The class template \<open>IdManager<I>\<close> of \<open>id_manager/include/id_manager_template.h\<close>, for an
  unsigned integral type \<open>I\<close> of any width (the program uses \<open>IdManager<std::uint16_t>\<close>). A
  value of \<open>I\<close> is a word; \<open>std::numeric_limits<I>::max()\<close> is \<open>- 1\<close>. Comparisons with integer
  literals and with \<open>new_id + 1\<close> happen after integer promotion in the code, so they are made
  on \<open>uint\<close>. A pair of a result and a state stands for a call: an exception is \<open>Inl\<close>.
\<close>

section \<open>State and operations\<close>

type_synonym 'a intervals = "('a word, 'a word) std_map"

record (overloaded) 'a id_manager =
  id_size :: "'a::len word"
  id_intervals :: "('a word, 'a word) std_map"

definition IdManager_new :: "'a::len id_manager" where
  "IdManager_new = \<lparr>id_size = 0, id_intervals = []\<rparr>"

text \<open>
  The lambda of \<open>FindInterval\<close>: decrement the iterator, then test whether the interval it then
  points to reaches \<open>i\<close>. Its argument is the list of the entries before the iterator.
\<close>

definition IsContainedInPreviousIntervalAndGreaterThanItsStart ::
    "'a::len word \<Rightarrow> 'a intervals \<Rightarrow> ('a word \<times> 'a word) option" where
  "IsContainedInPreviousIntervalAndGreaterThanItsStart i before =
     (case rev before of
        [] \<Rightarrow> None
      | p # _ \<Rightarrow> if i \<le> snd p then Some p else None)"

definition FindInterval ::
    "'a::len intervals \<Rightarrow> 'a word \<Rightarrow> ('a word \<times> 'a word) option" where
  "FindInterval m i =
     (let before = takeWhile (\<lambda>p. fst p < i) m;
          lub = dropWhile (\<lambda>p. fst p < i) m
      in if m = [] then None
         else case lub of
             [] \<Rightarrow> IsContainedInPreviousIntervalAndGreaterThanItsStart i before
           | p # _ \<Rightarrow>
               if fst p > i
               then if before = [] then None
                    else IsContainedInPreviousIntervalAndGreaterThanItsStart i before
               else Some p)"

definition IsUsed :: "'a::len id_manager \<Rightarrow> 'a word \<Rightarrow> bool" where
  "IsUsed s i \<longleftrightarrow> FindInterval (id_intervals s) i \<noteq> None"

definition NumberOfUsedIds :: "'a::len id_manager \<Rightarrow> 'a word" where
  "NumberOfUsedIds s = id_size s"

definition GetId :: "'a::len id_manager \<Rightarrow> (exn + 'a word) \<times> 'a id_manager" where
  "GetId s =
     (let m = id_intervals s
      in case m of
          [] \<Rightarrow> (Inr 1, s\<lparr>id_intervals := om_insert 1 1 m, id_size := 1\<rparr>)
        | (first, second) # rest \<Rightarrow>
            if uint first > 1
            then let m' = (if uint first > 2 then om_insert 1 1 m
                           else om_erase first (om_insert 1 second m))
                 in (Inr 1, s\<lparr>id_intervals := m', id_size := id_size s + 1\<rparr>)
            else (case rest of
                (next_first, next_second) # _ \<Rightarrow>
                  let new_id = second + 1;
                      m' = (if uint new_id + 1 = uint next_first
                            then om_erase next_first (om_set first next_second m)
                            else om_set first new_id m)
                  in (Inr new_id, s\<lparr>id_intervals := m', id_size := id_size s + 1\<rparr>)
              | [] \<Rightarrow>
                  if second = - 1 then (Inl LengthError, s)
                  else (Inr (second + 1),
                        s\<lparr>id_intervals := om_set first (second + 1) m, id_size := id_size s + 1\<rparr>)))"

definition ReleaseId :: "'a::len id_manager \<Rightarrow> 'a word \<Rightarrow> (exn + unit) \<times> 'a id_manager" where
  "ReleaseId s i =
     (let m = id_intervals s
      in case FindInterval m i of
          None \<Rightarrow> (Inl LogicError, s)
        | Some (first, last_in_i_release) \<Rightarrow>
            let m' = (if i = first
                      then if i = last_in_i_release then om_erase first m
                           else om_erase first (om_insert (i + 1) last_in_i_release m)
                      else if i = last_in_i_release then om_set first (last_in_i_release - 1) m
                      else om_set first (i - 1) (om_insert (i + 1) last_in_i_release m))
            in (Inr (), s\<lparr>id_intervals := m', id_size := id_size s - 1\<rparr>))"

section \<open>The dynamic set and the representation invariant\<close>

text \<open>The set of the identifiers in use that a list of intervals stands for.\<close>

fun ids :: "'a::len intervals \<Rightarrow> 'a word set" where
  "ids [] = {}"
| "ids ((lo, hi) # m) = {lo..hi} \<union> ids m"

text \<open>
  The representation the header's discussion calls minimal: non-empty intervals in increasing
  order, with a gap of at least one value between neighbours, all above \<open>b\<close>.
\<close>

fun ivs_wf :: "nat \<Rightarrow> 'a::len intervals \<Rightarrow> bool" where
  "ivs_wf b [] \<longleftrightarrow> True"
| "ivs_wf b ((lo, hi) # m) \<longleftrightarrow> b < unat lo \<and> lo \<le> hi \<and> ivs_wf (Suc (unat hi)) m"

fun ivs_end :: "nat \<Rightarrow> 'a::len intervals \<Rightarrow> nat" where
  "ivs_end b [] = b"
| "ivs_end b ((lo, hi) # m) = ivs_end (Suc (unat hi)) m"

definition used_ids :: "'a::len id_manager \<Rightarrow> 'a word set" where
  "used_ids s = ids (id_intervals s)"

definition id_manager_inv :: "'a::len id_manager \<Rightarrow> bool" where
  "id_manager_inv s \<longleftrightarrow>
     ivs_wf 0 (id_intervals s) \<and> unat (id_size s) = card (used_ids s)"

lemma ids_append [simp]: "ids (xs @ ys) = ids xs \<union> ids ys"
  by (induction xs rule: ids.induct) auto

lemma ids_iff: "x \<in> ids m \<longleftrightarrow> (\<exists>(lo, hi) \<in> set m. lo \<le> x \<and> x \<le> hi)"
  by (induction m rule: ids.induct) auto

lemma ivs_wf_append [simp]:
  "ivs_wf b (xs @ ys) \<longleftrightarrow> ivs_wf b xs \<and> ivs_wf (ivs_end b xs) ys"
  by (induction b xs rule: ivs_wf.induct) auto

lemma ivs_end_append [simp]: "ivs_end b (xs @ ys) = ivs_end (ivs_end b xs) ys"
  by (induction b xs rule: ivs_end.induct) auto

lemma ivs_wf_mono: "ivs_wf b m \<Longrightarrow> c \<le> b \<Longrightarrow> ivs_wf c m"
  by (cases m) auto

lemma ivs_end_ge: "ivs_wf b m \<Longrightarrow> b \<le> ivs_end b m"
  by (induction b m rule: ivs_wf.induct) (auto simp: word_le_nat_alt)

lemma ivs_wf_entry: "ivs_wf b m \<Longrightarrow> (lo, hi) \<in> set m \<Longrightarrow> lo \<le> hi"
  by (induction b m rule: ivs_wf.induct) auto

lemma ivs_wf_first: "ivs_wf b m \<Longrightarrow> (lo, hi) \<in> set m \<Longrightarrow> b < unat lo"
  by (induction b m rule: ivs_wf.induct) (fastforce simp: word_le_nat_alt)+

lemma ivs_wf_last: "ivs_wf b m \<Longrightarrow> (lo, hi) \<in> set m \<Longrightarrow> unat hi < ivs_end b m"
  by (induction b m rule: ivs_wf.induct) (auto dest: ivs_end_ge)

lemma ids_gt: "ivs_wf b m \<Longrightarrow> x \<in> ids m \<Longrightarrow> b < unat x"
  by (auto simp: ids_iff word_le_nat_alt dest: ivs_wf_first)

lemma ids_less_end: "ivs_wf b m \<Longrightarrow> x \<in> ids m \<Longrightarrow> unat x < ivs_end b m"
  by (auto simp: ids_iff word_le_nat_alt dest: ivs_wf_last)

lemma ivs_wf_om_wf: "ivs_wf b m \<Longrightarrow> om_wf m"
  by (induction b m rule: ivs_wf.induct)
     (auto simp: om_wf_Cons word_less_nat_alt word_le_nat_alt dest: ivs_wf_first)

lemma unat_plus1: "x < (y :: 'a::len word) \<Longrightarrow> unat (x + 1) = Suc (unat x)"
  by unat_arith

lemma unat_minus1: "(y :: 'a::len word) < x \<Longrightarrow> unat (x - 1) = unat x - 1"
  by unat_arith

lemma uint_greater_iff: "int k < uint w \<longleftrightarrow> k < unat w"
  by (simp add: uint_nat del: of_nat_unat)

lemmas unat_order = word_less_nat_alt word_le_nat_alt

lemma finite_ids [simp]: "finite (ids (m :: 'a::len intervals))"
  by (rule finite_subset [OF subset_UNIV]) simp


lemma ivs_wf_split:
  assumes "ivs_wf b m" and "(lo, hi) \<in> set m"
  obtains pre post where "m = pre @ (lo, hi) # post"
    and "\<forall>p \<in> set pre. fst p < lo" and "\<forall>p \<in> set post. hi < fst p"
    and "ivs_wf b pre" and "ivs_end b pre < unat lo" and "lo \<le> hi"
    and "ivs_wf (Suc (unat hi)) post"
proof -
  from split_list [OF assms(2)] obtain pre post where m: "m = pre @ (lo, hi) # post"
    by blast
  with assms(1) have wf: "ivs_wf b pre" "ivs_end b pre < unat lo" "lo \<le> hi"
    "ivs_wf (Suc (unat hi)) post"
    by auto
  have "fst p < lo" if "p \<in> set pre" for p
  proof -
    obtain l h where p: "p = (l, h)" by (cases p)
    with that wf(1) have "unat h < ivs_end b pre" and "l \<le> h"
      by (auto dest: ivs_wf_last ivs_wf_entry)
    with wf(2) p show ?thesis by (simp add: unat_order)
  qed
  moreover have "hi < fst p" if "p \<in> set post" for p
  proof -
    obtain l h where "p = (l, h)" by (cases p)
    with that ivs_wf_first [OF wf(4), of l h] show ?thesis by (simp add: unat_order)
  qed
  ultimately show ?thesis using that m wf by blast
qed

section \<open>Looking an identifier up\<close>

lemma FindInterval_sound:
  assumes "ivs_wf b m" and "FindInterval m i = Some (lo, hi)"
  shows "(lo, hi) \<in> set m \<and> lo \<le> i \<and> i \<le> hi"
proof -
  let ?before = "takeWhile (\<lambda>p. fst p < i) m" and ?lub = "dropWhile (\<lambda>p. fst p < i) m"
  have prev: "(l, h) \<in> set m \<and> l \<le> i \<and> i \<le> h"
    if "IsContainedInPreviousIntervalAndGreaterThanItsStart i ?before = Some (l, h)" for l h
  proof -
    from that have "(l, h) \<in> set (rev ?before)" and "i \<le> h"
      by (auto simp: IsContainedInPreviousIntervalAndGreaterThanItsStart_def
            split: list.splits if_splits)
    then show ?thesis by (auto dest: set_takeWhileD)
  qed
  have here: "(l, h) \<in> set m \<and> l \<le> i \<and> i \<le> h"
    if "?lub = (l, h) # xs" and "\<not> l > i" for l h xs
  proof -
    from that(1) have "(l, h) \<in> set m" and "\<not> l < i"
      by (metis list.set_intros(1) set_dropWhileD, metis dropWhile_eq_Cons_conv fst_conv)
    with that(2) show ?thesis using ivs_wf_entry [OF assms(1)] by fastforce
  qed
  from assms(2) show ?thesis
    by (auto simp: FindInterval_def Let_def split: list.splits if_splits dest: prev here)
qed

lemma FindInterval_complete:
  assumes "ivs_wf b m" and "(lo, hi) \<in> set m" and "lo \<le> i" and "i \<le> hi"
  shows "FindInterval m i = Some (lo, hi)"
proof -
  obtain pre post where m: "m = pre @ (lo, hi) # post"
    and pre: "\<forall>p \<in> set pre. fst p < lo" and post: "\<forall>p \<in> set post. hi < fst p"
    using ivs_wf_split [OF assms(1,2)] by metis
  have before: "takeWhile (\<lambda>p. fst p < i) pre = pre" "dropWhile (\<lambda>p. fst p < i) pre = []"
    using pre assms(3) by auto
  show ?thesis
  proof (cases "lo = i")
    case True
    with before pre have "takeWhile (\<lambda>p. fst p < i) m = pre"
      and "dropWhile (\<lambda>p. fst p < i) m = (lo, hi) # post"
      by (auto simp: m takeWhile_append dropWhile_append)
    with True m show ?thesis by (simp add: FindInterval_def)
  next
    case False
    with assms(3) have less: "lo < i" by simp
    have stop: "takeWhile (\<lambda>p. fst p < i) post = []" "dropWhile (\<lambda>p. fst p < i) post = post"
      using post assms(4) by (cases post; force)+
    have "takeWhile (\<lambda>p. fst p < i) m = pre @ [(lo, hi)]"
      and "dropWhile (\<lambda>p. fst p < i) m = post"
      using before stop less pre by (auto simp: m takeWhile_append dropWhile_append)
    moreover have "fst p > i" if "post = p # ps" for p ps
      using that post assms(4) by auto
    ultimately show ?thesis using assms(4) m
      by (auto simp: FindInterval_def Let_def
            IsContainedInPreviousIntervalAndGreaterThanItsStart_def split: list.splits)
  qed
qed

lemma FindInterval_iff:
  "ivs_wf b m \<Longrightarrow> FindInterval m i = Some (lo, hi) \<longleftrightarrow> (lo, hi) \<in> set m \<and> lo \<le> i \<and> i \<le> hi"
  using FindInterval_sound FindInterval_complete by blast

lemma FindInterval_None_iff: "ivs_wf b m \<Longrightarrow> FindInterval m i = None \<longleftrightarrow> i \<notin> ids m"
  using FindInterval_iff [of b m i]
  by (cases "FindInterval m i") (fastforce simp: ids_iff)+

lemma IsUsed_iff: "id_manager_inv s \<Longrightarrow> IsUsed s i \<longleftrightarrow> i \<in> used_ids s"
  by (metis FindInterval_None_iff IsUsed_def used_ids_def id_manager_inv_def)

section \<open>Word intervals and counting\<close>

lemma interval_drop_first: "lo < (hi :: 'a::len word) \<Longrightarrow> {lo + 1..hi} = {lo..hi} - {lo}"
  by (auto simp: unat_order word_unat_eq_iff unat_plus1)

lemma interval_drop_last: "lo < (hi :: 'a::len word) \<Longrightarrow> {lo..hi - 1} = {lo..hi} - {hi}"
  by (auto simp: unat_order word_unat_eq_iff unat_minus1)

lemma interval_extend:
  "lo \<le> (hi :: 'a::len word) \<Longrightarrow> hi < z \<Longrightarrow> {lo..hi + 1} = insert (hi + 1) {lo..hi}"
  by (auto simp: unat_order word_unat_eq_iff unat_plus1)

lemma interval_split:
  "lo < (x :: 'a::len word) \<Longrightarrow> x < hi \<Longrightarrow> {lo..x - 1} \<union> {x + 1..hi} = {lo..hi} - {x}"
  using unat_minus1 [of lo x] by (auto simp: unat_order word_unat_eq_iff unat_plus1)

lemma card_words_without_0:
  assumes "(0 :: 'a::len word) \<notin> X"
  shows "card X < 2 ^ LENGTH('a)"
proof -
  have "X \<subset> (UNIV :: 'a word set)" using assms by auto
  then have "card X < card (UNIV :: 'a word set)" by (intro psubset_card_mono) simp_all
  then show ?thesis by (simp add: card_word)
qed

lemma zero_notin_ids: "ivs_wf b m \<Longrightarrow> 0 \<notin> ids m"
  by (auto dest: ids_gt)

lemma unat_incr_card:
  assumes "unat (n :: 'a::len word) = card X" and "x \<notin> X" and "0 \<notin> insert x (X :: 'a word set)"
  shows "unat (n + 1) = card (insert x X)"
proof -
  have "card (insert x X) < 2 ^ LENGTH('a)" using assms(3) by (rule card_words_without_0)
  with assms(1,2) have "Suc (unat n) < 2 ^ LENGTH('a)" by simp
  with assms(1,2) show ?thesis by (simp add: unat_word_ariths)
qed

lemma unat_decr_card:
  assumes "unat (n :: 'a::len word) = card X" and "x \<in> (X :: 'a word set)"
  shows "unat (n - 1) = card (X - {x})"
proof -
  have "0 < card X" using assms(2) by (auto simp: card_gt_0_iff)
  with assms(1) have "0 < n" by (simp add: unat_order)
  with assms show ?thesis by (simp add: unat_minus1)
qed

section \<open>GetId\<close>

text \<open>
  What a call changes: the intervals become a well-formed representation of the old set with
  one identifier added, and every smaller identifier was already in use.
\<close>

definition get_step :: "'a::len intervals \<Rightarrow> 'a word \<Rightarrow> 'a intervals \<Rightarrow> bool" where
  "get_step m i m' \<longleftrightarrow>
     i \<notin> ids m \<and> i \<noteq> 0 \<and> (\<forall>j. 0 < j \<and> j < i \<longrightarrow> j \<in> ids m) \<and>
     ids m' = insert i (ids m) \<and> ivs_wf 0 m'"

lemma get_step_inv:
  assumes "id_manager_inv s" and "get_step (id_intervals s) i m'"
  shows "id_manager_inv (s\<lparr>id_intervals := m', id_size := id_size s + 1\<rparr>)"
  using assms unat_incr_card [of "id_size s" "used_ids s" i]
  by (auto simp: id_manager_inv_def get_step_def used_ids_def dest: zero_notin_ids)

lemma get_step_first:
  assumes "ivs_wf 0 m" and "m = (first, second) # rest" and "1 < uint first"
  shows "get_step m 1 (if uint first > 2 then om_insert 1 1 m else om_erase first (om_insert 1 second m))"
proof -
  have first: "1 < unat first" using assms(3) uint_greater_iff [of 1 first] by simp
  then have one: "(1 :: 'a word) < first" "unat (1 :: 'a word) = 1"
    by (simp_all add: unat_order)
  have notin: "1 \<notin> ids m"
    using assms(1,2) first one by (auto simp: unat_order dest!: ids_gt)
  have below: "\<not> (0 < j \<and> j < (1 :: 'a word))" for j
    using one by (auto simp: unat_order)
  show ?thesis
  proof (cases "uint first > 2")
    case True
    then have "2 < unat first" using uint_greater_iff [of 2 first] by simp
    with True assms one notin below show ?thesis
      by (auto simp: get_step_def)
  next
    case False
    with first have two: "unat first = 2" using uint_greater_iff [of 2 first] by simp
    have cut: "{1..second} = insert 1 {first..second}"
      using two one assms(1,2)
      by (auto simp: unat_order word_unat_eq_iff)
    have "om_erase first (om_insert 1 second m) = (1, second) # rest"
      using one(1) assms(2) by (cases "first = 1") auto
    moreover have "1 \<le> second" using one assms(1,2) by auto
    ultimately show ?thesis
      using cut one assms(1,2) notin below False by (simp add: get_step_def)
  qed
qed

lemma get_step_gap:
  assumes "ivs_wf 0 m" and m: "m = (first, second) # (nf, ns) # rest" and "\<not> 1 < uint first"
  shows "get_step m (second + 1)
           (if uint (second + 1) + 1 = uint nf then om_erase nf (om_set first ns m)
            else om_set first (second + 1) m)"
proof -
  have wf: "0 < unat first" "first \<le> second" "Suc (unat second) < unat nf" "nf \<le> ns"
    "ivs_wf (Suc (unat ns)) rest"
    using assms(1) m by auto
  then have first1: "unat first = 1" using assms(3) uint_greater_iff [of 1 first] by simp
  have less: "second < nf" using wf(3) by (simp add: unat_order)
  then have new: "unat (second + 1) = Suc (unat second)" by (rule unat_plus1)
  have "second + 1 \<notin> ids rest"
    using wf new ids_gt [OF wf(5), of "second + 1"] by (auto simp: unat_order)
  then have notin: "second + 1 \<notin> ids m" and nz: "second + 1 \<noteq> 0"
    using wf new by (auto simp: m unat_order word_unat_eq_iff)
  have below: "j \<in> ids m" if "0 < j" "j < second + 1" for j
    using that first1 new by (auto simp: m unat_order)
  have differ: "first \<noteq> nf" using wf(2) less by auto
  show ?thesis
  proof (cases "uint (second + 1) + 1 = uint nf")
    case True
    then have nf: "unat nf = Suc (Suc (unat second))"
      using new by (simp add: uint_nat del: of_nat_unat)
    have cut: "{first..ns} = insert (second + 1) ({first..second} \<union> {nf..ns})"
      using wf nf new by (auto simp: unat_order word_unat_eq_iff)
    have "first \<le> ns" using wf less by auto
    with True notin nz below cut differ wf(1,5) show ?thesis
      by (simp add: get_step_def m Un_assoc)
  next
    case False
    then have "unat nf \<noteq> Suc (Suc (unat second))"
      using new by (simp add: uint_nat del: of_nat_unat)
    with False notin nz below wf new interval_extend [OF wf(2) less] show ?thesis
      by (simp add: get_step_def m unat_order)
  qed
qed

lemma get_step_last:
  assumes "ivs_wf 0 m" and m: "m = [(first, second)]" and "\<not> 1 < uint first" and "second \<noteq> - 1"
  shows "get_step m (second + 1) (om_set first (second + 1) m)"
proof -
  have wf: "0 < unat first" "first \<le> second" using assms(1) m by auto
  then have first1: "unat first = 1" using assms(3) uint_greater_iff [of 1 first] by simp
  have less: "second < - 1" using assms(4) word_order.not_eq_extremum by blast
  then have new: "unat (second + 1) = Suc (unat second)" by (rule unat_plus1)
  with wf first1 interval_extend [OF wf(2) less] show ?thesis
    by (auto simp: get_step_def m unat_order word_unat_eq_iff)
qed

lemma GetId_cases:
  assumes "id_manager_inv s"
  obtains (get) i m' where
      "GetId s = (Inr i, s\<lparr>id_intervals := m', id_size := id_size s + 1\<rparr>)"
      "get_step (id_intervals s) i m'"
    | (full) "GetId s = (Inl LengthError, s)" "used_ids s = {x. 0 < x}"
proof (cases "id_intervals s")
  case Nil
  with assms have "id_size s = 0"
    by (simp add: id_manager_inv_def used_ids_def unat_eq_zero)
  moreover have "get_step (id_intervals s) 1 [(1, 1)]"
    using Nil by (auto simp: get_step_def word_unat_eq_iff unat_order)
  ultimately show ?thesis using Nil by (intro get [of 1]) (simp_all add: GetId_def)
next
  case (Cons p rest)
  obtain first second where m: "id_intervals s = (first, second) # rest"
    using Cons by (cases p) simp
  have wf: "ivs_wf 0 (id_intervals s)" using assms by (simp add: id_manager_inv_def)
  show ?thesis
  proof (cases "1 < uint first")
    case True
    with get_step_first [OF wf m] show ?thesis
      by (intro get) (auto simp: GetId_def m Let_def)
  next
    case False
    show ?thesis
    proof (cases rest)
      case Nil
      show ?thesis
      proof (cases "second = - 1")
        case True
        have "unat first = 1"
          using False wf m uint_greater_iff [of 1 first] by simp
        then have "first \<le> x \<longleftrightarrow> 0 < x" for x by (auto simp: unat_order)
        with True Nil m have "used_ids s = {x. 0 < x}" by (simp add: used_ids_def set_eq_iff)
        with True False Nil m show ?thesis by (intro full) (simp_all add: GetId_def)
      next
        case last: False
        with get_step_last [OF wf _ False] Nil m show ?thesis
          by (intro get) (auto simp: GetId_def \<open>\<not> 1 < uint first\<close> Let_def)
      qed
    next
      case (Cons q rest')
      obtain nf ns where "rest = (nf, ns) # rest'" using Cons by (cases q) simp
      with get_step_gap [OF wf _ False] m False show ?thesis
        by (intro get) (auto simp: GetId_def Let_def)
    qed
  qed
qed

section \<open>ReleaseId\<close>

lemma released_intervals:
  assumes wf: "ivs_wf b m" and mem: "(first, upper) \<in> set m" and i: "first \<le> i" "i \<le> upper"
    and m': "m' = (if i = first
               then if i = upper then om_erase first m
                    else om_erase first (om_insert (i + 1) upper m)
               else if i = upper then om_set first (upper - 1) m
               else om_set first (i - 1) (om_insert (i + 1) upper m))"
  shows "ivs_wf b m' \<and> ids m' = ids m - {i}"
proof -
  obtain pre post where m: "m = pre @ (first, upper) # post"
    and pre: "\<forall>p \<in> set pre. fst p < first" and post: "\<forall>p \<in> set post. upper < fst p"
    and wfs: "ivs_wf b pre" "ivs_end b pre < unat first" "first \<le> upper"
      "ivs_wf (Suc (unat upper)) post"
    using ivs_wf_split [OF wf mem] .
  have key: "first \<notin> fst ` set pre" using pre by auto
  have out: "i \<notin> ids pre" "i \<notin> ids post"
    using ids_less_end [OF wfs(1), of i] ids_gt [OF wfs(4), of i] wfs(2) i
    by (auto simp: unat_order)
  have ins: "om_insert (i + 1) upper m = (pre @ [(first, upper)]) @ (i + 1, upper) # post"
    if "i < upper"
  proof -
    have "\<forall>p \<in> set (pre @ [(first, upper)]). fst p < i + 1"
      and "\<forall>p \<in> set post. i + 1 < fst p"
      using pre post i that unat_plus1 [OF that] by (auto simp: unat_order)
    then show ?thesis using om_insert_at [of "pre @ [(first, upper)]"] by (simp add: m)
  qed
  consider "i = first" "i = upper" | "i = first" "i < upper" | "first < i" "i = upper"
    | "first < i" "i < upper"
    using i by fastforce
  then show ?thesis
  proof cases
    case 1
    then have "m' = pre @ post" using m' key by (simp add: m om_erase_at)
    moreover have "ivs_wf (ivs_end b pre) post"
      using wfs by (intro ivs_wf_mono [OF wfs(4)]) (simp add: unat_order)
    ultimately show ?thesis using wfs out 1 by (auto simp: m)
  next
    case 2
    then have "m' = pre @ (i + 1, upper) # post"
      using m' key ins om_erase_at [of first pre upper "(i + 1, upper) # post"] by auto
    with 2 wfs out interval_drop_first [of i upper] show ?thesis
      by (auto simp: m unat_order unat_plus1)
  next
    case 3
    then have "m' = pre @ (first, upper - 1) # post"
      using m' key by (auto simp: m om_set_at)
    moreover have "ivs_wf (Suc (unat (upper - 1))) post"
      using 3 by (intro ivs_wf_mono [OF wfs(4)]) (simp add: unat_minus1)
    moreover have "first \<le> upper - 1" using 3 by (auto simp: unat_order unat_minus1)
    ultimately show ?thesis
      using 3 wfs out interval_drop_last [of first upper] by (auto simp: m)
  next
    case 4
    then have eq: "m' = pre @ (first, i - 1) # (i + 1, upper) # post"
      using m' key ins om_set_at [of first pre "i - 1" upper "(i + 1, upper) # post"] by auto
    have un: "unat (i - 1) = unat i - 1" "unat (i + 1) = Suc (unat i)"
      using 4 by (simp_all add: unat_minus1 [of first] unat_plus1 [of _ upper])
    have "ivs_wf b m'" using 4 wfs un by (simp add: eq unat_order)
    moreover have "ids m' = ids pre \<union> ({first..i - 1} \<union> {i + 1..upper}) \<union> ids post"
      by (simp add: eq Un_assoc)
    ultimately show ?thesis
      unfolding interval_split [OF 4] using out by (auto simp: m)
  qed
qed

lemma ReleaseId_cases:
  assumes "id_manager_inv s"
  obtains (release) s' where "ReleaseId s i = (Inr (), s')" "i \<in> used_ids s"
      "used_ids s' = used_ids s - {i}" "id_manager_inv s'"
    | (unused) "ReleaseId s i = (Inl LogicError, s)" "i \<notin> used_ids s"
proof (cases "FindInterval (id_intervals s) i")
  case None
  have "ivs_wf 0 (id_intervals s)" using assms by (simp add: id_manager_inv_def)
  from FindInterval_None_iff [OF this, of i] None have "i \<notin> used_ids s"
    by (simp add: used_ids_def)
  with None show ?thesis by (intro unused) (simp_all add: ReleaseId_def)
next
  case (Some p)
  obtain first upper where p: "p = (first, upper)" by (cases p)
  have wf: "ivs_wf 0 (id_intervals s)" using assms by (simp add: id_manager_inv_def)
  from FindInterval_sound [OF wf Some [unfolded p]]
  have mem: "(first, upper) \<in> set (id_intervals s)" and i: "first \<le> i" "i \<le> upper"
    by auto
  from mem i have used: "i \<in> used_ids s" by (auto simp: used_ids_def ids_iff)
  define m' where "m' = (if i = first
      then if i = upper then om_erase first (id_intervals s)
           else om_erase first (om_insert (i + 1) upper (id_intervals s))
      else if i = upper then om_set first (upper - 1) (id_intervals s)
      else om_set first (i - 1) (om_insert (i + 1) upper (id_intervals s)))"
  let ?s' = "s\<lparr>id_intervals := m', id_size := id_size s - 1\<rparr>"
  have "ReleaseId s i = (Inr (), ?s')"
    using Some p by (simp only: ReleaseId_def Let_def option.case prod.case m'_def)
  moreover have step: "ivs_wf 0 m'" "used_ids ?s' = used_ids s - {i}"
    using released_intervals [OF wf mem i m'_def] by (simp_all add: used_ids_def)
  moreover have "id_manager_inv ?s'"
    using assms used step unat_decr_card [of "id_size s" "used_ids s" i]
    by (simp add: id_manager_inv_def)
  ultimately show ?thesis using used by (intro release)
qed

section \<open>The representation is unique and minimal\<close>

lemma ids_Cons_first: "ivs_wf b ((lo, hi) # m) \<Longrightarrow> x \<in> ids ((lo, hi) # m) \<Longrightarrow> lo \<le> x"
  using ids_gt [of "Suc (unat hi)" m x] by (auto simp: unat_order)

lemma after_interval_notin:
  assumes "ivs_wf b ((lo, hi) # m)" and "hi < z"
  shows "hi + 1 \<notin> ids ((lo, hi) # m)"
  using assms ids_gt [of "Suc (unat hi)" m "hi + 1"] unat_plus1 [OF assms(2)]
  by (auto simp: unat_order)

lemma before_interval_notin:
  assumes "ivs_wf b m" and "(lo, hi) \<in> set m"
  shows "lo - 1 \<notin> ids m"
proof -
  obtain pre post where m: "m = pre @ (lo, hi) # post" and "ivs_wf b pre"
    and "ivs_end b pre < unat lo" and "lo \<le> hi" and "ivs_wf (Suc (unat hi)) post"
    using ivs_wf_split [OF assms] by metis
  moreover from this have "unat (lo - 1) = unat lo - 1" "0 < unat lo"
    by (auto simp: unat_minus1 [of 0] unat_order)
  ultimately show ?thesis
    using ids_less_end [of b pre "lo - 1"] ids_gt [of "Suc (unat hi)" post "lo - 1"]
    by (auto simp: m unat_order)
qed

lemma first_interval_eq:
  assumes "ivs_wf b ((l1, h1) # r1)" and "ivs_wf b ((l2, h2) # r2)"
    and "ids ((l1, h1) # r1) = ids ((l2, h2) # r2)"
  shows "l1 = l2 \<and> h1 \<le> h2"
proof -
  have mem: "l1 \<in> ids ((l1, h1) # r1)" "l2 \<in> ids ((l2, h2) # r2)" using assms(1,2) by auto
  have l: "l1 = l2"
    using ids_Cons_first [OF assms(1), of l2] ids_Cons_first [OF assms(2), of l1] mem assms(3)
    by (metis order.antisym)
  have "False" if "h2 < h1"
  proof -
    have "h2 + 1 \<in> ids ((l1, h1) # r1)"
      using that assms(1,2) l unat_plus1 [OF that] by (auto simp: unat_order)
    with after_interval_notin [OF assms(2) that] assms(3) show False by simp
  qed
  with l show ?thesis by force
qed

lemma ivs_wf_unique: "ivs_wf b m1 \<Longrightarrow> ivs_wf b m2 \<Longrightarrow> ids m1 = ids m2 \<Longrightarrow> m1 = m2"
proof (induction b m1 arbitrary: m2 rule: ivs_wf.induct)
  case (1 b)
  then show ?case by (cases m2) auto
next
  case (2 b l1 h1 r1)
  obtain l2 h2 r2 where m2: "m2 = (l2, h2) # r2" using 2 by (cases m2) auto
  have eq: "l1 = l2" "h1 = h2"
    using first_interval_eq [of b l1 h1 r1 l2 h2 r2] first_interval_eq [of b l2 h2 r2 l1 h1 r1]
      2 m2 by auto
  have rest: "ids r1 = ids ((l1, h1) # r1) - {l1..h1}" "ids r2 = ids ((l2, h2) # r2) - {l2..h2}"
    using 2 m2 ids_gt [of "Suc (unat h1)" r1] ids_gt [of "Suc (unat h2)" r2]
    by (fastforce simp: unat_order)+
  have "ids r1 = ids r2" unfolding rest using 2(4) m2 eq by simp
  with 2 m2 eq show ?case by auto
qed

lemma ivs_wf_minimal:
  assumes "ivs_wf b m" and "ids ps = ids m"
  shows "length m \<le> length ps"
proof -
  have "lo \<in> fst ` set ps" if mem: "(lo, hi) \<in> set m" for lo hi
  proof -
    have "lo \<in> ids ps" using assms ivs_wf_entry [OF assms(1) mem] mem by (force simp: ids_iff)
    then obtain l h where p: "(l, h) \<in> set ps" "l \<le> lo" "lo \<le> h" by (auto simp: ids_iff)
    have "\<not> l < lo"
    proof
      assume less: "l < lo"
      with p have "lo - 1 \<in> ids ps"
        by (auto simp: ids_iff unat_order unat_minus1 [OF less] intro!: bexI [of _ "(l, h)"])
      with before_interval_notin [OF assms(1) mem] assms(2) show False by simp
    qed
    with p show ?thesis by force
  qed
  then have "fst ` set m \<subseteq> fst ` set ps" by auto
  then have "card (fst ` set m) \<le> card (fst ` set ps)" by (intro card_mono) simp_all
  moreover have "card (fst ` set m) = length m"
    using om_wf_distinct [OF ivs_wf_om_wf [OF assms(1)]] by (metis distinct_card length_map set_map)
  moreover have "card (fst ` set ps) \<le> length ps"
    by (metis card_image_le card_length finite_set le_trans)
  ultimately show ?thesis by simp
qed

section \<open>Identifier pools\<close>

text \<open>
  The interface a client of \<open>IdManager\<close> relies on: the operations, the set of identifiers in
  use they maintain, and the set of identifiers that can be issued.
\<close>

datatype 'i id_op = Get | Release 'i

fun pool_step :: "('s \<Rightarrow> (exn + 'i) \<times> 's) \<Rightarrow> ('s \<Rightarrow> 'i \<Rightarrow> (exn + unit) \<times> 's) \<Rightarrow>
    's \<Rightarrow> 'i id_op \<Rightarrow> (exn + 'i option) \<times> 's" where
  "pool_step get release s Get = (case get s of (r, s') \<Rightarrow> (map_sum id Some r, s'))"
| "pool_step get release s (Release i) = (case release s i of (r, s') \<Rightarrow> (map_sum id (\<lambda>_. None) r, s'))"

fun pool_run :: "('s \<Rightarrow> (exn + 'i) \<times> 's) \<Rightarrow> ('s \<Rightarrow> 'i \<Rightarrow> (exn + unit) \<times> 's) \<Rightarrow>
    's \<Rightarrow> 'i id_op list \<Rightarrow> (exn + 'i option) list \<times> 's" where
  "pool_run get release s [] = ([], s)"
| "pool_run get release s (x # xs) =
     (case pool_step get release s x of
        (r, s') \<Rightarrow> (case pool_run get release s' xs of (rs, s'') \<Rightarrow> (r # rs, s'')))"

text \<open>The reference: a set, from which the least free identifier is issued.\<close>

definition abs_get :: "'i::wellorder set \<Rightarrow> 'i set \<Rightarrow> (exn + 'i) \<times> 'i set" where
  "abs_get valid S =
     (if valid \<subseteq> S then (Inl LengthError, S)
      else let i = (LEAST i. i \<in> valid - S) in (Inr i, insert i S))"

definition abs_release :: "'i set \<Rightarrow> 'i \<Rightarrow> (exn + unit) \<times> 'i set" where
  "abs_release S i = (if i \<in> S then (Inr (), S - {i}) else (Inl LogicError, S))"

locale id_pool =
  fixes get :: "'s \<Rightarrow> (exn + 'i::wellorder) \<times> 's"
    and release :: "'s \<Rightarrow> 'i \<Rightarrow> (exn + unit) \<times> 's"
    and pool :: "'s \<Rightarrow> 'i set"
    and invar :: "'s \<Rightarrow> bool"
    and valid :: "'i set"
  assumes get_law: "\<And>s r s'. invar s \<Longrightarrow> get s = (r, s') \<Longrightarrow>
      invar s' \<and> abs_get valid (pool s) = (r, pool s')"
    and release_law: "\<And>s i r s'. invar s \<Longrightarrow> release s i = (r, s') \<Longrightarrow>
      invar s' \<and> abs_release (pool s) i = (r, pool s')"
begin

lemma step_refines:
  assumes "invar s" and "pool_step get release s x = (r, s')"
  shows "invar s' \<and> pool_step (abs_get valid) abs_release (pool s) x = (r, pool s')"
proof (cases x)
  case Get
  obtain q t where "get s = (q, t)" by (cases "get s")
  with get_law [OF assms(1) this] assms(2) Get show ?thesis by auto
next
  case (Release i)
  obtain q t where "release s i = (q, t)" by (cases "release s i")
  with release_law [OF assms(1) this] assms(2) Release show ?thesis by auto
qed

lemma run_refines:
  "invar s \<Longrightarrow> pool_run get release s xs = (rs, s') \<Longrightarrow>
     invar s' \<and> pool_run (abs_get valid) abs_release (pool s) xs = (rs, pool s')"
proof (induction xs arbitrary: s rs)
  case Nil
  then show ?case by simp
next
  case (Cons x xs)
  obtain r t where step: "pool_step get release s x = (r, t)" by (cases "pool_step get release s x")
  from step_refines [OF Cons.prems(1) step] Cons.prems(2) Cons.IH [of t] show ?case
    by (auto simp: step split: prod.splits)
qed

lemma get_issues_unused:
  assumes "invar s" and "get s = (Inr i, s')"
  shows "i \<in> valid \<and> i \<notin> pool s \<and> pool s' = insert i (pool s)"
proof -
  have "abs_get valid (pool s) = (Inr i, pool s')" using get_law [OF assms] by simp
  then have "\<not> valid \<subseteq> pool s" and i: "i = (LEAST i. i \<in> valid - pool s)"
    and "pool s' = insert i (pool s)"
    by (auto simp: abs_get_def Let_def split: if_splits)
  then obtain j where "j \<in> valid - pool s" by blast
  then have "i \<in> valid - pool s" unfolding i by (rule LeastI)
  with \<open>pool s' = insert i (pool s)\<close> show ?thesis by simp
qed

lemma release_get_reissues:
  assumes "invar s" and "release s i = (Inr (), s')" and "i \<in> valid"
  shows "\<exists>j s''. get s' = (Inr j, s'') \<and> j \<le> i"
proof -
  from release_law [OF assms(1,2)] have s': "invar s'" "pool s' = pool s - {i}"
    by (auto simp: abs_release_def split: if_splits)
  obtain r s'' where g: "get s' = (r, s'')" by (cases "get s'")
  have free: "i \<in> valid - pool s'" using assms(3) s' by simp
  then have "(LEAST j. j \<in> valid - pool s') \<le> i" by (rule Least_le)
  with get_law [OF s'(1) g] free g show ?thesis
    by (auto simp: abs_get_def Let_def split: if_splits)
qed

end

section \<open>IdManager provides the interface\<close>

lemma get_step_least:
  "get_step m i m' \<Longrightarrow> (LEAST j. j \<in> {x. 0 < x} - ids m) = i"
  by (rule Least_equality) (auto simp: get_step_def word_neq_0_conv not_less [symmetric])

lemma GetId_law:
  assumes "id_manager_inv s" and "GetId s = (r, s')"
  shows "id_manager_inv s' \<and> abs_get {x. 0 < x} (used_ids s) = (r, used_ids s')"
  using assms(1)
proof (cases rule: GetId_cases)
  case (get i m')
  then have "\<not> {x. 0 < x} \<subseteq> used_ids s"
    by (auto simp: get_step_def used_ids_def word_neq_0_conv)
  with get get_step_inv [OF assms(1) get(2)] get_step_least [OF get(2)] assms(2) show ?thesis
    by (auto simp: abs_get_def used_ids_def get_step_def)
next
  case full
  with assms show ?thesis by (auto simp: abs_get_def)
qed

lemma ReleaseId_law:
  assumes "id_manager_inv s" and "ReleaseId s i = (r, s')"
  shows "id_manager_inv s' \<and> abs_release (used_ids s) i = (r, used_ids s')"
  using assms(1) by (cases rule: ReleaseId_cases [of s i]) (use assms in \<open>auto simp: abs_release_def\<close>)

interpretation idm: id_pool GetId ReleaseId used_ids id_manager_inv "{x. 0 < x}"
  by unfold_locales (auto dest: GetId_law ReleaseId_law)

lemma id_manager_inv_new [simp]: "id_manager_inv IdManager_new"
  by (simp add: id_manager_inv_def IdManager_new_def used_ids_def)

lemma used_ids_new [simp]: "used_ids IdManager_new = {}"
  by (simp add: IdManager_new_def used_ids_def)

section \<open>Properties\<close>

definition example_ids :: "16 id_manager" where
  "example_ids = \<lparr>id_size = 4, id_intervals = [(1, 3), (5, 5)]\<rparr>"

lemma example_ids_inv: "id_manager_inv example_ids"
proof -
  have "{1..3} = {1, 2, 3 :: 16 word}" by (auto simp: unat_order word_unat_eq_iff)
  then have "used_ids example_ids = {1, 2, 3, 5}"
    by (auto simp: example_ids_def used_ids_def)
  then show ?thesis by (simp add: id_manager_inv_def example_ids_def)
qed

text \<open>
  C17. \<open>GetId\<close> on a manager in a consistent state: it returns the least identifier that is not
  in use, which then is in use, and keeps the state consistent; it throws only when every
  identifier of the type is in use, and then changes nothing (strong exception guarantee).
\<close>

theorem GetId_correct:
  assumes "id_manager_inv s"
  shows "case GetId s of
      (Inr i, s') \<Rightarrow> i \<noteq> 0 \<and> i \<notin> used_ids s \<and> (\<forall>j. 0 < j \<and> j < i \<longrightarrow> j \<in> used_ids s) \<and>
        used_ids s' = insert i (used_ids s) \<and> id_manager_inv s'
    | (Inl e, s') \<Rightarrow> e = LengthError \<and> s' = s \<and> used_ids s = {x. 0 < x}"
  using assms
proof (cases rule: GetId_cases)
  case (get i m')
  with get_step_inv [OF assms get(2)] show ?thesis by (simp add: get_step_def used_ids_def)
next
  case full
  then show ?thesis by simp
qed

theorem GetId_correct_witness:
  "case GetId example_ids of
      (Inr i, s') \<Rightarrow> i = 4 \<and> id_intervals s' = [(1, 5)] \<and> id_manager_inv s'
    | (Inl e, s') \<Rightarrow> False"
  using GetId_correct [OF example_ids_inv]
  by (simp add: GetId_def example_ids_def)

text \<open>
  C18. \<open>ReleaseId\<close> on a manager in a consistent state: an identifier in use stops being in use,
  whichever of the five shapes its interval has (alone, first, last, inner), and the state
  stays consistent; releasing an identifier that is not in use throws and changes nothing.
\<close>

theorem ReleaseId_correct:
  assumes "id_manager_inv s"
  shows "case ReleaseId s i of
      (Inr _, s') \<Rightarrow> i \<in> used_ids s \<and> used_ids s' = used_ids s - {i} \<and> id_manager_inv s'
    | (Inl e, s') \<Rightarrow> e = LogicError \<and> s' = s \<and> i \<notin> used_ids s"
  using assms by (cases rule: ReleaseId_cases [of s i]) simp_all

theorem ReleaseId_correct_witness:
  "case ReleaseId example_ids 2 of
      (Inr _, s') \<Rightarrow> id_intervals s' = [(1, 1), (3, 3), (5, 5)] \<and> id_manager_inv s'
    | (Inl e, s') \<Rightarrow> False"
  using ReleaseId_correct [OF example_ids_inv, of 2]
  by (simp add: ReleaseId_def FindInterval_def example_ids_def
        IsContainedInPreviousIntervalAndGreaterThanItsStart_def)

text \<open>
  C16. Any sequence of \<open>GetId\<close> and \<open>ReleaseId\<close> calls on a new manager returns and throws
  exactly what the reference on sets of identifiers does; afterwards \<open>IsUsed\<close> is membership
  in the reference's set and \<open>NumberOfUsedIds\<close> is its size, with no wrap-around.
\<close>

theorem IdManager_refines_set:
  "case pool_run GetId ReleaseId (IdManager_new :: 'a::len id_manager) ops of
     (rs, s) \<Rightarrow> \<exists>S. pool_run (abs_get {x. 0 < x}) abs_release {} ops = (rs, S) \<and>
       (\<forall>i. IsUsed s i = (i \<in> S)) \<and> unat (NumberOfUsedIds s) = card S"
proof -
  obtain rs s where run: "pool_run GetId ReleaseId (IdManager_new :: 'a id_manager) ops = (rs, s)"
    by (cases "pool_run GetId ReleaseId (IdManager_new :: 'a id_manager) ops")
  from idm.run_refines [OF id_manager_inv_new this] have inv: "id_manager_inv s"
    and abs: "pool_run (abs_get {x. 0 < x}) abs_release {} ops = (rs, used_ids s)"
    by auto
  from inv have "unat (NumberOfUsedIds s) = card (used_ids s)"
    by (simp add: NumberOfUsedIds_def id_manager_inv_def)
  with run inv abs show ?thesis by (auto simp: IsUsed_iff)
qed

text \<open>The state after a sequence of calls on a new manager.\<close>

definition after_calls :: "'a::len word id_op list \<Rightarrow> 'a id_manager" where
  "after_calls ops = snd (pool_run GetId ReleaseId IdManager_new ops)"

lemma after_calls_inv: "id_manager_inv (after_calls ops)"
  using idm.run_refines [OF id_manager_inv_new, of ops] unfolding after_calls_def
  by (cases "pool_run GetId ReleaseId (IdManager_new :: 'a id_manager) ops") simp

text \<open>
  C26. The representation is minimal and unique, as the header's discussion argues. After any sequence
  of \<open>GetId\<close> and \<open>ReleaseId\<close> calls on a new manager the list of intervals is as short as any list of
  intervals with exactly the identifiers in use; and two sequences of calls that end with the same
  identifiers in use, however different, end with the same list.
\<close>

theorem intervals_unique_minimal:
  "(\<forall>m. ids m = {i. IsUsed (after_calls ops) i} \<longrightarrow> length (id_intervals (after_calls ops)) \<le> length m)
   \<and> ({i. IsUsed (after_calls ops') i} = {i. IsUsed (after_calls ops) i} \<longrightarrow>
        id_intervals (after_calls ops') = id_intervals (after_calls ops))"
proof -
  have wf: "ivs_wf 0 (id_intervals (after_calls xs))"
    and used: "{i. IsUsed (after_calls xs) i} = ids (id_intervals (after_calls xs))" for xs :: "'a word id_op list"
    using after_calls_inv [of xs] by (auto simp: id_manager_inv_def IsUsed_iff used_ids_def)
  show ?thesis unfolding used using ivs_wf_minimal [OF wf] ivs_wf_unique [OF wf wf] by blast
qed

theorem intervals_unique_minimal_witness:
  "id_intervals (after_calls [Get, Get, Release 1, Get :: 16 word id_op]) = id_intervals (after_calls [Get, Get :: 16 word id_op])
     \<and> length (id_intervals (after_calls [Get, Get :: 16 word id_op])) \<le> length [(1 :: 16 word, 1 :: 16 word), (2, 2)]"
proof -
  have s: "after_calls [Get, Get :: 16 word id_op] = \<lparr>id_size = 2, id_intervals = [(1, 2)]\<rparr>"
      "after_calls [Get, Get, Release 1, Get :: 16 word id_op] = \<lparr>id_size = 2, id_intervals = [(1, 2)]\<rparr>"
    by (code_simp, code_simp)
  have "ids [(1, 1), (2, 2 :: 16 word)] = {i. IsUsed (after_calls [Get, Get :: 16 word id_op]) i}"
    using after_calls_inv [of "[Get, Get :: 16 word id_op]"]
    by (auto simp: IsUsed_iff used_ids_def s unat_order word_unat_eq_iff)
  then show ?thesis
    using intervals_unique_minimal [of "[Get, Get :: 16 word id_op]" "[Get, Get, Release 1, Get]"] s by metis
qed

end
