(* ===== verification/Fcgi_Protocol.thy ===== *)
theory Fcgi_Protocol
  imports Fcgi_Prelude
begin

text \<open>
  The constants of \<open>fcgi/include/fcgi_protocol_constants.h\<close> and the value class of
  \<open>fcgi/include/fcgi_request_identifier.h\<close>.
\<close>

section \<open>Constants\<close>

abbreviation (input) FCGI_HEADER_LEN :: nat where "FCGI_HEADER_LEN \<equiv> 8"
abbreviation (input) FCGI_VERSION_1 :: byte where "FCGI_VERSION_1 \<equiv> 1"
abbreviation (input) FCGI_NULL_REQUEST_ID :: u16 where "FCGI_NULL_REQUEST_ID \<equiv> 0"
abbreviation (input) FCGI_KEEP_CONN :: byte where "FCGI_KEEP_CONN \<equiv> 1"

abbreviation (input) FCGI_RESPONDER :: u16 where "FCGI_RESPONDER \<equiv> 1"
abbreviation (input) FCGI_AUTHORIZER :: u16 where "FCGI_AUTHORIZER \<equiv> 2"
abbreviation (input) FCGI_FILTER :: u16 where "FCGI_FILTER \<equiv> 3"

abbreviation (input) FCGI_REQUEST_COMPLETE :: byte where "FCGI_REQUEST_COMPLETE \<equiv> 0"
abbreviation (input) FCGI_CANT_MPX_CONN :: byte where "FCGI_CANT_MPX_CONN \<equiv> 1"
abbreviation (input) FCGI_OVERLOADED :: byte where "FCGI_OVERLOADED \<equiv> 2"
abbreviation (input) FCGI_UNKNOWN_ROLE :: byte where "FCGI_UNKNOWN_ROLE \<equiv> 3"

text \<open>
  The names of the variables of an \<open>FCGI_GET_VALUES\<close> record, as the code's ASCII bytes.
\<close>

definition FCGI_MAX_CONNS :: bytes where
  "FCGI_MAX_CONNS = [70, 67, 71, 73, 95, 77, 65, 88, 95, 67, 79, 78, 78, 83]"

definition FCGI_MAX_REQS :: bytes where
  "FCGI_MAX_REQS = [70, 67, 71, 73, 95, 77, 65, 88, 95, 82, 69, 81, 83]"

definition FCGI_MPXS_CONNS :: bytes where
  "FCGI_MPXS_CONNS = [70, 67, 71, 73, 95, 77, 80, 88, 83, 95, 67, 79, 78, 78, 83]"

abbreviation (input) kHeaderVersionIndex :: nat where "kHeaderVersionIndex \<equiv> 0"
abbreviation (input) kHeaderTypeIndex :: nat where "kHeaderTypeIndex \<equiv> 1"
abbreviation (input) kHeaderRequestIDB1Index :: nat where "kHeaderRequestIDB1Index \<equiv> 2"
abbreviation (input) kHeaderRequestIDB0Index :: nat where "kHeaderRequestIDB0Index \<equiv> 3"
abbreviation (input) kHeaderContentLengthB1Index :: nat where "kHeaderContentLengthB1Index \<equiv> 4"
abbreviation (input) kHeaderContentLengthB0Index :: nat where "kHeaderContentLengthB0Index \<equiv> 5"
abbreviation (input) kHeaderPaddingLengthIndex :: nat where "kHeaderPaddingLengthIndex \<equiv> 6"
abbreviation (input) kHeaderReservedByteIndex :: nat where "kHeaderReservedByteIndex \<equiv> 7"
abbreviation (input) kBeginRequestRoleB1Index :: nat where "kBeginRequestRoleB1Index \<equiv> 0"
abbreviation (input) kBeginRequestRoleB0Index :: nat where "kBeginRequestRoleB0Index \<equiv> 1"
abbreviation (input) kBeginRequestFlagsIndex :: nat where "kBeginRequestFlagsIndex \<equiv> 2"

abbreviation (input) kNameValuePairSingleByteLength :: nat where
  "kNameValuePairSingleByteLength \<equiv> 127"
abbreviation (input) kNameValuePairFourByteLength :: nat where
  "kNameValuePairFourByteLength \<equiv> 2147483647"
abbreviation (input) kMaxRecordContentByteLength :: nat where
  "kMaxRecordContentByteLength \<equiv> 65535"

text \<open>
  \<open>FcgiType\<close> is an enumeration over \<open>std::uint8_t\<close> that the code also uses for type bytes
  outside its enumerators (it casts the type byte of any received header), so it is the byte.
\<close>

type_synonym FcgiType = byte

abbreviation (input) kFCGI_BEGIN_REQUEST :: FcgiType where "kFCGI_BEGIN_REQUEST \<equiv> 1"
abbreviation (input) kFCGI_ABORT_REQUEST :: FcgiType where "kFCGI_ABORT_REQUEST \<equiv> 2"
abbreviation (input) kFCGI_END_REQUEST :: FcgiType where "kFCGI_END_REQUEST \<equiv> 3"
abbreviation (input) kFCGI_PARAMS :: FcgiType where "kFCGI_PARAMS \<equiv> 4"
abbreviation (input) kFCGI_STDIN :: FcgiType where "kFCGI_STDIN \<equiv> 5"
abbreviation (input) kFCGI_STDOUT :: FcgiType where "kFCGI_STDOUT \<equiv> 6"
abbreviation (input) kFCGI_STDERR :: FcgiType where "kFCGI_STDERR \<equiv> 7"
abbreviation (input) kFCGI_DATA :: FcgiType where "kFCGI_DATA \<equiv> 8"
abbreviation (input) kFCGI_GET_VALUES :: FcgiType where "kFCGI_GET_VALUES \<equiv> 9"
abbreviation (input) kFCGI_GET_VALUES_RESULT :: FcgiType where "kFCGI_GET_VALUES_RESULT \<equiv> 10"
abbreviation (input) kFCGI_UNKNOWN_TYPE :: FcgiType where "kFCGI_UNKNOWN_TYPE \<equiv> 11"

section \<open>Request identifiers\<close>

text \<open>
  The pair of a connection descriptor and a FastCGI request number, with the lexicographic
  order of \<open>std::pair\<close>, by which \<open>request_map_\<close> groups the requests of a connection.
\<close>

datatype FcgiRequestIdentifier =
  FcgiRequestIdentifier (descriptor: fd) (Fcgi_id: u16)

definition null_request_identifier :: FcgiRequestIdentifier where
  "null_request_identifier = FcgiRequestIdentifier 0 0"

definition request_identifier_bool :: "FcgiRequestIdentifier \<Rightarrow> bool" where
  "request_identifier_bool r \<longleftrightarrow> descriptor r \<noteq> 0 \<or> Fcgi_id r \<noteq> 0"

text \<open>\<open>operator<\<close> and \<open>operator<=\<close>: the order of \<open>std::pair\<close>.\<close>

definition request_identifier_less :: "FcgiRequestIdentifier \<Rightarrow> FcgiRequestIdentifier \<Rightarrow> bool" where
  "request_identifier_less a b \<longleftrightarrow>
     descriptor a < descriptor b \<or> (\<not> descriptor b < descriptor a \<and> Fcgi_id a < Fcgi_id b)"

definition request_identifier_less_eq :: "FcgiRequestIdentifier \<Rightarrow> FcgiRequestIdentifier \<Rightarrow> bool" where
  "request_identifier_less_eq a b \<longleftrightarrow> \<not> request_identifier_less b a"

instantiation FcgiRequestIdentifier :: linorder
begin

definition less_FcgiRequestIdentifier :: "FcgiRequestIdentifier \<Rightarrow> FcgiRequestIdentifier \<Rightarrow> bool" where
  "less_FcgiRequestIdentifier = request_identifier_less"

definition less_eq_FcgiRequestIdentifier :: "FcgiRequestIdentifier \<Rightarrow> FcgiRequestIdentifier \<Rightarrow> bool" where
  "less_eq_FcgiRequestIdentifier = request_identifier_less_eq"

instance
proof
  fix a b c :: FcgiRequestIdentifier
  show "(a < b) = (a \<le> b \<and> \<not> b \<le> a)" and "a \<le> a" and "a \<le> b \<or> b \<le> a"
    by (auto simp: less_FcgiRequestIdentifier_def less_eq_FcgiRequestIdentifier_def
          request_identifier_less_def request_identifier_less_eq_def)
  show "a \<le> b \<Longrightarrow> b \<le> c \<Longrightarrow> a \<le> c" and "a \<le> b \<Longrightarrow> b \<le> a \<Longrightarrow> a = b"
    by (auto simp: less_FcgiRequestIdentifier_def less_eq_FcgiRequestIdentifier_def
          request_identifier_less_def request_identifier_less_eq_def
          intro: FcgiRequestIdentifier.expand)
qed

end

lemma less_request_identifier [simp]:
  "FcgiRequestIdentifier d i < FcgiRequestIdentifier d' i' \<longleftrightarrow> d < d' \<or> d = d' \<and> i < i'"
  by (auto simp: less_FcgiRequestIdentifier_def request_identifier_less_def)

lemma less_eq_request_identifier [simp]:
  "FcgiRequestIdentifier d i \<le> FcgiRequestIdentifier d' i' \<longleftrightarrow> d < d' \<or> d = d' \<and> i \<le> i'"
  by (auto simp: less_eq_FcgiRequestIdentifier_def request_identifier_less_eq_def
        request_identifier_less_def)

text \<open>
  The entry found by \<open>lower_bound({c, 0})\<close> and the entries after it up to the first larger
  descriptor are exactly the requests of connection \<open>c\<close>.
\<close>

lemma below_connection_iff: "r < FcgiRequestIdentifier c 0 \<longleftrightarrow> descriptor r < c"
  by (cases r) auto

lemma request_identifier_bool_iff: "request_identifier_bool r \<longleftrightarrow> r \<noteq> null_request_identifier"
  by (cases r) (auto simp: request_identifier_bool_def null_request_identifier_def)

end
