(* ===== verification/Fcgi_Utilities.thy ===== *)
theory Fcgi_Utilities
  imports Fcgi_Protocol
begin

text \<open>
  The encoders and decoders of \<open>fcgi/src/fcgi_utilities.cc\<close> and
  \<open>fcgi/include/fcgi_utilities_templates.h\<close>: the four byte lengths and the name-value pairs of
  the FastCGI name-value pair format, record headers, and decimal numbers.
\<close>

section \<open>Four byte lengths\<close>

text \<open>
  \<open>length >> k\<close> on \<open>std::int_fast32_t\<close> is \<^term>\<open>drop_bit k\<close> on \<^typ>\<open>int\<close>; storing the result
  in a byte keeps its low eight bits, as \<^term>\<open>word_of_int\<close> does.
\<close>

definition EncodeFourByteLength :: "int \<Rightarrow> exn + bytes" where
  "EncodeFourByteLength len =
     (if len < 128 then Inl InvalidArgument
      else Inr ((word_of_int (drop_bit 24 len) OR 0x80)
                # map (\<lambda>i. word_of_int (drop_bit (16 - 8 * i) len)) [0, 1, 2]))"

definition ExtractFourByteLength :: "bytes \<Rightarrow> int" where
  "ExtractFourByteLength byte_iter =
     foldl (\<lambda>len i. push_bit 8 len + uint (byte_iter ! i)) (uint (byte_iter ! 0 AND 0x7f)) [1, 2, 3]"

section \<open>Name-value pairs\<close>

text \<open>
  One turn of the inner loop that extracts the two lengths: \<open>ptr\<close> is the content from
  \<open>content_ptr\<close> on. \<open>None\<close> stands for \<open>return error_result\<close>.
\<close>

definition ExtractLength :: "nat \<Rightarrow> nat \<Rightarrow> bytes \<Rightarrow> (int \<times> nat \<times> bytes) option" where
  "ExtractLength bytes_processed content_length ptr =
     (if bytes_processed + 1 > content_length then None
      else if ptr ! 0 AND 0x80 \<noteq> 0
      then if bytes_processed + 4 > content_length then None
           else Some (ExtractFourByteLength ptr, bytes_processed + 4, drop 4 ptr)
      else Some (uint (ptr ! 0), bytes_processed + 1, drop 1 ptr))"

lemma ExtractLength_progress:
  "ExtractLength bp cl ptr = Some (n, bp', ptr') \<Longrightarrow> bp < bp' \<and> bp' \<le> cl"
  by (auto simp: ExtractLength_def split: if_splits)

function ExtractLoop :: "nat \<Rightarrow> nat \<Rightarrow> bytes \<Rightarrow> (bytes \<times> bytes) list \<Rightarrow> (bytes \<times> bytes) list" where
  "ExtractLoop bytes_processed content_length ptr result =
     (if bytes_processed < content_length
      then case ExtractLength bytes_processed content_length ptr of
          None \<Rightarrow> []
        | Some (name_length, bp1, ptr1) \<Rightarrow>
            (case ExtractLength bp1 content_length ptr1 of
                None \<Rightarrow> []
              | Some (value_length, bp2, ptr2) \<Rightarrow>
                  let length_with_nv = bp2 + nat name_length + nat value_length
                  in if length_with_nv > content_length then []
                     else let past_name = drop (nat name_length) ptr2
                          in ExtractLoop length_with_nv content_length
                               (drop (nat value_length) past_name)
                               (result @ [(take (nat name_length) ptr2,
                                           take (nat value_length) past_name)]))
      else result)"
  by pat_completeness auto
termination
  by (relation "measure (\<lambda>(bp, cl, ptr, result). cl - bp)")
     (auto dest!: ExtractLength_progress)

declare ExtractLoop.simps [simp del]

text \<open>A null pointer is \<open>None\<close>; otherwise the pointer is the sequence it points to.\<close>

definition ExtractBinaryNameValuePairs ::
    "bytes option \<Rightarrow> nat \<Rightarrow> exn + (bytes \<times> bytes) list" where
  "ExtractBinaryNameValuePairs content_ptr content_length =
     (if content_length \<noteq> 0 \<and> content_ptr = None then Inl InvalidArgument
      else Inr (ExtractLoop 0 content_length
                  (case content_ptr of None \<Rightarrow> [] | Some bs \<Rightarrow> bs) []))"

section \<open>Headers\<close>

text \<open>The eight bytes that \<open>PopulateHeader\<close> stores from \<open>byte_ptr\<close> on.\<close>

definition PopulateHeader :: "FcgiType \<Rightarrow> u16 \<Rightarrow> u16 \<Rightarrow> byte \<Rightarrow> bytes" where
  "PopulateHeader type fcgi_id content_length padding_length =
     [FCGI_VERSION_1, type, hi8 fcgi_id, lo8 fcgi_id, hi8 content_length, lo8 content_length,
      padding_length, 0]"

text \<open>
  \<open>PopulateBeginRequestRecord\<close> fills the header and the first three bytes of the body; the
  rest of the buffer is not written.
\<close>

definition PopulateBeginRequestRecord :: "bytes \<Rightarrow> u16 \<Rightarrow> u16 \<Rightarrow> bool \<Rightarrow> bytes" where
  "PopulateBeginRequestRecord buffer fcgi_id role keep_conn =
     overwrite buffer 0
       (PopulateHeader kFCGI_BEGIN_REQUEST fcgi_id (of_nat FCGI_HEADER_LEN) 0 @
        [hi8 role, lo8 role, if keep_conn then 1 else 0])"

lemma length_PopulateHeader [simp]: "length (PopulateHeader t i n p) = 8"
  by (simp add: PopulateHeader_def)

section \<open>Decimal numbers\<close>

text \<open>\<open>std::to_string\<close> of a non-negative number, as the code points of its digits.\<close>

fun decimal_digits :: "nat \<Rightarrow> bytes" where
  "decimal_digits n =
     (if n < 10 then [of_nat (48 + n)] else decimal_digits (n div 10) @ [of_nat (48 + n mod 10)])"

declare decimal_digits.simps [simp del]

definition ToUnsignedCharacterVector :: "int \<Rightarrow> exn + bytes" where
  "ToUnsignedCharacterVector c =
     (if c < 0 then Inl InvalidArgument else Inr (decimal_digits (nat c)))"


section \<open>The name-value pair format\<close>

text \<open>
  The specification, independent of the decoder: a length below 128 is one byte, a length below
  \<open>2^31\<close> is four bytes with the leading bit set, and a stream of pairs is, pair by pair, the two
  lengths followed by the name and the value.
\<close>

inductive len_enc :: "nat \<Rightarrow> bytes \<Rightarrow> bool" where
  len_short: "uint a < 128 \<Longrightarrow> len_enc (unat a) [a]"
| len_long: "128 \<le> uint a \<Longrightarrow>
    len_enc ((unat a - 128) * 2 ^ 24 + unat b * 2 ^ 16 + unat c * 2 ^ 8 + unat d) [a, b, c, d]"

inductive nv_stream :: "bytes \<Rightarrow> (bytes \<times> bytes) list \<Rightarrow> bool" where
  nv_Nil: "nv_stream [] []"
| nv_Cons: "len_enc (length n) en \<Longrightarrow> len_enc (length v) ev \<Longrightarrow> nv_stream bs ps \<Longrightarrow>
    nv_stream (en @ ev @ n @ v @ bs) ((n, v) # ps)"

inductive_cases nv_stream_ConsE: "nv_stream bs (p # ps)"
inductive_simps nv_stream_Nil_simps: "nv_stream [] ps"
inductive_simps len_enc_simps: "len_enc n e"

fun parse_len :: "bytes \<Rightarrow> (nat \<times> bytes) option" where
  "parse_len [] = None"
| "parse_len (a # r) =
     (if uint a < 128 then Some (unat a, r)
      else case r of
          b # c # d # r' \<Rightarrow>
            Some ((unat a - 128) * 2 ^ 24 + unat b * 2 ^ 16 + unat c * 2 ^ 8 + unat d, r')
        | _ \<Rightarrow> None)"

lemma parse_len_iff: "parse_len bs = Some (n, r) \<longleftrightarrow> (\<exists>e. bs = e @ r \<and> len_enc n e)"
proof
  show "parse_len bs = Some (n, r) \<Longrightarrow> \<exists>e. bs = e @ r \<and> len_enc n e"
  proof (cases bs)
    case (Cons a t)
    assume p: "parse_len bs = Some (n, r)"
    show ?thesis
    proof (cases "uint a < 128")
      case True
      then show ?thesis using p Cons by (intro exI [of _ "[a]"]) (auto intro: len_short)
    next
      case False
      then obtain b c d where "t = b # c # d # r"
          and "n = (unat a - 128) * 2 ^ 24 + unat b * 2 ^ 16 + unat c * 2 ^ 8 + unat d"
        using p Cons by (auto split: list.splits)
      then show ?thesis using False Cons
        by (intro exI [of _ "[a, b, c, d]"]) (simp add: len_long del: power_numeral)
    qed
  qed simp
  show "\<exists>e. bs = e @ r \<and> len_enc n e \<Longrightarrow> parse_len bs = Some (n, r)"
    by (auto elim!: len_enc.cases)
qed

lemma parse_len_shorter: "parse_len bs = Some (n, r) \<Longrightarrow> length r < length bs"
  by (auto simp: parse_len_iff elim: len_enc.cases)

text \<open>The decoder's arithmetic computes the specified number.\<close>

lemma ExtractFourByteLength_value:
  "128 \<le> uint a \<Longrightarrow> ExtractFourByteLength (a # b # c # d # r) =
     int ((unat a - 128) * 2 ^ 24 + unat b * 2 ^ 16 + unat c * 2 ^ 8 + unat d)"
proof -
  assume a: "128 \<le> uint a"
  have "uint a mod 128 = uint a - 128"
    using a byte_uint_less [of a] by presburger
  moreover have "128 \<le> unat a" using a by (simp add: uint_nat del: of_nat_unat)
  ultimately have m: "int (unat (a AND 0x7f)) = int (unat a) - 128" and le: "128 \<le> unat a"
    using byte_and_7f [of a] by (simp_all add: uint_nat del: of_nat_unat)
  show ?thesis
    using m le by (simp add: ExtractFourByteLength_def push_bit_eq_mult uint_nat of_nat_diff
          algebra_simps del: of_nat_unat)
qed

lemma ExtractLength_parse_len:
  assumes "bp + length p = cl"
  shows "ExtractLength bp cl (p @ extra) =
     map_option (\<lambda>(n, r). (int n, cl - length r, r @ extra)) (parse_len p)"
proof (cases p)
  case Nil
  then show ?thesis using assms by (simp add: ExtractLength_def)
next
  case (Cons a t)
  show ?thesis
  proof (cases "uint a < 128")
    case True
    then show ?thesis using assms Cons
      by (auto simp: ExtractLength_def byte_and_80)
  next
    case False
    show ?thesis
    proof (cases "length t < 3")
      case True
      then show ?thesis using assms Cons False
        by (auto simp: ExtractLength_def byte_and_80 split: list.splits)
    next
      case long: False
      then obtain b c d r where t: "t = b # c # d # r"
        by (metis One_nat_def Suc_less_eq length_Cons less_numeral_extra(3) list.exhaust
              list.size(3) numeral_3_eq_3 zero_less_Suc numeral_2_eq_2 less_Suc_eq_0_disj)
      have "cl - length r = bp + 4" using assms Cons t by simp
      then show ?thesis using assms Cons t False
        by (simp add: ExtractLength_def byte_and_80 ExtractFourByteLength_value)
    qed
  qed
qed

definition parse_pair :: "bytes \<Rightarrow> (bytes \<times> bytes \<times> bytes) option" where
  "parse_pair bs = (case parse_len bs of None \<Rightarrow> None
     | Some (nl, r1) \<Rightarrow> (case parse_len r1 of None \<Rightarrow> None
         | Some (vl, r2) \<Rightarrow>
             if nl + vl \<le> length r2
             then Some (take nl r2, take vl (drop nl r2), drop (nl + vl) r2) else None))"

lemma parse_pair_iff:
  "parse_pair bs = Some (n, v, r) \<longleftrightarrow>
     (\<exists>en ev. bs = en @ ev @ n @ v @ r \<and> len_enc (length n) en \<and> len_enc (length v) ev)"
proof
  assume "parse_pair bs = Some (n, v, r)"
  then obtain nl r1 vl r2 where l: "parse_len bs = Some (nl, r1)" "parse_len r1 = Some (vl, r2)"
      and le: "nl + vl \<le> length r2"
      and n: "n = take nl r2" "v = take vl (drop nl r2)" "r = drop (nl + vl) r2"
    by (auto simp: parse_pair_def split: option.splits if_splits)
  have "r2 = n @ v @ r" unfolding n by (metis add.commute append_take_drop_id drop_drop)
  then show "\<exists>en ev. bs = en @ ev @ n @ v @ r \<and> len_enc (length n) en \<and> len_enc (length v) ev"
    using l le n(1,2) by (auto simp: parse_len_iff)
next
  assume "\<exists>en ev. bs = en @ ev @ n @ v @ r \<and> len_enc (length n) en \<and> len_enc (length v) ev"
  then obtain en ev where e: "bs = en @ ev @ n @ v @ r"
      "len_enc (length n) en" "len_enc (length v) ev" by blast
  then have "parse_len bs = Some (length n, ev @ n @ v @ r)"
      and "parse_len (ev @ n @ v @ r) = Some (length v, n @ v @ r)"
    by (auto simp only: parse_len_iff)
  then show "parse_pair bs = Some (n, v, r)" by (simp add: parse_pair_def)
qed

lemma parse_pair_shorter: "parse_pair bs = Some (n, v, r) \<Longrightarrow> length r < length bs"
  by (auto simp: parse_pair_iff elim!: len_enc.cases)

lemma ExtractLoop_step:
  assumes "bp + length p = cl"
  shows "ExtractLoop bp cl (p @ extra) acc =
     (if p = [] then acc
      else case parse_pair p of None \<Rightarrow> []
         | Some (n, v, r) \<Rightarrow> ExtractLoop (cl - length r) cl (r @ extra) (acc @ [(n, v)]))"
proof (cases "parse_len p")
  case None
  moreover have "p \<noteq> [] \<Longrightarrow> bp < cl" using assms by (cases p) auto
  ultimately show ?thesis using assms
    by (subst ExtractLoop.simps) (cases "p = []"; simp add: ExtractLength_parse_len parse_pair_def)
next
  case (Some nr)
  then obtain nl r1 where l1: "parse_len p = Some (nl, r1)" by (cases nr) auto
  have s1: "length r1 < length p" by (rule parse_len_shorter [OF l1])
  then have "p \<noteq> []" by auto
  note s1 = s1 this
  have e1: "cl - length r1 + length r1 = cl" using s1 assms by simp
  show ?thesis
  proof (cases "parse_len r1")
    case None
    then show ?thesis using assms l1 e1 s1
      by (subst ExtractLoop.simps) (simp add: ExtractLength_parse_len parse_pair_def)
  next
    case (Some vr)
    then obtain vl r2 where l2: "parse_len r1 = Some (vl, r2)" by (cases vr) auto
    have s2: "length r2 < length r1" by (rule parse_len_shorter [OF l2])
    show ?thesis using assms l1 l2 e1 s1 s2
      by (subst ExtractLoop.simps)
         (auto simp: ExtractLength_parse_len parse_pair_def Let_def ac_simps)
  qed
qed

lemma ExtractLoop_stream:
  "nv_stream p ps \<Longrightarrow> bp + length p = cl \<Longrightarrow> ExtractLoop bp cl (p @ extra) acc = acc @ ps"
proof (induction p ps arbitrary: bp acc rule: nv_stream.induct)
  case nv_Nil
  then show ?case by (simp add: ExtractLoop_step [of _ "[]", simplified])
next
  case (nv_Cons n en v ev bs ps)
  let ?p = "en @ ev @ n @ v @ bs"
  have pp: "parse_pair ?p = Some (n, v, bs)" using nv_Cons.hyps by (auto simp: parse_pair_iff)
  have "?p \<noteq> []" using nv_Cons.hyps(1) by (auto elim: len_enc.cases)
  moreover have "cl - length bs + length bs = cl" using nv_Cons.prems by simp
  ultimately show ?case
    using nv_Cons.IH [of "cl - length bs" "acc @ [(n, v)]"]
    by (simp only: ExtractLoop_step [OF nv_Cons.prems] pp) simp
qed

lemma ExtractLoop_malformed:
  "(\<nexists>ps. nv_stream p ps) \<Longrightarrow> bp + length p = cl \<Longrightarrow> ExtractLoop bp cl (p @ extra) acc = []"
proof (induction "length p" arbitrary: p bp acc rule: less_induct)
  case less
  show ?case
  proof (cases "parse_pair p")
    case None
    then show ?thesis using less.prems
      by (simp add: ExtractLoop_step) (metis nv_Nil)
  next
    case (Some t)
    then obtain n v r where t: "parse_pair p = Some (n, v, r)" by (cases t) auto
    have no: "\<nexists>ps. nv_stream r ps"
      using t less.prems(1) by (auto simp: parse_pair_iff intro: nv_stream.intros)
    moreover have "length r < length p" by (rule parse_pair_shorter [OF t])
    moreover have "p \<noteq> []" using calculation(2) by auto
    ultimately show ?thesis
      using less.hyps [of r "cl - length r" "acc @ [(n, v)]"] less.prems(2)
      by (simp only: ExtractLoop_step [OF less.prems(2)] t) simp
  qed
qed

lemma nv_stream_unique: "nv_stream p ps \<Longrightarrow> nv_stream p qs \<Longrightarrow> ps = qs"
  by (metis ExtractLoop_stream add_0 append_Nil)


text \<open>
  C20. \<open>ExtractBinaryNameValuePairs\<close> accepts exactly the well-formed streams of name-value pairs,
  and returns their pairs in order; for any other content, however it is malformed, it returns
  the empty list. It looks at no byte beyond \<open>content_length\<close>, whatever follows the content in
  memory, and its loop ends on every input.
\<close>

theorem ExtractBinaryNameValuePairs_correct:
  "ExtractBinaryNameValuePairs (Some (content @ beyond)) (length content) = Inr ps \<longleftrightarrow>
     nv_stream content ps \<or> (ps = [] \<and> (\<nexists>qs. nv_stream content qs))"
proof (cases "\<exists>qs. nv_stream content qs")
  case True
  then obtain qs where q: "nv_stream content qs" ..
  then have "ExtractBinaryNameValuePairs (Some (content @ beyond)) (length content) = Inr qs"
    by (simp add: ExtractBinaryNameValuePairs_def ExtractLoop_stream)
  then show ?thesis using q by (auto dest: nv_stream_unique)
next
  case False
  then show ?thesis
    by (auto simp: ExtractBinaryNameValuePairs_def ExtractLoop_malformed)
qed

lemma EncodeFourByteLength_len_enc:
  assumes "128 \<le> n" and "n < 2 ^ 31"
  shows "\<exists>bs. EncodeFourByteLength n = Inr bs \<and> len_enc (nat n) bs"
proof -
  define a b c d :: byte where "a = word_of_int (drop_bit 24 n) OR 0x80"
    and "b = word_of_int (drop_bit 16 n)" and "c = word_of_int (drop_bit 8 n)"
    and "d = word_of_int n"
  have ua: "uint a = n div 2 ^ 24 + 128"
    unfolding a_def using assms by (subst byte_or_80) (simp_all add: drop_bit_eq_div)
  have ub: "uint b = n div 2 ^ 16 mod 256" and uc: "uint c = n div 2 ^ 8 mod 256"
      and ud: "uint d = n mod 256"
    by (simp_all add: b_def c_def d_def unsigned_of_int take_bit_eq_mod drop_bit_eq_div)
  have "n = 256 * (n div 2 ^ 8) + uint d" by (simp add: ud)
  moreover have "n div 2 ^ 8 = 256 * (n div 2 ^ 16) + uint c"
    using mult_div_mod_eq [of 256 "n div 2 ^ 8"] by (simp add: uc flip: zdiv_zmult2_eq)
  moreover have "n div 2 ^ 16 = 256 * (n div 2 ^ 24) + uint b"
    using mult_div_mod_eq [of 256 "n div 2 ^ 16"] by (simp add: ub flip: zdiv_zmult2_eq)
  ultimately have n: "n = (uint a - 128) * 2 ^ 24 + uint b * 2 ^ 16 + uint c * 2 ^ 8 + uint d"
    unfolding ua by (simp add: algebra_simps)
  have a: "128 \<le> uint a" unfolding ua using assms by simp
  with n
  have "nat n = (unat a - 128) * 2 ^ 24 + unat b * 2 ^ 16 + unat c * 2 ^ 8 + unat d"
    by (simp add: uint_nat nat_add_distrib nat_mult_distrib nat_diff_distrib del: of_nat_unat)
  note this a
  then have "len_enc (nat n) [a, b, c, d]" by (metis len_long)
  then show ?thesis using assms
    by (simp add: EncodeFourByteLength_def a_def b_def c_def d_def)
qed

text \<open>
  C27. The four byte lengths: encoding a length from 128 to \<open>2^31 - 1\<close> and decoding the four bytes
  gives the length back, whatever follows them; the first byte has its leading bit set, so the
  decoder recognises the form; and a smaller length is refused with \<open>invalid_argument\<close>.
\<close>

theorem EncodeFourByteLength_roundtrip:
  "if 128 \<le> n \<and> n < 2 ^ 31
   then \<exists>bs. EncodeFourByteLength n = Inr bs \<and> length bs = 4 \<and> bs ! 0 AND 0x80 \<noteq> 0
     \<and> ExtractFourByteLength (bs @ rest) = n
   else n < 128 \<longleftrightarrow> EncodeFourByteLength n = Inl InvalidArgument"
proof (cases "128 \<le> n \<and> n < 2 ^ 31")
  case True
  then obtain bs where e: "EncodeFourByteLength n = Inr bs" and l: "len_enc (nat n) bs"
    using EncodeFourByteLength_len_enc by blast
  have "length bs = 4" using e by (auto simp: EncodeFourByteLength_def split: if_splits)
  then obtain a b c d where bs: "bs = [a, b, c, d]" and "128 \<le> uint a"
      and "nat n = (unat a - 128) * 2 ^ 24 + unat b * 2 ^ 16 + unat c * 2 ^ 8 + unat d"
    using l by (auto elim: len_enc.cases)
  moreover from this have "ExtractFourByteLength (bs @ rest) = int (nat n)"
    by (simp only: append_Cons append_Nil ExtractFourByteLength_value)
  ultimately show ?thesis using True e
    by (simp add: byte_and_80 del: of_nat_add of_nat_mult) (metis int_nat_eq nat_0_le order_trans zero_le_numeral)?
next
  case False
  then show ?thesis by (auto simp: EncodeFourByteLength_def)
qed


definition decimal_value :: "bytes \<Rightarrow> nat" where
  "decimal_value = foldl (\<lambda>v d. 10 * v + (unat d - 48)) 0"

definition is_digit :: "byte \<Rightarrow> bool" where
  "is_digit d \<longleftrightarrow> 48 \<le> unat d \<and> unat d \<le> 57"

lemma unat_digit: "n < 10 \<Longrightarrow> unat (of_nat (48 + n) :: byte) = 48 + n"
  by (simp add: unsigned_of_nat take_bit_eq_mod del: of_nat_add)

lemma decimal_digits_correct:
  "decimal_value (decimal_digits n) = n \<and> list_all is_digit (decimal_digits n)
   \<and> decimal_digits n \<noteq> [] \<and> (hd (decimal_digits n) = 48 \<longrightarrow> n = 0)"
proof (induction n rule: decimal_digits.induct)
  case (1 n)
  show ?case
  proof (cases "n < 10")
    case True
    have "(of_nat (48 + n) :: byte) = 48 \<Longrightarrow> n = 0"
      using unat_digit [OF True] by simp
    then show ?thesis using True unat_digit [OF True]
      by (simp add: decimal_digits.simps [of n] decimal_value_def is_digit_def del: of_nat_add)
  next
    case False
    then have "decimal_digits n = decimal_digits (n div 10) @ [of_nat (48 + n mod 10)]"
      and "n div 10 \<noteq> 0"
      by (simp_all add: decimal_digits.simps [of n])
    then show ?thesis using 1 [OF False] unat_digit [of "n mod 10"]
      by (simp add: decimal_value_def is_digit_def del: of_nat_add)
  qed
qed

text \<open>
  C28. \<open>ToUnsignedCharacterVector\<close> of a number that is not negative is a non-empty sequence of
  ASCII digits without superfluous leading zero whose decimal value is the number; a negative
  number is refused with \<open>invalid_argument\<close>.
\<close>

theorem ToUnsignedCharacterVector_correct:
  "case ToUnsignedCharacterVector c of
     Inl e \<Rightarrow> e = InvalidArgument \<and> c < 0
   | Inr ds \<Rightarrow> int (decimal_value ds) = c \<and> list_all is_digit ds \<and> ds \<noteq> []
       \<and> (hd ds = 48 \<longleftrightarrow> ds = [48])"
proof (cases "c < 0")
  case False
  have "hd (decimal_digits n) = 48 \<longleftrightarrow> decimal_digits n = [48]" for n
    using decimal_digits_correct [of n] by (auto simp: decimal_digits.simps [of 0])
  then show ?thesis using False decimal_digits_correct [of "nat c"]
    by (simp add: ToUnsignedCharacterVector_def)
qed (simp add: ToUnsignedCharacterVector_def)

end
