(* ===== verification/Partition.thy ===== *)
theory Partition
  imports Fcgi_Utilities
begin

text \<open>
  \<open>PartitionByteSequence\<close> of \<open>fcgi/include/fcgi_utilities_templates.h\<close> with its internal
  constants and size estimates: cutting a byte sequence into FastCGI records that are described
  by a list of \<open>struct iovec\<close> for scatter-gather output. The sizes are those of a 64 bit
  platform; \<open>iovec_MAX\<close>, the answer of \<open>sysconf(_SC_IOV_MAX)\<close>, is a parameter.
\<close>

section \<open>Size limits\<close>

abbreviation (input) max_aligned_content_length :: nat where
  "max_aligned_content_length \<equiv> 65528"

abbreviation (input) ssize_t_MAX :: nat where "ssize_t_MAX \<equiv> 9223372036854775807"
abbreviation (input) size_t_MAX :: nat where "size_t_MAX \<equiv> 18446744073709551615"
abbreviation (input) int_MAX :: nat where "int_MAX \<equiv> 2147483647"

definition CeilingOfQuotient :: "nat \<Rightarrow> nat \<Rightarrow> nat" where
  "CeilingOfQuotient numerator denominator =
     numerator div denominator + of_bool (numerator mod denominator > 0)"

definition InitializeMaxForSsize_t :: nat where
  "InitializeMaxForSsize_t =
     (let inter_1 = 8 * (ssize_t_MAX div 8);
          inter_2 = CeilingOfQuotient inter_1 max_aligned_content_length
      in inter_1 - 8 * inter_2)"

definition iov_limit :: "int \<Rightarrow> nat" where
  "iov_limit iovec_MAX = min (if iovec_MAX > 0 then nat iovec_MAX else 1024) int_MAX"

definition InitializeMaxForIovec :: "int \<Rightarrow> nat" where
  "InitializeMaxForIovec iovec_MAX =
     (let i_max = iov_limit iovec_MAX;
          i_inter = (i_max - 1) div 2
      in if i_inter > size_t_MAX div max_aligned_content_length then size_t_MAX
         else i_inter * max_aligned_content_length)"

definition NeededIovec :: "nat \<Rightarrow> nat" where
  "NeededIovec m =
     2 * CeilingOfQuotient m max_aligned_content_length + of_bool (m mod 8 > 0)"

definition NeededSsize_t :: "nat \<Rightarrow> nat" where
  "NeededSsize_t m =
     m + 8 * CeilingOfQuotient m max_aligned_content_length + (8 - m mod 8) mod 8"

definition NeededLocalData :: "nat \<Rightarrow> nat" where
  "NeededLocalData m = 8 * (1 + CeilingOfQuotient m max_aligned_content_length)"

definition min_max :: "int \<Rightarrow> nat" where
  "min_max iovec_MAX = min InitializeMaxForSsize_t (InitializeMaxForIovec iovec_MAX)"

section \<open>The partition\<close>

text \<open>
  A \<open>struct iovec\<close> points into the vector of headers and padding that the call returns
  (\<open>Local\<close>, at an offset) or into the caller's content (\<open>Content\<close>, at an iterator position).
\<close>

datatype iov_base = Local nat | Content nat

type_synonym iovec = "iov_base \<times> nat"

text \<open>The loop: \<open>loc\<close> is \<open>noncontent_record_information\<close>, the iterators are positions.\<close>

function PartitionLoop ::
  "FcgiType \<Rightarrow> u16 \<Rightarrow> nat \<Rightarrow> nat \<Rightarrow> bytes \<Rightarrow> iovec list \<Rightarrow> nat \<Rightarrow> bytes \<times> iovec list \<times> nat \<times> nat"
where
  "PartitionLoop type fid bytes_remaining begin_iter loc iovec_list number_to_write =
     (if bytes_remaining \<noteq> 0
      then let current_record_content_length = min bytes_remaining max_aligned_content_length;
               padding_length_complement = current_record_content_length mod 8;
               padding_length =
                 (if padding_length_complement \<noteq> 0 then 8 - padding_length_complement else 0);
               local_ptr = length loc;
               loc' = overwrite (loc @ replicate FCGI_HEADER_LEN 0) local_ptr
                 (PopulateHeader type fid (of_nat current_record_content_length)
                    (of_nat padding_length));
               iovec_list' = iovec_list
                 @ [(Local local_ptr, FCGI_HEADER_LEN),
                    (Content begin_iter, current_record_content_length)]
                 @ (if padding_length \<noteq> 0 then [(Local 0, padding_length)] else [])
           in PartitionLoop type fid (bytes_remaining - current_record_content_length)
                (begin_iter + current_record_content_length) loc' iovec_list'
                (number_to_write + FCGI_HEADER_LEN + current_record_content_length
                   + padding_length)
      else (loc, iovec_list, number_to_write, begin_iter))"
  by pat_completeness auto
termination
  by (relation "measure (\<lambda>(t, i, rem, rest). rem)") auto

declare PartitionLoop.simps [simp del]

definition PartitionByteSequence ::
  "int \<Rightarrow> nat \<Rightarrow> nat \<Rightarrow> FcgiType \<Rightarrow> u16 \<Rightarrow> exn + bytes \<times> iovec list \<times> nat \<times> nat"
where
  "PartitionByteSequence iovec_MAX begin_iter end_iter type fid =
     (let s_byte_length = int end_iter - int begin_iter in
      if s_byte_length < 0 then Inl InvalidArgument
      else let
        byte_length = nat s_byte_length;
        mm = min_max iovec_MAX;
        (bytes_remaining, working_ssize_t, working_iovec) =
          (if byte_length < mm then (byte_length, NeededSsize_t byte_length, NeededIovec byte_length)
           else (mm, NeededSsize_t mm, NeededIovec mm));
        local_length = NeededLocalData bytes_remaining;
        loc = replicate FCGI_HEADER_LEN 0
      in if begin_iter = end_iter
         then Inr (overwrite (loc @ replicate FCGI_HEADER_LEN 0) (length loc)
                     (PopulateHeader type fid 0 0),
                   [(Local (length loc), FCGI_HEADER_LEN)], FCGI_HEADER_LEN, begin_iter)
         else case PartitionLoop type fid bytes_remaining begin_iter loc [] 0 of
             (loc', iovec_list, number_to_write, begin') \<Rightarrow>
               if number_to_write > working_ssize_t \<or> length iovec_list > working_iovec
                  \<or> length loc' > local_length
               then Inl LogicError
               else Inr (loc', iovec_list, number_to_write, begin'))"

section \<open>What the result denotes\<close>

text \<open>
  The bytes an \<open>iovec\<close> denotes, and the bytes of a record: header, content, and zero padding up
  to a multiple of eight bytes.
\<close>

definition iov_in_bounds :: "bytes \<Rightarrow> bytes \<Rightarrow> iovec \<Rightarrow> bool" where
  "iov_in_bounds content loc v = (case v of
     (Local i, n) \<Rightarrow> i + n \<le> length loc | (Content i, n) \<Rightarrow> i + n \<le> length content)"

definition iov_bytes :: "bytes \<Rightarrow> bytes \<Rightarrow> iovec \<Rightarrow> bytes" where
  "iov_bytes content loc v = (case v of
     (Local i, n) \<Rightarrow> take n (drop i loc) | (Content i, n) \<Rightarrow> take n (drop i content))"

definition gather :: "bytes \<Rightarrow> bytes \<Rightarrow> iovec list \<Rightarrow> bytes" where
  "gather content loc iovs = concat (map (iov_bytes content loc) iovs)"

definition padding_for :: "nat \<Rightarrow> nat" where
  "padding_for n = (8 - n mod 8) mod 8"

definition record_bytes :: "FcgiType \<Rightarrow> u16 \<Rightarrow> bytes \<Rightarrow> bytes" where
  "record_bytes type fid c =
     PopulateHeader type fid (of_nat (length c)) (of_nat (padding_for (length c)))
     @ c @ replicate (padding_for (length c)) 0"

fun chunks :: "nat \<Rightarrow> 'a list \<Rightarrow> 'a list list" where
  "chunks n xs = (if xs = [] \<or> n = 0 then [] else take n xs # chunks n (drop n xs))"

declare chunks.simps [simp del]

lemma chunks_Nil [simp]: "chunks n [] = []"
  by (simp add: chunks.simps)

lemma concat_chunks: "n \<noteq> 0 \<Longrightarrow> concat (chunks n xs) = xs"
  by (induction n xs rule: chunks.induct) (simp add: chunks.simps)

lemma chunks_bounds: "c \<in> set (chunks n xs) \<Longrightarrow> c \<noteq> [] \<and> length c \<le> n"
  by (induction n xs rule: chunks.induct)
     (subst (asm) (2) chunks.simps, auto split: if_splits)

lemma Ceiling_0 [simp]: "CeilingOfQuotient 0 d = 0"
  by (simp add: CeilingOfQuotient_def)

lemma Ceiling_step:
  assumes "0 < r"
  shows "CeilingOfQuotient r 65528 = 1 + CeilingOfQuotient (r - min r 65528) 65528"
proof (cases "r \<le> 65528")
  case True
  then show ?thesis using assms by (cases "r = 65528") (auto simp: CeilingOfQuotient_def)
next
  case False
  then have "r div 65528 = 1 + (r - 65528) div 65528" "r mod 65528 = (r - 65528) mod 65528"
    by (simp_all add: le_div_geq le_mod_geq)
  then show ?thesis using False by (simp add: CeilingOfQuotient_def)
qed


lemma gather_simps [simp]:
  "gather content loc [] = []"
  "gather content loc (v # vs) = iov_bytes content loc v @ gather content loc vs"
  "gather content loc (vs @ ws) = gather content loc vs @ gather content loc ws"
  by (simp_all add: gather_def)

text \<open>Growing the local vector does not change what the earlier entries denote.\<close>

lemma iov_bytes_grow:
  "iov_in_bounds content loc v \<Longrightarrow>
     iov_bytes content (loc @ more) v = iov_bytes content loc v \<and>
     iov_in_bounds content (loc @ more) v"
  by (cases v) (auto simp: iov_bytes_def iov_in_bounds_def split: iov_base.splits)

lemma gather_grow:
  "list_all (iov_in_bounds content loc) vs \<Longrightarrow>
     gather content (loc @ more) vs = gather content loc vs \<and>
     list_all (iov_in_bounds content (loc @ more)) vs"
  by (induction vs) (auto simp: iov_bytes_grow)

lemma overwrite_at_end:
  "length xs = n \<Longrightarrow> overwrite (loc @ replicate n x) (length loc) xs = loc @ xs"
  by (simp add: overwrite_def)

lemma padding_for_code:
  "(if n mod 8 \<noteq> 0 then 8 - n mod 8 else 0) = padding_for n"
  by (simp add: padding_for_def)

lemma padding_for_zero: "padding_for n = 0 \<longleftrightarrow> n mod 8 = 0"
  by (simp add: padding_for_def) presburger

text \<open>The entries that one turn of the loop appends, and that they denote one record.\<close>

definition record_iovs :: "nat \<Rightarrow> nat \<Rightarrow> nat \<Rightarrow> iovec list" where
  "record_iovs local_ptr off n =
     [(Local local_ptr, FCGI_HEADER_LEN), (Content off, n)]
     @ (if padding_for n \<noteq> 0 then [(Local 0, padding_for n)] else [])"

abbreviation record_header :: "FcgiType \<Rightarrow> u16 \<Rightarrow> nat \<Rightarrow> bytes" where
  "record_header type fid n \<equiv> PopulateHeader type fid (of_nat n) (of_nat (padding_for n))"

lemma PartitionLoop_step:
  "PartitionLoop type fid rem off loc iovs m =
     (if rem = 0 then (loc, iovs, m, off)
      else let n = min rem 65528 in
        PartitionLoop type fid (rem - n) (off + n) (loc @ record_header type fid n)
          (iovs @ record_iovs (length loc) off n) (m + 8 + n + padding_for n))"
  by (subst PartitionLoop.simps)
     (simp add: Let_def overwrite_at_end record_iovs_def flip: padding_for_code)

lemma padding_le: "padding_for n < 8"
  by (simp add: padding_for_def)

lemma gather_record_iovs:
  assumes "take 8 loc = replicate 8 0" and "length c = n" and "off + n \<le> length content"
      and "take n (drop off content) = c"
  shows "gather content (loc @ record_header type fid n) (record_iovs (length loc) off n) =
      record_bytes type fid c"
    and "list_all (iov_in_bounds content (loc @ record_header type fid n))
      (record_iovs (length loc) off n)"
proof -
  have l8: "8 \<le> length loc" using arg_cong [OF assms(1), of length] by simp
  have "take (padding_for n) loc = take (padding_for n) (take 8 loc)"
    using padding_le [of n] by simp
  then have "take (padding_for n) loc = replicate (padding_for n) 0"
    using padding_le [of n] by (simp add: assms(1))
  then show "gather content (loc @ record_header type fid n) (record_iovs (length loc) off n) =
      record_bytes type fid c"
    using assms(2,4) l8 padding_le [of n]
    by (simp add: record_iovs_def iov_bytes_def record_bytes_def)
  show "list_all (iov_in_bounds content (loc @ record_header type fid n))
      (record_iovs (length loc) off n)"
    using assms(3) l8 padding_le [of n]
    by (auto simp: record_iovs_def iov_in_bounds_def)
qed

lemma NeededSsize_t_eq: "NeededSsize_t m = m + 8 * CeilingOfQuotient m 65528 + padding_for m"
  by (simp add: NeededSsize_t_def padding_for_def)

lemma full_record_sizes:
  "65528 < r \<Longrightarrow> padding_for 65528 = 0 \<and> padding_for r = padding_for (r - 65528)
     \<and> (r mod 8 > 0 \<longleftrightarrow> (r - 65528) mod 8 > 0)"
proof -
  assume "65528 < r"
  then have "r = (r - 65528) + 8191 * 8" by simp
  then have "r mod 8 = (r - 65528) mod 8" by (metis mod_mult_self1)
  then show ?thesis by (simp add: padding_for_def)
qed

lemma PartitionLoop_correct:
  assumes "take 8 loc = replicate 8 0" and "off + rem \<le> length content"
      and "list_all (iov_in_bounds content loc) iovs"
  shows "\<exists>hs vs. PartitionLoop type fid rem off loc iovs m
             = (loc @ hs, iovs @ vs, m + NeededSsize_t rem, off + rem)
        \<and> length hs = 8 * CeilingOfQuotient rem 65528
        \<and> length vs = NeededIovec rem
        \<and> list_all (iov_in_bounds content (loc @ hs)) vs
        \<and> gather content (loc @ hs) vs
             = concat (map (record_bytes type fid) (chunks 65528 (take rem (drop off content))))"
  using assms
proof (induction rem arbitrary: off loc iovs m rule: less_induct)
  case (less rem)
  show ?case
  proof (cases "rem = 0")
    case True
    then show ?thesis
      by (simp add: PartitionLoop_step [of _ _ 0] NeededSsize_t_eq NeededIovec_def padding_for_def)
  next
    case False
    define n where "n = min rem 65528"
    define c where "c = take n (drop off content)"
    define loc1 where "loc1 = loc @ record_header type fid n"
    define vs1 where "vs1 = record_iovs (length loc) off n"
    have n: "0 < n" "n \<le> rem" "rem - n < rem" using False by (auto simp: n_def)
    have c: "length c = n" using less.prems(2) n by (simp add: c_def)
    have l8: "8 \<le> length loc" using arg_cong [OF less.prems(1), of length] by simp
    have g1: "gather content loc1 vs1 = record_bytes type fid c"
        and b1: "list_all (iov_in_bounds content loc1) vs1"
      unfolding loc1_def vs1_def using less.prems(2) n(2)
      by (intro gather_record_iovs [OF less.prems(1) c _ c_def [symmetric]]; linarith)+
    have b2: "list_all (iov_in_bounds content loc1) (iovs @ vs1)"
      using b1 gather_grow [OF less.prems(3)] by (simp add: loc1_def)
    have t1: "take 8 loc1 = replicate 8 0" using less.prems(1) l8 by (simp add: loc1_def)
    obtain hs vs where ih: "PartitionLoop type fid (rem - n) (off + n) loc1 (iovs @ vs1)
               (m + 8 + n + padding_for n)
             = (loc1 @ hs, (iovs @ vs1) @ vs,
                m + 8 + n + padding_for n + NeededSsize_t (rem - n), off + n + (rem - n))"
        "length hs = 8 * CeilingOfQuotient (rem - n) 65528"
        "length vs = NeededIovec (rem - n)"
        "list_all (iov_in_bounds content (loc1 @ hs)) vs"
        "gather content (loc1 @ hs) vs = concat (map (record_bytes type fid)
             (chunks 65528 (take (rem - n) (drop (off + n) content))))"
      using less.IH [OF n(3) t1 _ b2, of "off + n" "m + 8 + n + padding_for n"] less.prems(2) n(2)
      by auto
    have ceil: "CeilingOfQuotient rem 65528 = 1 + CeilingOfQuotient (rem - n) 65528"
      unfolding n_def using False by (intro Ceiling_step) simp
    have sizes: "padding_for n + padding_for (rem - n) = padding_for rem"
        "of_bool (padding_for n \<noteq> 0) + of_bool ((rem - n) mod 8 > 0) = (of_bool (rem mod 8 > 0) :: nat)"
    proof -
      have p0: "padding_for 0 = 0" by (simp add: padding_for_def)
      show "padding_for n + padding_for (rem - n) = padding_for rem"
        using full_record_sizes [of rem] p0 by (cases "rem \<le> 65528") (simp_all add: n_def min_def)
      show "of_bool (padding_for n \<noteq> 0) + of_bool ((rem - n) mod 8 > 0)
          = (of_bool (rem mod 8 > 0) :: nat)"
        using full_record_sizes [of rem] p0
        by (cases "rem \<le> 65528")
           (simp_all add: n_def min_def padding_for_zero [simplified neq0_conv])
    qed
    have ch: "chunks 65528 (take rem (drop off content)) =
        c # chunks 65528 (take (rem - n) (drop (off + n) content))"
    proof (cases "rem \<le> 65528")
      case True
      then have "n = rem" by (simp add: n_def)
      then show ?thesis using c n(1) True by (subst chunks.simps) (auto simp: c_def)
    next
      case big: False
      then have n: "n = 65528" by (simp add: n_def)
      moreover have "take rem (drop off content) \<noteq> []" using c n big by (auto simp: c_def)
      ultimately show ?thesis using big
        by (subst chunks.simps) (simp add: c_def drop_take add.commute min_def)
    qed
    have "PartitionLoop type fid rem off loc iovs m = PartitionLoop type fid (rem - n) (off + n)
        loc1 (iovs @ vs1) (m + 8 + n + padding_for n)"
      using False by (subst PartitionLoop_step) (simp add: Let_def n_def loc1_def vs1_def)
    also have "\<dots>
        = (loc @ record_header type fid n @ hs, iovs @ vs1 @ vs, m + NeededSsize_t rem, off + rem)"
      using n(2) sizes(1) by (simp add: ih(1) NeededSsize_t_eq ceil) (simp add: loc1_def)
    finally have "PartitionLoop type fid rem off loc iovs m
        = (loc @ record_header type fid n @ hs, iovs @ vs1 @ vs, m + NeededSsize_t rem, off + rem)" .
    moreover have "length (vs1 @ vs) = NeededIovec rem"
    proof -
      have sum: "a + b = d \<Longrightarrow> l = 2 + a \<Longrightarrow> l + (2 * c + b) = 2 * (1 + c) + d" for a b c d l :: nat
        by simp
      have "length vs1 = 2 + of_bool (padding_for n \<noteq> 0)" by (simp add: vs1_def record_iovs_def)
      then show ?thesis
        unfolding length_append ih(3) NeededIovec_def ceil by (rule sum [OF sizes(2)])
    qed
    moreover have "gather content (loc1 @ hs) (vs1 @ vs) = concat (map (record_bytes type fid)
          (chunks 65528 (take rem (drop off content))))"
      using gather_grow [OF b1, of hs] by (simp add: ch g1 ih(5))
    moreover have "list_all (iov_in_bounds content (loc1 @ hs)) (vs1 @ vs)"
      using gather_grow [OF b1, of hs] ih(4) by simp
    ultimately show ?thesis
      by (intro exI [of _ "record_header type fid n @ hs"] exI [of _ "vs1 @ vs"])
         (simp add: loc1_def ih(2) ceil)
  qed
qed


section \<open>The estimates\<close>

lemma Ceiling_le:
  assumes "m \<le> q * d"
  shows "CeilingOfQuotient m d \<le> q"
proof (cases "d = 0")
  case False
  show ?thesis
  proof (cases "m mod d = 0")
    case True
    then show ?thesis using False assms
      by (simp add: CeilingOfQuotient_def less_mult_imp_div_less)
         (metis div_le_mono div_mult_self_is_m not_gr_zero)
  next
    case r: False
    then have "m \<noteq> q * d" by auto
    then have "m < q * d" using assms by simp
    then have "m div d < q" by (rule less_mult_imp_div_less)
    then show ?thesis by (simp add: CeilingOfQuotient_def)
  qed
qed (use assms in \<open>simp add: CeilingOfQuotient_def\<close>)

lemma iov_limit_bounds: "1 \<le> iov_limit lm" "iov_limit lm \<le> int_MAX"
  by (auto simp: iov_limit_def)

lemma InitializeMaxForIovec_eq:
  "InitializeMaxForIovec lm = (iov_limit lm - 1) div 2 * 65528"
  using iov_limit_bounds(2) [of lm] by (simp add: InitializeMaxForIovec_def Let_def)

lemma min_max_Iovec: "k \<le> min_max lm \<Longrightarrow> k \<le> (iov_limit lm - 1) div 2 * 65528"
  by (simp add: min_max_def InitializeMaxForIovec_eq)

lemma NeededIovec_bound:
  assumes "k \<le> min_max lm"
  shows "NeededIovec k \<le> iov_limit lm"
proof -
  have "CeilingOfQuotient k 65528 \<le> (iov_limit lm - 1) div 2"
    by (rule Ceiling_le [OF min_max_Iovec [OF assms]])
  moreover have "2 * ((iov_limit lm - 1) div 2) + 1 \<le> iov_limit lm"
    using iov_limit_bounds(1) [of lm] by linarith
  ultimately show ?thesis by (auto simp: NeededIovec_def)
qed

lemma NeededSsize_t_bound:
  assumes "k \<le> min_max lm"
  shows "NeededSsize_t k \<le> ssize_t_MAX"
proof -
  have "CeilingOfQuotient k 65528 \<le> (iov_limit lm - 1) div 2"
    by (rule Ceiling_le [OF min_max_Iovec [OF assms]])
  moreover have "(iov_limit lm - 1) div 2 \<le> 1073741823"
    using iov_limit_bounds(2) [of lm] by linarith
  ultimately show ?thesis using min_max_Iovec [OF assms] padding_le [of k]
    by (simp add: NeededSsize_t_eq)
qed

lemma min_max_pos: "0 < min_max lm \<longleftrightarrow> 3 \<le> iov_limit lm"
proof -
  have "0 < InitializeMaxForSsize_t" by (simp add: InitializeMaxForSsize_t_def CeilingOfQuotient_def)
  then show ?thesis by (simp add: min_max_def InitializeMaxForIovec_eq) linarith
qed

lemma record_bytes_length:
  "length (record_bytes type fid c) = 8 + length c + padding_for (length c)"
  by (simp add: record_bytes_def)

lemma record_aligned: "length (record_bytes type fid c) mod 8 = 0"
proof -
  have "(8 + n + (8 - n mod 8) mod 8) mod 8 = 0" for n :: nat
  proof -
    obtain q r where n: "n = 8 * q + r" and r: "r < 8"
      by (metis mod_less_divisor mult_div_mod_eq zero_less_numeral)
    then have m: "n mod 8 = r" by simp
    show ?thesis
    proof (cases "r = 0")
      case False
      then have "(8 - r) mod 8 = 8 - r" using r by simp
      then have "8 + n + (8 - n mod 8) mod 8 = 8 * (q + 2)" using r by (simp add: n m)
      then show ?thesis by (simp only: mod_mult_self1_is_0)
    qed (simp add: m)
  qed
  then show ?thesis unfolding record_bytes_length padding_for_def .
qed

lemma length_gather: "list_all (iov_in_bounds content loc) vs \<Longrightarrow>
    length (gather content loc vs) = sum_list (map snd vs)"
  by (induction vs) (auto simp: iov_bytes_def iov_in_bounds_def split: iov_base.splits)

lemma length_records:
  "length (concat (map (record_bytes type fid) (chunks 65528 xs))) = NeededSsize_t (length xs)"
proof (induction "length xs" arbitrary: xs rule: less_induct)
  case less
  show ?case
  proof (cases "xs = []")
    case True
    then show ?thesis by (simp add: NeededSsize_t_eq padding_for_def)
  next
    case False
    let ?n = "min (length xs) 65528"
    have "padding_for 0 = 0" by (simp add: padding_for_def)
    then have pad: "padding_for ?n + padding_for (length xs - ?n) = padding_for (length xs)"
      using full_record_sizes [of "length xs"] by (cases "length xs \<le> 65528") (simp_all add: min_def)
    have ih: "length (concat (map (record_bytes type fid) (chunks 65528 (drop 65528 xs)))) =
        NeededSsize_t (length xs - ?n)"
      using less [of "drop 65528 xs"] False by (simp add: min_def)
    have "length (concat (map (record_bytes type fid) (chunks 65528 xs))) =
        8 + ?n + padding_for ?n + NeededSsize_t (length xs - ?n)"
      using False ih by (subst chunks.simps) (simp add: record_bytes_length)
    also have "\<dots> = NeededSsize_t (length xs)"
    proof -
      have "?n \<le> length xs" and "0 < length xs" using False by auto
      then show ?thesis using pad Ceiling_step [of "length xs"] unfolding NeededSsize_t_eq
        by linarith
    qed
    finally show ?thesis .
  qed
qed

lemma PartitionByteSequence_partition:
  assumes "begin_iter < end_iter" and "end_iter \<le> length content"
  shows "\<exists>loc iovs n.
     PartitionByteSequence lm begin_iter end_iter type fid
       = Inr (loc, iovs, n, begin_iter + min (end_iter - begin_iter) (min_max lm))
     \<and> gather content loc iovs
       = concat (map (record_bytes type fid) (chunks max_aligned_content_length
                 (take (min (end_iter - begin_iter) (min_max lm)) (drop begin_iter content))))
     \<and> n = length (gather content loc iovs)
     \<and> list_all (iov_in_bounds content loc) iovs
     \<and> length iovs \<le> iov_limit lm \<and> n \<le> ssize_t_MAX"
proof -
  define k where "k = min (end_iter - begin_iter) (min_max lm)"
  have k: "begin_iter + k \<le> length content" "k \<le> min_max lm" using assms by (auto simp: k_def)
  obtain hs vs where l: "PartitionLoop type fid k begin_iter (replicate 8 0) [] 0
        = (replicate 8 0 @ hs, vs, NeededSsize_t k, begin_iter + k)"
      "length hs = 8 * CeilingOfQuotient k 65528" "length vs = NeededIovec k"
      "list_all (iov_in_bounds content (replicate 8 0 @ hs)) vs"
      "gather content (replicate 8 0 @ hs) vs
         = concat (map (record_bytes type fid) (chunks 65528 (take k (drop begin_iter content))))"
    using PartitionLoop_correct [OF _ k(1), of "replicate 8 0" "[]" type fid 0] by auto
  have "PartitionByteSequence lm begin_iter end_iter type fid
      = Inr (replicate 8 0 @ hs, vs, NeededSsize_t k, begin_iter + k)"
  proof -
    have "(if nat (int end_iter - int begin_iter) < min_max lm
        then (nat (int end_iter - int begin_iter),
              NeededSsize_t (nat (int end_iter - int begin_iter)),
              NeededIovec (nat (int end_iter - int begin_iter)))
        else (min_max lm, NeededSsize_t (min_max lm), NeededIovec (min_max lm)))
        = (k, NeededSsize_t k, NeededIovec k)"
      using assms(1) by (auto simp: k_def nat_diff_distrib)
    then show ?thesis using assms(1) l
      by (simp add: PartitionByteSequence_def Let_def NeededLocalData_def)
  qed
  moreover have "NeededSsize_t k = length (gather content (replicate 8 0 @ hs) vs)"
    using k(1) by (simp only: l(5) length_records) simp
  ultimately show ?thesis
    using assms(1) l NeededIovec_bound [OF k(2)] NeededSsize_t_bound [OF k(2)]
    by (intro exI [of _ "replicate 8 0 @ hs"] exI [of _ vs] exI [of _ "NeededSsize_t k"])
       (simp flip: k_def)
qed

text \<open>
  C14. \<open>PartitionByteSequence\<close>, for a valid range: what the returned list of \<open>struct iovec\<close>
  denotes is a sequence of complete FastCGI records of the type and request given (for an empty
  range, one record without content), whose contents are, in order and without gap, the first
  bytes of the range, up to the returned iterator, in pieces of 65528 bytes. All pointers stay in
  the bounds of the two sequences, the returned number is the number of bytes the list denotes,
  and the list respects the limits of \<open>writev\<close>: its length \<open>IOV_MAX\<close> and its size the maximum of
  \<open>ssize_t\<close>. The size estimates are right: no \<open>logic_error\<close> is thrown.
\<close>

theorem PartitionByteSequence_correct:
  assumes "begin_iter \<le> end_iter" and "end_iter \<le> length content"
  shows "\<exists>loc iovs n.
     PartitionByteSequence lm begin_iter end_iter type fid
       = Inr (loc, iovs, n, begin_iter + min (end_iter - begin_iter) (min_max lm))
     \<and> gather content loc iovs
       = (if begin_iter = end_iter then record_bytes type fid []
          else concat (map (record_bytes type fid) (chunks max_aligned_content_length
                 (take (min (end_iter - begin_iter) (min_max lm)) (drop begin_iter content)))))
     \<and> n = length (gather content loc iovs)
     \<and> list_all (iov_in_bounds content loc) iovs
     \<and> length iovs \<le> iov_limit lm \<and> n \<le> ssize_t_MAX"
proof (cases "begin_iter = end_iter")
  case True
  have "gather content (replicate 8 0 @ PopulateHeader type fid 0 0) [(Local 8, 8)] =
      record_bytes type fid []"
    by (simp add: iov_bytes_def record_bytes_def padding_for_def)
  then show ?thesis using True iov_limit_bounds(1) [of lm]
    by (intro exI [of _ "replicate 8 0 @ PopulateHeader type fid 0 0"] exI [of _ "[(Local 8, 8)]"]
          exI [of _ 8])
       (simp add: PartitionByteSequence_def overwrite_def record_bytes_def padding_for_def
          iov_in_bounds_def Let_def split: prod.splits)
qed (use PartitionByteSequence_partition [of begin_iter end_iter content lm type fid] assms in simp)

theorem PartitionByteSequence_correct_witness:
  "\<exists>loc iovs n. PartitionByteSequence 1024 0 3 kFCGI_STDOUT 1 = Inr (loc, iovs, n, 3)
     \<and> gather [7, 8, 9] loc iovs = [1, 6, 0, 1, 0, 3, 5, 0, 7, 8, 9, 0, 0, 0, 0, 0]
     \<and> n = 16 \<and> list_all (iov_in_bounds [7, 8, 9] loc) iovs"
proof -
  have mm: "min_max 1024 = 511 * 65528"
    by (simp add: min_max_def InitializeMaxForSsize_t_def CeilingOfQuotient_def
          InitializeMaxForIovec_eq iov_limit_def)
  have c: "chunks 65528 [7, 8, 9 :: byte] = [[7, 8, 9]]" by (subst chunks.simps) simp
  have r: "replicate 5 (0 :: byte) = [0, 0, 0, 0, 0]" by (simp add: numeral_eq_Suc)
  have rec: "concat (map (record_bytes 6 1) (chunks 65528 [7, 8, 9]))
      = [1, 6, 0, 1, 0, 3, 5, 0, 7, 8, 9, 0, 0, 0, 0, 0]"
    by (simp add: c r record_bytes_def padding_for_def PopulateHeader_def hi8_def lo8_def)
  have k: "min (3 - 0) (min_max 1024) = 3" by (simp add: mm)
  have t: "take 3 (drop 0 [7, 8, 9 :: byte]) = [7, 8, 9]" by (simp add: numeral_eq_Suc)
  obtain loc iovs n where p: "PartitionByteSequence 1024 0 3 6 1 = Inr (loc, iovs, n, 0 + 3)"
      "gather [7, 8, 9] loc iovs = [1, 6, 0, 1, 0, 3, 5, 0, 7, 8, 9, 0, 0, 0, 0, 0]"
      "n = length (gather [7, 8, 9] loc iovs)" "list_all (iov_in_bounds [7, 8, 9] loc) iovs"
    using PartitionByteSequence_correct [of 0 3 "[7, 8, 9]" 1024 6 1, unfolded k t rec]
    by auto
  show ?thesis
    by (rule exI [of _ loc], rule exI [of _ iovs], rule exI [of _ n])
       (use p in \<open>simp add: p(2)\<close>)
qed

text \<open>
  Progress: with room for three \<open>iovec\<close>s a call consumes a byte of a non-empty range, and then
  the loop of a caller that calls again on the rest ends.
\<close>

lemma PartitionByteSequence_progress:
  assumes "begin_iter < end_iter" and "3 \<le> iov_limit lm"
  shows "0 < min (end_iter - begin_iter) (min_max lm)"
  using assms by (simp add: min_max_pos)

end
