(* ===== verification/Outcome_Monad.thy ===== *)
theory Outcome_Monad
  imports Fcgi_Prelude
begin

text \<open>
  Operations on a state that may throw: state passing with the outcomes a C++ function can have,
  and a small Hoare logic for them.
\<close>

section \<open>Operations\<close>

text \<open>
  A call returns a value, throws, ends the program (\<open>std::terminate\<close>), waits for something that
  does not come (an answer of the kernel that the script does not have, or a mutex; \<open>Blocked\<close>), runs
  in one of its own loops for more turns than the model grants it (\<open>Diverge\<close>), or has undefined
  behaviour (an invalid iterator is used).
\<close>

datatype 'a outcome = Ok 'a | Throw exn | Terminate | Blocked | Diverge | Undefined

type_synonym ('s, 'a) op = "'s \<Rightarrow> 'a outcome \<times> 's"

definition ret :: "'a \<Rightarrow> ('s, 'a) op" where "ret x = (\<lambda>s. (Ok x, s))"
definition throw :: "exn \<Rightarrow> ('s, 'a) op" where "throw e = (\<lambda>s. (Throw e, s))"
definition terminate :: "('s, 'a) op" where "terminate = (\<lambda>s. (Terminate, s))"
definition blocked :: "('s, 'a) op" where "blocked = (\<lambda>s. (Blocked, s))"
definition diverge :: "('s, 'a) op" where "diverge = (\<lambda>s. (Diverge, s))"
definition undefined_behaviour :: "('s, 'a) op" where
  "undefined_behaviour = (\<lambda>s. (Undefined, s))"
definition gets :: "('s \<Rightarrow> 'a) \<Rightarrow> ('s, 'a) op" where "gets f = (\<lambda>s. (Ok (f s), s))"
definition modify :: "('s \<Rightarrow> 's) \<Rightarrow> ('s, unit) op" where "modify f = (\<lambda>s. (Ok (), f s))"

definition bind :: "('s, 'a) op \<Rightarrow> ('a \<Rightarrow> ('s, 'b) op) \<Rightarrow> ('s, 'b) op" where
  "bind m f = (\<lambda>s. case m s of
       (Ok x, s') \<Rightarrow> f x s'
     | (Throw e, s') \<Rightarrow> (Throw e, s')
     | (Terminate, s') \<Rightarrow> (Terminate, s')
     | (Blocked, s') \<Rightarrow> (Blocked, s')
     | (Diverge, s') \<Rightarrow> (Diverge, s')
     | (Undefined, s') \<Rightarrow> (Undefined, s'))"

abbreviation and_then :: "('s, unit) op \<Rightarrow> ('s, 'b) op \<Rightarrow> ('s, 'b) op" where
  "and_then m n \<equiv> bind m (\<lambda>_. n)"

text \<open>\<open>try { m } catch(...) { h; throw; }\<close> and \<open>try { m } catch(...) { h }\<close> for an exception \<open>e\<close>.\<close>

definition try_catch :: "('s, 'a) op \<Rightarrow> (exn \<Rightarrow> ('s, 'a) op) \<Rightarrow> ('s, 'a) op" where
  "try_catch m h = (\<lambda>s. case m s of (Throw e, s') \<Rightarrow> h e s' | r \<Rightarrow> r)"

definition on_throw :: "('s, 'a) op \<Rightarrow> ('s, unit) op \<Rightarrow> ('s, 'a) op" where
  "on_throw m h = try_catch m (\<lambda>e. bind h (\<lambda>_. throw e))"

definition unless_then :: "bool \<Rightarrow> ('s, unit) op \<Rightarrow> ('s, unit) op" where
  "unless_then c m = (if c then ret () else m)"

definition when_then :: "bool \<Rightarrow> ('s, unit) op \<Rightarrow> ('s, unit) op" where
  "when_then c m = (if c then m else ret ())"

lemma op_simps [simp]:
  "bind (ret x) f = f x"
  "bind m ret = m"
  "bind (throw e) f = throw e"
  "bind (bind m f) g = bind m (\<lambda>x. bind (f x) g)"
  by (auto simp: bind_def ret_def throw_def fun_eq_iff split: prod.splits outcome.splits)

lemma op_apply [simp]:
  "ret x s = (Ok x, s)" "throw e s = (Throw e, s)" "terminate s = (Terminate, s)"
  "blocked s = (Blocked, s)" "diverge s = (Diverge, s)" "undefined_behaviour s = (Undefined, s)"
  "gets f s = (Ok (f s), s)" "modify g s = (Ok (), g s)"
  "bind (gets f) k s = k (f s) s" "bind (modify g) k' s = k' () (g s)"
  by (simp_all add: ret_def throw_def terminate_def blocked_def diverge_def undefined_behaviour_def
        gets_def modify_def bind_def)

lemma bind_Ok: "m s = (Ok x, s') \<Longrightarrow> bind m f s = f x s'"
  by (simp add: bind_def)

lemma bind_Throw: "m s = (Throw e, s') \<Longrightarrow> bind m f s = (Throw e, s')"
  by (simp add: bind_def)

lemma bind_Blocked: "m s = (Blocked, s') \<Longrightarrow> bind m f s = (Blocked, s')"
  by (simp add: bind_def)

section \<open>Hoare logic\<close>

text \<open>
  \<open>hoare_gen T P m Q E\<close>: from a state with \<open>P\<close>, the operation is not undefined, and ends the
  program or loops without end only if \<open>T\<close>; if it returns \<open>Q\<close> holds of the result, if it throws \<open>E\<close>
  holds. The logic for operations that never end the program, and whose loops all end, is \<open>hoare\<close>.
\<close>

definition hoare_gen ::
  "bool \<Rightarrow> ('s \<Rightarrow> bool) \<Rightarrow> ('s, 'a) op \<Rightarrow> ('a \<Rightarrow> 's \<Rightarrow> bool) \<Rightarrow> (exn \<Rightarrow> 's \<Rightarrow> bool) \<Rightarrow> bool"
where
  "hoare_gen T P m Q E \<longleftrightarrow> (\<forall>s. P s \<longrightarrow> (case m s of
       (Ok x, s') \<Rightarrow> Q x s' | (Throw e, s') \<Rightarrow> E e s' | (Blocked, s') \<Rightarrow> True
     | (Terminate, s') \<Rightarrow> T | (Diverge, s') \<Rightarrow> T | (Undefined, s') \<Rightarrow> False))"

abbreviation hoare ::
  "('s \<Rightarrow> bool) \<Rightarrow> ('s, 'a) op \<Rightarrow> ('a \<Rightarrow> 's \<Rightarrow> bool) \<Rightarrow> (exn \<Rightarrow> 's \<Rightarrow> bool) \<Rightarrow> bool"
where
  "hoare \<equiv> hoare_gen False"

lemmas hoare_def = hoare_gen_def

named_theorems hoare_rules "rules of the Hoare logic"

lemma hoareI:
  "(\<And>s. P s \<Longrightarrow> case m s of
       (Ok x, s') \<Rightarrow> Q x s' | (Throw e, s') \<Rightarrow> E e s' | (Blocked, s') \<Rightarrow> True
     | (Terminate, s') \<Rightarrow> T | (Diverge, s') \<Rightarrow> T | (Undefined, s') \<Rightarrow> False) \<Longrightarrow> hoare_gen T P m Q E"
  by (simp add: hoare_def)

lemma hoareD:
  assumes "hoare_gen T P m Q E" and "P s"
  shows "case m s of
       (Ok x, s') \<Rightarrow> Q x s' | (Throw e, s') \<Rightarrow> E e s' | (Blocked, s') \<Rightarrow> True
     | (Terminate, s') \<Rightarrow> T | (Diverge, s') \<Rightarrow> T | (Undefined, s') \<Rightarrow> False"
  by (rule assms(1) [unfolded hoare_def, rule_format, OF assms(2)])

lemma hoare_Ok: "hoare_gen T P m Q E \<Longrightarrow> P s \<Longrightarrow> m s = (Ok x, s') \<Longrightarrow> Q x s'"
  by (drule (1) hoareD) simp

lemma hoare_Throw: "hoare_gen T P m Q E \<Longrightarrow> P s \<Longrightarrow> m s = (Throw e, s') \<Longrightarrow> E e s'"
  by (drule (1) hoareD) simp

lemma hoare_never: "hoare P m Q E \<Longrightarrow> P s \<Longrightarrow> fst (m s) \<notin> {Undefined, Terminate, Diverge}"
  by (drule (1) hoareD) (auto split: prod.splits outcome.splits)

lemma hoare_ret [hoare_rules]: "hoare_gen T (Q x) (ret x) Q E"
  by (simp add: hoare_def)

lemma hoare_throw [hoare_rules]: "hoare_gen T (E e) (throw e) Q E"
  by (simp add: hoare_def)

lemma hoare_blocked [hoare_rules]: "hoare_gen T P blocked Q E"
  by (simp add: hoare_def)

lemma hoare_diverge: "hoare_gen True P diverge Q E"
  by (simp add: hoare_def)

lemma hoare_gets [hoare_rules]: "hoare_gen T (\<lambda>s. Q (f s) s) (gets f) Q E"
  by (simp add: hoare_def)

lemma hoare_modify [hoare_rules]: "hoare_gen T (\<lambda>s. Q () (f s)) (modify f) Q E"
  by (simp add: hoare_def)

lemma hoare_bind:
  assumes "\<And>x. hoare_gen T (R x) (f x) Q E" and "hoare_gen T P m R E"
  shows "hoare_gen T P (bind m f) Q E"
proof (rule hoareI)
  fix s assume "P s"
  from hoareD [OF assms(2) this]
  show "case bind m f s of
       (Ok x, s') \<Rightarrow> Q x s' | (Throw e, s') \<Rightarrow> E e s' | (Blocked, s') \<Rightarrow> True
     | (Terminate, s') \<Rightarrow> T | (Diverge, s') \<Rightarrow> T | (Undefined, s') \<Rightarrow> False"
    by (cases "m s"; cases "fst (m s)") (auto simp: bind_def dest: hoareD [OF assms(1)])
qed

lemma hoare_try:
  assumes "hoare_gen T P m Q R" and "\<And>e. hoare_gen T (R e) (h e) Q E"
  shows "hoare_gen T P (try_catch m h) Q E"
proof (rule hoareI)
  fix s assume "P s"
  from hoareD [OF assms(1) this]
  show "case try_catch m h s of
       (Ok x, s') \<Rightarrow> Q x s' | (Throw e, s') \<Rightarrow> E e s' | (Blocked, s') \<Rightarrow> True
     | (Terminate, s') \<Rightarrow> T | (Diverge, s') \<Rightarrow> T | (Undefined, s') \<Rightarrow> False"
    by (cases "m s"; cases "fst (m s)") (auto simp: try_catch_def dest: hoareD [OF assms(2)])
qed

lemma hoare_weaken:
  assumes "hoare_gen T P' m Q' E'" and "\<And>s. P s \<Longrightarrow> P' s"
      and "\<And>x s. Q' x s \<Longrightarrow> Q x s" and "\<And>e s. E' e s \<Longrightarrow> E e s"
  shows "hoare_gen T P m Q E"
proof (rule hoareI)
  fix s assume "P s"
  then have "P' s" by (rule assms(2))
  from hoareD [OF assms(1) this]
  show "case m s of
       (Ok x, s') \<Rightarrow> Q x s' | (Throw e, s') \<Rightarrow> E e s' | (Blocked, s') \<Rightarrow> True
     | (Terminate, s') \<Rightarrow> T | (Diverge, s') \<Rightarrow> T | (Undefined, s') \<Rightarrow> False"
    by (auto split: prod.splits outcome.splits intro: assms(3,4))
qed

lemma hoare_pre: "hoare_gen T P' m Q E \<Longrightarrow> (\<And>s. P s \<Longrightarrow> P' s) \<Longrightarrow> hoare_gen T P m Q E"
  by (rule hoare_weaken)

lemma hoare_on_throw:
  assumes "hoare_gen T P m Q R" and "\<And>e. hoare_gen T (R e) h (\<lambda>_. E e) E"
  shows "hoare_gen T P (on_throw m h) Q E"
  unfolding on_throw_def
  by (rule hoare_try [OF assms(1)], rule hoare_bind [OF hoare_throw assms(2)])

lemma hoare_if:
  "(c \<Longrightarrow> hoare_gen T P m Q E) \<Longrightarrow> (\<not> c \<Longrightarrow> hoare_gen T P' n Q E) \<Longrightarrow>
     hoare_gen T (\<lambda>s. (c \<longrightarrow> P s) \<and> (\<not> c \<longrightarrow> P' s)) (if c then m else n) Q E"
  by (auto simp: hoare_def)

lemma hoare_conj:
  "hoare_gen T P m Q E \<Longrightarrow> hoare_gen T P' m Q' E' \<Longrightarrow>
     hoare_gen T (\<lambda>s. P s \<and> P' s) m (\<lambda>x s. Q x s \<and> Q' x s) (\<lambda>e s. E e s \<and> E' e s)"
  by (force simp: hoare_def split: prod.splits outcome.splits)

text \<open>An operation that keeps a property of the state, whether it returns or throws.\<close>

definition keeps :: "('s \<Rightarrow> bool) \<Rightarrow> ('s, 'a) op \<Rightarrow> bool" where
  "keeps I m \<longleftrightarrow> hoare I m (\<lambda>_. I) (\<lambda>_. I)"

lemma keeps_ret [intro]: "keeps I (ret x)"
  and keeps_throw [intro]: "keeps I (throw e)"
  and keeps_blocked [intro]: "keeps I blocked"
  and keeps_gets [intro]: "keeps I (gets f)"
  by (simp_all add: keeps_def hoare_def)

lemma keeps_modify: "(\<And>s. I s \<Longrightarrow> I (f s)) \<Longrightarrow> keeps I (modify f)"
  by (simp add: keeps_def hoare_def)

lemma keeps_bind: "keeps I m \<Longrightarrow> (\<And>x. keeps I (f x)) \<Longrightarrow> keeps I (bind m f)"
  unfolding keeps_def by (rule hoare_bind)

lemma keeps_try: "keeps I m \<Longrightarrow> (\<And>e. keeps I (h e)) \<Longrightarrow> keeps I (try_catch m h)"
  unfolding keeps_def by (rule hoare_try)

lemma keeps_on_throw: "keeps I m \<Longrightarrow> keeps I h \<Longrightarrow> keeps I (on_throw m h)"
  unfolding keeps_def by (rule hoare_on_throw)

section \<open>Operations that come to an end\<close>

text \<open>No loop of the operation is cut off, in any state.\<close>

definition ends :: "('s, 'a) op \<Rightarrow> bool" where
  "ends m \<longleftrightarrow> (\<forall>s. fst (m s) \<noteq> Diverge)"

named_theorems ending "operations that come to an end"

lemma ends_basic [ending]:
  "ends (ret x)" "ends (throw e)" "ends terminate" "ends blocked" "ends undefined_behaviour"
  "ends (gets f)" "ends (modify g)"
  by (simp_all add: ends_def)

lemma ends_bind [ending]: "ends m \<Longrightarrow> (\<And>x. ends (f x)) \<Longrightarrow> ends (bind m f)"
  unfolding ends_def bind_def by (auto split: prod.splits outcome.splits) (metis fst_conv)+

lemma ends_try [ending]: "ends m \<Longrightarrow> (\<And>e. ends (h e)) \<Longrightarrow> ends (try_catch m h)"
  unfolding ends_def try_catch_def by (auto split: prod.splits outcome.splits) (metis fst_conv)+

lemma ends_on_throw [ending]: "ends m \<Longrightarrow> ends h \<Longrightarrow> ends (on_throw m h)"
  unfolding on_throw_def by (intro ending)

lemma ends_cases [ending]:
  "ends m \<Longrightarrow> ends n \<Longrightarrow> ends (if c then m else n)"
  "ends u \<Longrightarrow> ends (when_then c u)" "ends u \<Longrightarrow> ends (unless_then c u)"
  "ends m \<Longrightarrow> (\<And>x. ends (f x)) \<Longrightarrow> ends (case a of None \<Rightarrow> m | Some x \<Rightarrow> f x)"
  "(\<And>x y. ends (g x y)) \<Longrightarrow> ends (case p of (x, y) \<Rightarrow> g x y)"
  by (auto simp: when_then_def unless_then_def ends_basic split: option.splits prod.splits)

section \<open>Forward execution\<close>

text \<open>Each rule executes the first operation of a sequence.\<close>

named_theorems step "rules that execute one operation"

lemma hoare_first:
  assumes "\<And>s. P s \<Longrightarrow> \<exists>x s'. m s = (Ok x, s') \<and> P' x s'" and "\<And>x. hoare_gen T (P' x) (f x) Q E"
  shows "hoare_gen T P (bind m f) Q E"
  by (rule hoare_bind [OF assms(2)]) (use assms(1) in \<open>fastforce simp: hoare_def\<close>)

lemma hoare_know: "(\<And>s. P s \<Longrightarrow> hoare_gen T (\<lambda>t. t = s) m Q E) \<Longrightarrow> hoare_gen T P m Q E"
  by (simp add: hoare_def)

lemma step_ret [step]: "(\<And>s. P s \<Longrightarrow> Q x s) \<Longrightarrow> hoare_gen T P (ret x) Q E"
  by (simp add: hoare_def)

lemma step_throw [step]: "(\<And>s. P s \<Longrightarrow> E e s) \<Longrightarrow> hoare_gen T P (throw e) Q E"
  by (simp add: hoare_def)

lemma step_if [step]:
  "(c \<Longrightarrow> hoare_gen T P m Q E) \<Longrightarrow> (\<not> c \<Longrightarrow> hoare_gen T P n Q E) \<Longrightarrow> hoare_gen T P (if c then m else n) Q E"
  by simp

lemma hoare_facts: "(\<And>s. P s \<Longrightarrow> hoare_gen T P m Q E) \<Longrightarrow> hoare_gen T P m Q E"
  by (auto simp: hoare_def)

lemma step_Some [step]:
  "hoare_gen T P (f x) Q E \<Longrightarrow> hoare_gen T P (case Some x of None \<Rightarrow> m | Some y \<Rightarrow> f y) Q E"
  by simp

lemma step_None [step]:
  "hoare_gen T P m Q E \<Longrightarrow> hoare_gen T P (case None of None \<Rightarrow> m | Some y \<Rightarrow> f y) Q E"
  by simp

lemma step_case_Some:
  "x = Some y \<Longrightarrow> hoare_gen T P (f y) Q E \<Longrightarrow> hoare_gen T P (case x of None \<Rightarrow> m | Some y \<Rightarrow> f y) Q E"
  by simp

lemma step_pair [step]:
  "(\<And>a b. x = (a, b) \<Longrightarrow> hoare_gen T P (f a b) Q E) \<Longrightarrow> hoare_gen T P (case x of (a, b) \<Rightarrow> f a b) Q E"
  by (cases x) simp

lemma step_gets_pair [step]:
  "(\<And>x. hoare_gen T P (f x) Q E) \<Longrightarrow> hoare_gen T P (bind (gets (\<lambda>s. (g s, h s))) f) Q E"
  by (simp add: hoare_def)

lemma step_gets: "(\<And>x. hoare_gen T P (f x) Q E) \<Longrightarrow> hoare_gen T P (bind (gets g) f) Q E"
  by (simp add: hoare_def)

lemma hoare_ex: "(\<And>x. hoare_gen T (P x) m Q E) \<Longrightarrow> hoare_gen T (\<lambda>s. \<exists>x. P x s) m Q E"
  by (fastforce simp: hoare_def)

lemma hoare_ex2: "(\<And>x y. hoare_gen T (P x y) m Q E) \<Longrightarrow> hoare_gen T (\<lambda>s. \<exists>x y. P x y s) m Q E"
  by (fastforce simp: hoare_def)

lemma hoare_with: "(A \<Longrightarrow> hoare_gen T P m Q E) \<Longrightarrow> hoare_gen T (\<lambda>s. P s \<and> A) m Q E"
  by (auto simp: hoare_def)

end
