(* ===== verification/Pair_Encoder.thy ===== *)
theory Pair_Encoder
  imports Partition Outcome_Monad
begin

text \<open>
  \<open>EncodeNameValuePairs\<close> of \<open>fcgi/include/fcgi_utilities_templates.h\<close>: name-value pairs are encoded as
  the content of records that are described by a list of \<open>struct iovec\<close>, up to the limits of one
  call of \<open>writev\<close>; a further call goes on where the list ends.
\<close>

section \<open>The state of the encoder\<close>

text \<open>
  A \<open>struct iovec\<close> points into the vector of headers and lengths that the call returns, or into the
  name or the value of a pair, which is given by its position in the range. The pointers into the
  vector are filled in when it does not grow any more; the model has them at once.
\<close>

datatype pair_iov_base = Local_buffer nat | Name nat nat | Value nat nat

type_synonym pair_iovec = "pair_iov_base \<times> nat"

record encoder =
  iovec_list :: "pair_iovec list"
  local_buffers :: bytes
  remaining_iovec_count :: int
  remaining_byte_count :: nat
  number_to_write :: nat
  previous_content_length :: nat
  previous_header_offset :: nat
  nv_pair_bytes_placed :: nat
  record_count :: nat
  incomplete_nv_write :: bool

definition encoder_new :: "int \<Rightarrow> encoder" where
  "encoder_new iovec_MAX = \<lparr>
     iovec_list = [], local_buffers = [],
     remaining_iovec_count = min (if iovec_MAX = - 1 then 1024 else iovec_MAX) (int int_MAX) - 1,
     remaining_byte_count = ssize_t_MAX - 7, number_to_write = 0, previous_content_length = 0,
     previous_header_offset = 0, nv_pair_bytes_placed = 0, record_count = 0,
     incomplete_nv_write = False\<rparr>"

section \<open>The lengths of a pair\<close>

text \<open>
  The loop over the name and the value that encodes their lengths: whether one of them is too big,
  the number of bytes that the lengths take, and the vector.
\<close>

fun LengthLoop :: "nat list \<Rightarrow> nat \<Rightarrow> bytes \<Rightarrow> exn + bool \<times> nat \<times> bytes" where
  "LengthLoop [] placed buffers = Inr (False, placed, buffers)"
| "LengthLoop (len # lens) placed buffers =
     (if len \<le> kNameValuePairSingleByteLength
      then LengthLoop lens (placed + 1) (buffers @ [of_nat len])
      else if len \<le> kNameValuePairFourByteLength
      then case EncodeFourByteLength (int len) of
          Inl e \<Rightarrow> Inl e
        | Inr bs \<Rightarrow> LengthLoop lens (placed + 4) (buffers @ bs)
      else Inr (True, placed, buffers))"

section \<open>The records of a pair\<close>

definition StartRecord :: "FcgiType \<Rightarrow> u16 \<Rightarrow> encoder \<Rightarrow> encoder" where
  "StartRecord type fid st = st\<lparr>
     previous_header_offset := length (local_buffers st),
     iovec_list := iovec_list st @ [(Local_buffer (length (local_buffers st)), FCGI_HEADER_LEN)],
     local_buffers := overwrite (local_buffers st @ replicate FCGI_HEADER_LEN 0) (length (local_buffers st))
       (PopulateHeader type fid 0 0),
     number_to_write := number_to_write st + FCGI_HEADER_LEN,
     remaining_byte_count := remaining_byte_count st - FCGI_HEADER_LEN,
     remaining_iovec_count := remaining_iovec_count st - 1,
     record_count := record_count st + 1\<rparr>"

text \<open>
  The first of the three buffers of the pair (its lengths, its name, its value) from which not all
  bytes have been placed; \<open>sums\<close> are the partial sums of \<open>size_array\<close>.
\<close>

definition determine_index :: "nat list \<Rightarrow> nat \<Rightarrow> nat" where
  "determine_index sums placed = (if placed < sums ! 1 then 0 else if placed < sums ! 2 then 1 else 2)"

definition PlaceIovec :: "nat \<Rightarrow> nat list \<Rightarrow> nat list \<Rightarrow> nat \<Rightarrow> nat \<Rightarrow> nat \<Rightarrow> encoder \<Rightarrow> encoder" where
  "PlaceIovec k size_array sums name_value_buffer_offset index m st =
     (let offset = nv_pair_bytes_placed st - sums ! index;
          new_iovec = (if index = 0 then (Local_buffer (name_value_buffer_offset + nv_pair_bytes_placed st), m)
                       else if index = 1 then (Name k offset, m) else (Value k offset, m))
      in if index = 0 \<or> m \<noteq> 0
         then st\<lparr>iovec_list := iovec_list st @ [new_iovec],
                remaining_iovec_count := remaining_iovec_count st - 1\<rparr>
         else st)"

definition UpdateRecord :: "nat \<Rightarrow> encoder \<Rightarrow> encoder" where
  "UpdateRecord m st =
     (let content_length = previous_content_length st + m; h = previous_header_offset st in st\<lparr>
        nv_pair_bytes_placed := nv_pair_bytes_placed st + m,
        number_to_write := number_to_write st + m,
        remaining_byte_count := remaining_byte_count st - m,
        previous_content_length := content_length,
        local_buffers := (local_buffers st)
          [h + kHeaderContentLengthB1Index := of_nat (drop_bit 8 content_length),
           h + kHeaderContentLengthB0Index := of_nat content_length]\<rparr>)"

text \<open>
  The loop over the buffers of the pair; \<open>remaining\<close> is \<open>remaining_nv_bytes_to_place\<close>. The result says
  whether \<open>padding_limit_reached\<close>.
\<close>

primrec BufferLoop ::
  "nat \<Rightarrow> nat list \<Rightarrow> nat list \<Rightarrow> nat \<Rightarrow> nat \<Rightarrow> nat list \<Rightarrow> encoder \<Rightarrow> nat \<Rightarrow> encoder \<times> nat \<times> bool"
where
  "BufferLoop k size_array sums buffer_offset total_length [] st remaining = (st, remaining, False)"
| "BufferLoop k size_array sums buffer_offset total_length (index # indices) st remaining =
     (let current_limit = min (remaining_byte_count st)
                              (max_aligned_content_length - previous_content_length st);
          number_to_place = min remaining current_limit;
          local_remaining = size_array ! index - (nv_pair_bytes_placed st - sums ! index);
          m = min local_remaining number_to_place;
          st' = UpdateRecord m (PlaceIovec k size_array sums buffer_offset index m st)
      in if remaining_iovec_count st' = 0 \<or> remaining_byte_count st' = 0
         then (st'\<lparr>incomplete_nv_write := incomplete_nv_write st' \<or> nv_pair_bytes_placed st' < total_length\<rparr>,
               remaining - m, True)
         else if previous_content_length st' = max_aligned_content_length
         then (st'\<lparr>previous_content_length := 0\<rparr>, remaining - m, False)
         else BufferLoop k size_array sums buffer_offset total_length indices st' (remaining - m))"

text \<open>
  The loop that produces records. Each turn places a byte or is the last, so that as many turns
  as there are bytes are enough; \<open>None\<close> is the loop that goes on.
\<close>

fun RecordLoop ::
  "nat \<Rightarrow> FcgiType \<Rightarrow> u16 \<Rightarrow> nat \<Rightarrow> nat list \<Rightarrow> nat list \<Rightarrow> nat \<Rightarrow> nat \<Rightarrow> encoder \<Rightarrow> nat \<Rightarrow> encoder option"
where
  "RecordLoop fuel type fid k size_array sums buffer_offset total_length st remaining =
     (if remaining = 0 then Some st
      else case fuel of
          0 \<Rightarrow> None
        | Suc fuel' \<Rightarrow>
            if previous_content_length st = 0
               \<and> \<not> (remaining_iovec_count st \<ge> 2 \<and> remaining_byte_count st \<ge> FCGI_HEADER_LEN + 1)
            then Some (st\<lparr>incomplete_nv_write := True\<rparr>)
            else let st' = (if previous_content_length st = 0 then StartRecord type fid st else st) in
              (case BufferLoop k size_array sums buffer_offset total_length
                      [determine_index sums (nv_pair_bytes_placed st') ..< 3] st' remaining of
                 (st'', remaining', padding_limit_reached) \<Rightarrow>
                   if padding_limit_reached then Some st''
                   else RecordLoop fuel' type fid k size_array sums buffer_offset total_length st'' remaining'))"

declare RecordLoop.simps [simp del]

section \<open>All pairs\<close>

text \<open>
  The loop over the pairs from position \<open>k\<close> on: whether no pair was refused, the position of
  \<open>pair_iter\<close>, and the state.
\<close>

fun PairLoop ::
  "FcgiType \<Rightarrow> u16 \<Rightarrow> nat \<Rightarrow> (bytes \<times> bytes) list \<Rightarrow> nat \<Rightarrow> encoder \<Rightarrow> (bool \<times> nat \<times> encoder) outcome"
where
  "PairLoop type fid k [] offset st = Ok (True, k, st)"
| "PairLoop type fid k ((name, val) # pairs) offset st =
     (if remaining_iovec_count st = 0 \<or> remaining_byte_count st = 0 then Ok (True, k, st)
      else let buffer_offset = length (local_buffers st); n = length name; v = length val in
        case LengthLoop [n, v] 0 (local_buffers st) of
          Inl e \<Rightarrow> Throw e
        | Inr (too_big, s, buffers) \<Rightarrow>
            if too_big \<or> n > size_t_MAX - s \<or> v > size_t_MAX - (n + s)
            then Ok (False, k, st\<lparr>nv_pair_bytes_placed := offset,
                                  local_buffers := take (length buffers - s) buffers\<rparr>)
            else let total_length = v + (n + s) in
              (case RecordLoop (total_length - offset) type fid k [s, n, v] [0, s, n + s] buffer_offset total_length
                      (st\<lparr>nv_pair_bytes_placed := offset, local_buffers := buffers\<rparr>) (total_length - offset) of
                 None \<Rightarrow> Diverge
               | Some st' \<Rightarrow>
                   if incomplete_nv_write st' then Ok (True, k, st')
                   else PairLoop type fid (Suc k) pairs 0 st'))"

text \<open>The padding of the last record.\<close>

definition PadRecord :: "encoder \<Rightarrow> encoder" where
  "PadRecord st =
     (let pad_mod = previous_content_length st mod FCGI_HEADER_LEN in
      if pad_mod = 0 then st
      else let complement = FCGI_HEADER_LEN - pad_mod in st\<lparr>
        iovec_list := iovec_list st @ [(Local_buffer (length (local_buffers st)), complement)],
        local_buffers := (local_buffers st @ replicate complement 0)
          [previous_header_offset st + kHeaderPaddingLengthIndex := of_nat complement],
        number_to_write := number_to_write st + complement\<rparr>)"

type_synonym encoded = "bool \<times> nat \<times> pair_iovec list \<times> nat \<times> bytes \<times> nat \<times> nat"

definition EncodeNameValuePairs ::
  "int \<Rightarrow> (bytes \<times> bytes) list \<Rightarrow> FcgiType \<Rightarrow> u16 \<Rightarrow> nat \<Rightarrow> encoded outcome"
where
  "EncodeNameValuePairs iovec_MAX pairs type fid offset =
     (if pairs = [] then Ok (True, 0, [], 0, [], 0, 0)
      else case PairLoop type fid 0 pairs offset (encoder_new iovec_MAX) of
          Ok (accepted, k, st) \<Rightarrow>
            (let st' = PadRecord st in
             Ok (accepted, number_to_write st', iovec_list st', record_count st', local_buffers st',
                 if incomplete_nv_write st then nv_pair_bytes_placed st else 0, k))
        | Throw e \<Rightarrow> Throw e
        | Terminate \<Rightarrow> Terminate | Blocked \<Rightarrow> Blocked | Diverge \<Rightarrow> Diverge | Undefined \<Rightarrow> Undefined)"

definition EncodeNVPairSingleRecordFailure :: "encoded \<Rightarrow> nat \<Rightarrow> bool" where
  "EncodeNVPairSingleRecordFailure result end_iter =
     (case result of (accepted, _, _, records, _, offset, iter) \<Rightarrow>
        \<not> accepted \<or> records \<noteq> 1 \<or> offset \<noteq> 0 \<or> iter \<noteq> end_iter)"


end
