(* ===== verification/Pair_Encoder_Correct.thy ===== *)
theory Pair_Encoder_Correct
  imports Pair_Encoder
begin

text \<open>
  The correctness of \<open>EncodeNameValuePairs\<close>: the bytes that the list of \<open>struct iovec\<close> denotes are
  complete records whose content is the next part of the name-value stream of the pairs, which is
  given by a reference definition.
\<close>

section \<open>The reference\<close>

definition length_bytes :: "nat \<Rightarrow> bytes" where
  "length_bytes n = (if n < 128 then [of_nat n]
     else case EncodeFourByteLength (int n) of Inl e \<Rightarrow> [] | Inr bs \<Rightarrow> bs)"

fun pair_bytes :: "bytes \<times> bytes \<Rightarrow> bytes" where
  "pair_bytes (n, v) = length_bytes (length n) @ length_bytes (length v) @ n @ v"

fun encodable :: "bytes \<times> bytes \<Rightarrow> bool" where
  "encodable (n, v) \<longleftrightarrow> length n < 2 ^ 31 \<and> length v < 2 ^ 31"

abbreviation pair_stream :: "(bytes \<times> bytes) list \<Rightarrow> bytes" where
  "pair_stream ps \<equiv> concat (map pair_bytes ps)"

lemma length_bytes_enc: "n < 2 ^ 31 \<Longrightarrow> len_enc n (length_bytes n)"
  using EncodeFourByteLength_len_enc [of "int n"] len_short [of "of_nat n"]
  by (auto simp: length_bytes_def unsigned_of_nat take_bit_eq_mod)

lemma pair_stream_nv: "list_all encodable ps \<Longrightarrow> nv_stream (pair_stream ps) ps"
proof (induction ps)
  case (Cons p ps)
  then show ?case
    using nv_Cons [OF length_bytes_enc [of "length (fst p)"] length_bytes_enc [of "length (snd p)"], of "pair_stream ps" ps]
    by (cases p) simp
qed (simp add: nv_Nil)

lemma length_length_bytes: "0 < length (length_bytes n)" "length (length_bytes n) \<le> 4"
  by (auto simp: length_bytes_def EncodeFourByteLength_def)

lemma LengthLoop_pair:
  "LengthLoop [n, v] 0 L =
     (if n < 2 ^ 31 \<and> v < 2 ^ 31
      then Inr (False, length (length_bytes n @ length_bytes v), L @ length_bytes n @ length_bytes v)
      else if n < 2 ^ 31 then Inr (True, length (length_bytes n), L @ length_bytes n)
      else Inr (True, 0, L))"
  by (auto simp: length_bytes_def EncodeFourByteLength_def)

section \<open>What the list denotes\<close>

fun pair_iov_bytes :: "(bytes \<times> bytes) list \<Rightarrow> bytes \<Rightarrow> pair_iovec \<Rightarrow> bytes" where
  "pair_iov_bytes ps L (Local_buffer i, n) = take n (drop i L)"
| "pair_iov_bytes ps L (Name k i, n) = take n (drop i (fst (ps ! k)))"
| "pair_iov_bytes ps L (Value k i, n) = take n (drop i (snd (ps ! k)))"

fun pair_iov_ok :: "(bytes \<times> bytes) list \<Rightarrow> bytes \<Rightarrow> pair_iovec \<Rightarrow> bool" where
  "pair_iov_ok ps L (Local_buffer i, n) \<longleftrightarrow> i + n \<le> length L"
| "pair_iov_ok ps L (Name k i, n) \<longleftrightarrow> k < length ps \<and> i + n \<le> length (fst (ps ! k))"
| "pair_iov_ok ps L (Value k i, n) \<longleftrightarrow> k < length ps \<and> i + n \<le> length (snd (ps ! k))"

definition gather_pairs :: "(bytes \<times> bytes) list \<Rightarrow> bytes \<Rightarrow> pair_iovec list \<Rightarrow> bytes" where
  "gather_pairs ps L iovs = concat (map (pair_iov_bytes ps L) iovs)"

lemma gather_pairs_simps [simp]:
  "gather_pairs ps L [] = []"
  "gather_pairs ps L (v # vs) = pair_iov_bytes ps L v @ gather_pairs ps L vs"
  "gather_pairs ps L (vs @ ws) = gather_pairs ps L vs @ gather_pairs ps L ws"
  by (simp_all add: gather_pairs_def)

lemma pair_iov_length: "pair_iov_ok ps L v \<Longrightarrow> length (pair_iov_bytes ps L v) = snd v"
  by (cases "(ps, L, v)" rule: pair_iov_ok.cases) auto

lemma gather_pairs_length:
  "list_all (pair_iov_ok ps L) vs \<Longrightarrow> length (gather_pairs ps L vs) = sum_list (map snd vs)"
  by (induction vs) (auto simp: pair_iov_length)

text \<open>
  The vector changes at its end, where it grows, and in the header of the last record, from which the
  other entries keep clear.
\<close>

fun clear_of :: "nat \<Rightarrow> pair_iovec \<Rightarrow> bool" where
  "clear_of h (Local_buffer i, n) \<longleftrightarrow> i + n \<le> h \<or> h + 8 \<le> i"
| "clear_of h _ \<longleftrightarrow> True"

definition same_but :: "nat \<Rightarrow> bytes \<Rightarrow> bytes \<Rightarrow> bool" where
  "same_but h L L' \<longleftrightarrow> length L \<le> length L'
     \<and> (\<forall>i < length L. i < h \<or> h + 8 \<le> i \<longrightarrow> L' ! i = L ! i)"

lemma same_but_append [simp]: "same_but h L (L @ bs)"
  by (simp add: same_but_def nth_append)

lemma same_but_update: "same_but h L L' \<Longrightarrow> h \<le> i \<Longrightarrow> i < h + 8 \<Longrightarrow> same_but h L (L'[i := b])"
  by (auto simp: same_but_def nth_list_update)

lemma same_but_slice:
  assumes "same_but h L L'" and "i + n \<le> length L" and "i + n \<le> h \<or> h + 8 \<le> i"
  shows "take n (drop i L') = take n (drop i L)"
  by (rule nth_equalityI) (use assms in \<open>auto simp: same_but_def\<close>)

lemma clear_bytes:
  "same_but h L L' \<Longrightarrow> pair_iov_ok ps L v \<Longrightarrow> clear_of h v \<Longrightarrow>
     pair_iov_bytes ps L' v = pair_iov_bytes ps L v"
  by (cases "(ps, L, v)" rule: pair_iov_ok.cases) (auto intro: same_but_slice)

lemma clear_gather:
  "same_but h L L' \<Longrightarrow> list_all (pair_iov_ok ps L) vs \<Longrightarrow> list_all (clear_of h) vs \<Longrightarrow>
     gather_pairs ps L' vs = gather_pairs ps L vs"
  by (induction vs) (auto simp: clear_bytes)

lemma ok_longer: "length L \<le> length L' \<Longrightarrow> pair_iov_ok ps L v \<Longrightarrow> pair_iov_ok ps L' v"
  by (cases "(ps, L, v)" rule: pair_iov_ok.cases) auto

lemma all_ok_longer:
  "length L \<le> length L' \<Longrightarrow> list_all (pair_iov_ok ps L) vs \<Longrightarrow> list_all (pair_iov_ok ps L') vs"
  by (auto simp: list_all_iff ok_longer)

section \<open>The state between two steps\<close>

text \<open>
  The records of the contents \<open>cs\<close> are finished, and all are full; in the open state a further record
  with the content \<open>c\<close> has been begun.
\<close>

definition full :: "bytes list \<Rightarrow> bool" where
  "full cs \<longleftrightarrow> (\<forall>c \<in> set cs. length c = 65528)"

definition closed :: "(bytes \<times> bytes) list \<Rightarrow> FcgiType \<Rightarrow> u16 \<Rightarrow> encoder \<Rightarrow> bytes list \<Rightarrow> bool" where
  "closed ps type fid st cs \<longleftrightarrow> previous_content_length st = 0 \<and> record_count st = length cs \<and> full cs
     \<and> gather_pairs ps (local_buffers st) (iovec_list st) = concat (map (record_bytes type fid) cs)"

definition opened :: "(bytes \<times> bytes) list \<Rightarrow> FcgiType \<Rightarrow> u16 \<Rightarrow> encoder \<Rightarrow> bytes list \<Rightarrow> bytes \<Rightarrow> bool" where
  "opened ps type fid st cs c \<longleftrightarrow> previous_content_length st = length c \<and> length c \<le> 65528
     \<and> record_count st = length cs + 1 \<and> full cs
     \<and> (let h = previous_header_offset st; L = local_buffers st in
         h + 8 \<le> length L \<and> take 8 (drop h L) = PopulateHeader type fid (of_nat (length c)) 0
         \<and> (\<exists>I1 I2. iovec_list st = I1 @ (Local_buffer h, 8) # I2
              \<and> list_all (clear_of h) I1 \<and> list_all (clear_of h) I2
              \<and> gather_pairs ps L I1 = concat (map (record_bytes type fid) cs)
              \<and> gather_pairs ps L I2 = c))"

definition books :: "(bytes \<times> bytes) list \<Rightarrow> int \<Rightarrow> encoder \<Rightarrow> bool" where
  "books ps lim st \<longleftrightarrow> list_all (pair_iov_ok ps (local_buffers st)) (iovec_list st)
     \<and> int (length (iovec_list st)) + remaining_iovec_count st = lim - 1 \<and> 0 \<le> remaining_iovec_count st
     \<and> number_to_write st = sum_list (map snd (iovec_list st))
     \<and> number_to_write st + remaining_byte_count st = ssize_t_MAX - 7"

lemma full_record: "length c = 65528 \<Longrightarrow> record_bytes type fid c = PopulateHeader type fid (of_nat (length c)) 0 @ c"
  by (simp add: record_bytes_def padding_for_def)

lemma opened_full: "opened ps type fid st cs c \<Longrightarrow> length c = 65528 \<Longrightarrow>
    closed ps type fid (st\<lparr>previous_content_length := 0\<rparr>) (cs @ [c])"
  by (auto simp: opened_def closed_def Let_def full_def full_record)

lemma start_record:
  assumes "closed ps type fid st cs" and "books ps lim st"
      and "2 \<le> remaining_iovec_count st" and "9 \<le> remaining_byte_count st"
  shows "opened ps type fid (StartRecord type fid st) cs []" "books ps lim (StartRecord type fid st)"
proof -
  let ?L = "local_buffers st" and ?H = "PopulateHeader type fid 0 0"
  have L: "overwrite (?L @ replicate 8 0) (length ?L) ?H = ?L @ ?H" by (rule overwrite_at_end) simp
  have ok: "list_all (pair_iov_ok ps ?L) (iovec_list st)" using assms(2) by (simp add: books_def)
  have "clear_of (length ?L) v" if "pair_iov_ok ps ?L v" for v
    using that by (cases "(ps, ?L, v)" rule: pair_iov_ok.cases) auto
  then have clear: "list_all (clear_of (length ?L)) (iovec_list st)"
    using ok by (auto simp: list_all_iff)
  have "gather_pairs ps (?L @ ?H) (iovec_list st) = gather_pairs ps ?L (iovec_list st)"
    by (rule clear_gather [OF same_but_append ok clear])
  then have "\<exists>I1 I2. iovec_list st @ [(Local_buffer (length ?L), 8)] = I1 @ (Local_buffer (length ?L), 8) # I2
      \<and> list_all (clear_of (length ?L)) I1 \<and> list_all (clear_of (length ?L)) I2
      \<and> gather_pairs ps (?L @ ?H) I1 = concat (map (record_bytes type fid) cs)
      \<and> gather_pairs ps (?L @ ?H) I2 = []"
    using assms(1) clear
    by (intro exI [of _ "iovec_list st"] exI [of _ "[] :: pair_iovec list"]) (simp add: closed_def)
  then show "opened ps type fid (StartRecord type fid st) cs []"
    using assms(1) L by (simp add: opened_def closed_def StartRecord_def Let_def)
  show "books ps lim (StartRecord type fid st)"
    using assms(2-4) all_ok_longer [OF _ ok, of "?L @ ?H"] L by (simp add: books_def StartRecord_def)
qed

lemma content_length_bytes:
  assumes "n \<le> 65528"
  shows "(of_nat (drop_bit 8 n) :: byte) = hi8 (of_nat n)" "(of_nat n :: byte) = lo8 (of_nat n)"
proof -
  have "unat (of_nat n :: u16) = n" using assms by (simp add: unsigned_of_nat take_bit_eq_mod)
  then show "(of_nat (drop_bit 8 n) :: byte) = hi8 (of_nat n)" "(of_nat n :: byte) = lo8 (of_nat n)"
    by (simp_all add: word_unat_eq_iff unat_hi8 unat_lo8 unsigned_of_nat take_bit_eq_mod drop_bit_eq_div)
qed

lemma list_update_numeral: "(x # xs)[numeral k := y] = x # xs[pred_numeral k := y]"
  by (simp add: numeral_eq_Suc)

lemma header_update:
  assumes "h + 8 \<le> length L" and "take 8 (drop h L) = PopulateHeader type fid m 0" and "n \<le> 65528"
  shows "take 8 (drop h (L[h + 4 := of_nat (drop_bit 8 n), h + 5 := of_nat n])) =
     PopulateHeader type fid (of_nat n) 0"
proof -
  have "take 8 (drop h (L[h + 4 := a, h + 5 := b])) = (take 8 (drop h L))[4 := a, 5 := b]" for a b
    by (simp add: drop_update_swap take_update_swap)
  then show ?thesis
    by (simp only: assms(2) PopulateHeader_def content_length_bytes [OF assms(3)])
       (simp add: list_update_numeral)
qed

section \<open>Placing bytes\<close>

lemma opened_extend:
  assumes "opened ps type fid st cs c" and "books ps lim st"
      and "list_all (clear_of (previous_header_offset st)) X" and "list_all (pair_iov_ok ps (local_buffers st)) X"
      and "gather_pairs ps (local_buffers st) X = d" and "length c + length d \<le> 65528"
  shows "opened ps type fid (UpdateRecord (length d)
     (st\<lparr>iovec_list := iovec_list st @ X, remaining_iovec_count := r\<rparr>)) cs (c @ d)"
proof -
  let ?h = "previous_header_offset st" and ?L = "local_buffers st" and ?n = "length c + length d"
  let ?L' = "?L[?h + 4 := of_nat (drop_bit 8 ?n), ?h + 5 := of_nat ?n]"
  obtain I1 I2 where o: "?h + 8 \<le> length ?L" "take 8 (drop ?h ?L) = PopulateHeader type fid (of_nat (length c)) 0"
      "iovec_list st = I1 @ (Local_buffer ?h, 8) # I2" "list_all (clear_of ?h) I1" "list_all (clear_of ?h) I2"
      "gather_pairs ps ?L I1 = concat (map (record_bytes type fid) cs)" "gather_pairs ps ?L I2 = c"
    using assms(1) unfolding opened_def Let_def by (elim conjE exE)
  have same: "same_but ?h ?L ?L'" by (intro same_but_update) (simp_all add: same_but_def)
  have ok: "list_all (pair_iov_ok ps ?L) I1" "list_all (pair_iov_ok ps ?L) I2"
    using assms(2) o(3) by (simp_all add: books_def)
  have "gather_pairs ps ?L' I1 = concat (map (record_bytes type fid) cs)" "gather_pairs ps ?L' (I2 @ X) = c @ d"
    using clear_gather [OF same ok(1) o(4)] clear_gather [OF same ok(2) o(5)]
      clear_gather [OF same assms(4,3)] o(6,7) assms(5) by simp_all
  then have ex: "\<exists>J1 J2. iovec_list st @ X = J1 @ (Local_buffer ?h, 8) # J2
      \<and> list_all (clear_of ?h) J1 \<and> list_all (clear_of ?h) J2
      \<and> gather_pairs ps ?L' J1 = concat (map (record_bytes type fid) cs)
      \<and> gather_pairs ps ?L' J2 = c @ d"
    using o(3-5) assms(3) by (intro exI [of _ I1] exI [of _ "I2 @ X"]) simp
  have "take 8 (drop ?h ?L') = PopulateHeader type fid (of_nat ?n) 0"
    by (rule header_update [OF o(1,2) assms(6)])
  then show ?thesis
    using assms(1,6) o(1) ex by (simp add: opened_def UpdateRecord_def Let_def)
qed

text \<open>
  The place of the lengths of the pair in the vector, away from the header of the record that is open.
\<close>

definition lengths_at :: "bytes \<Rightarrow> nat \<Rightarrow> encoder \<Rightarrow> bool" where
  "lengths_at lens b st \<longleftrightarrow> b + length lens \<le> length (local_buffers st)
     \<and> take (length lens) (drop b (local_buffers st)) = lens"

abbreviation lens_of :: "bytes \<Rightarrow> bytes \<Rightarrow> bytes" where
  "lens_of n v \<equiv> length_bytes (length n) @ length_bytes (length v)"

abbreviation sizes_of :: "bytes \<Rightarrow> bytes \<Rightarrow> nat list" where
  "sizes_of n v \<equiv> [length (lens_of n v), length n, length v]"

abbreviation sums_of :: "bytes \<Rightarrow> bytes \<Rightarrow> nat list" where
  "sums_of n v \<equiv> [0, length (lens_of n v), length n + length (lens_of n v)]"

lemma place_step:
  assumes pair: "k < length ps" "ps ! k = (n, v)" and st: "opened ps type fid st cs c" "books ps lim st"
      and at: "lengths_at (lens_of n v) b st" "clear_of (previous_header_offset st) (Local_buffer b, length (lens_of n v))"
      and i: "i < 3" "sums_of n v ! i \<le> nv_pair_bytes_placed st"
        "nv_pair_bytes_placed st + m \<le> sums_of n v ! i + sizes_of n v ! i"
      and m: "length c + m \<le> 65528" "1 \<le> remaining_iovec_count st" "m \<le> remaining_byte_count st"
  defines "st' \<equiv> UpdateRecord m (PlaceIovec k (sizes_of n v) (sums_of n v) b i m st)"
    and "d \<equiv> take m (drop (nv_pair_bytes_placed st) (pair_bytes (n, v)))"
  shows "opened ps type fid st' cs (c @ d)" "books ps lim st'" "length d = m"
    "lengths_at (lens_of n v) b st'" "nv_pair_bytes_placed st' = nv_pair_bytes_placed st + m"
    "previous_header_offset st' = previous_header_offset st" "incomplete_nv_write st' = incomplete_nv_write st"
    "length (local_buffers st') = length (local_buffers st)"
    "remaining_byte_count st' = remaining_byte_count st - m" "previous_content_length st' = length c + m"
proof -
  let ?L = "local_buffers st" and ?p = "nv_pair_bytes_placed st" and ?h = "previous_header_offset st"
  let ?o = "?p - sums_of n v ! i"
  let ?v = "if i = 0 then (Local_buffer (b + ?p), m) else if i = 1 then (Name k ?o, m) else (Value k ?o, m)"
  let ?X = "if i = 0 \<or> m \<noteq> 0 then [?v] else []"
  let ?r = "if i = 0 \<or> m \<noteq> 0 then remaining_iovec_count st - 1 else remaining_iovec_count st"
  have three: "i = 0 \<or> i = 1 \<or> i = 2" using i(1) by auto
  have L: "b + length (lens_of n v) \<le> length ?L" "take (length (lens_of n v)) (drop b ?L) = lens_of n v"
    using at(1) by (simp_all add: lengths_at_def)
  have h8: "?h + 8 \<le> length ?L" using st(1) by (simp add: opened_def Let_def)
  show len: "length d = m" using three i(2,3) unfolding d_def by auto
  have piece: "take m (drop (b + ?p) ?L) = d" if "i = 0"
  proof -
    have p: "?p + m \<le> length (lens_of n v)" using i(3) that by simp
    have "take m (drop ?p (lens_of n v)) = take m (drop ?p (take (length (lens_of n v)) (drop b ?L)))"
      by (simp only: L(2))
    also have "\<dots> = take m (drop (b + ?p) ?L)" using p by (simp add: drop_take min_def add.commute)
    finally have q: "take m (drop (b + ?p) ?L) = take m (drop ?p (lens_of n v))" ..
    have "d = take m (drop ?p (lens_of n v @ n @ v))" by (simp add: d_def)
    also have "\<dots> = take m (drop ?p (lens_of n v))" using p by (simp del: append_assoc)
    finally show ?thesis using q by simp
  qed
  have gather: "gather_pairs ps ?L ?X = d"
  proof -
    consider (zero) "i = 0" | (one) "i = 1" | (two) "i = 2" using three by blast
    then show ?thesis
    proof cases
      case zero
      then show ?thesis using piece by simp
    next
      case one
      then have "d = take m (drop ?o n)" using i(2,3) unfolding d_def
        by (simp add: drop_all take_append)
      then show ?thesis using one pair len by auto
    next
      case two
      then have "d = take m (drop ?o v)" using i(2,3) unfolding d_def
        by (simp add: drop_all take_append) (simp add: diff_diff_eq add.commute)
      then show ?thesis using two pair len by auto
    qed
  qed
  have ok: "list_all (pair_iov_ok ps ?L) ?X" using three i(2,3) L(1) pair by auto
  have clear: "list_all (clear_of ?h) ?X" using three i(2,3) at(2) by auto
  have place: "PlaceIovec k (sizes_of n v) (sums_of n v) b i m st
      = st\<lparr>iovec_list := iovec_list st @ ?X, remaining_iovec_count := ?r\<rparr>"
    by (simp add: PlaceIovec_def Let_def)
  have st': "st' = UpdateRecord (length d) (st\<lparr>iovec_list := iovec_list st @ ?X, remaining_iovec_count := ?r\<rparr>)"
    unfolding st'_def place len ..
  show "opened ps type fid st' cs (c @ d)"
    unfolding st' by (rule opened_extend [OF st clear ok gather]) (simp add: len m(1))
  show "books ps lim st'"
    using st(2) ok m(2,3) len all_ok_longer [of ?L "local_buffers st'" ps] unfolding st'
    by (auto simp: books_def UpdateRecord_def Let_def)
  show "nv_pair_bytes_placed st' = ?p + m" "previous_header_offset st' = ?h"
      "incomplete_nv_write st' = incomplete_nv_write st" and same: "length (local_buffers st') = length ?L"
    by (simp_all add: st' UpdateRecord_def Let_def len)
  show "remaining_byte_count st' = remaining_byte_count st - m" "previous_content_length st' = length c + m"
    using st(1) by (simp_all add: st' UpdateRecord_def Let_def len opened_def)
  have "same_but ?h ?L (local_buffers st')"
    unfolding st' UpdateRecord_def Let_def
    by (simp, intro same_but_update) (simp_all add: same_but_def)
  from same_but_slice [OF this L(1)] at(2) have
      "take (length (lens_of n v)) (drop b (local_buffers st')) = take (length (lens_of n v)) (drop b ?L)"
    by simp
  then show "lengths_at (lens_of n v) b st'" using L same unfolding lengths_at_def by metis
qed

declare pair_bytes.simps [simp del]

text \<open>
  What a run of the loop over the buffers leaves: the bytes \<open>d\<close> that follow those placed before have been
  placed, and a limit is reached, or the record is full, or all bytes of the pair are placed.
\<close>

abbreviation enough :: "encoder \<Rightarrow> bool" where
  "enough st \<equiv> 1 \<le> remaining_iovec_count st \<and> 1 \<le> remaining_byte_count st"

definition placed_on ::
  "(bytes \<times> bytes) list \<Rightarrow> FcgiType \<Rightarrow> u16 \<Rightarrow> int \<Rightarrow> bytes \<times> bytes \<Rightarrow> nat \<Rightarrow> encoder \<Rightarrow> bytes list \<Rightarrow> bytes
     \<Rightarrow> encoder \<Rightarrow> nat \<Rightarrow> bool \<Rightarrow> bool"
where
  "placed_on ps type fid lim p b st cs c st' remaining' limit \<longleftrightarrow>
     (let placed = nv_pair_bytes_placed st; placed' = nv_pair_bytes_placed st';
          d = take (placed' - placed) (drop placed (pair_bytes p)) in
      placed \<le> placed' \<and> placed' \<le> length (pair_bytes p) \<and> remaining' = length (pair_bytes p) - placed'
      \<and> books ps lim st' \<and> lengths_at (lens_of (fst p) (snd p)) b st'
      \<and> previous_header_offset st' = previous_header_offset st
      \<and> (if limit then opened ps type fid st' cs (c @ d) \<and> \<not> enough st'
            \<and> (incomplete_nv_write st' \<longleftrightarrow> placed' < length (pair_bytes p))
         else enough st' \<and> \<not> incomplete_nv_write st'
            \<and> (closed ps type fid st' (cs @ [c @ d])
               \<or> opened ps type fid st' cs (c @ d) \<and> length (c @ d) < 65528 \<and> placed' = length (pair_bytes p))))"

lemma placed_on_trans:
  assumes "placed_on ps type fid lim p b st1 cs (c @ d) st' remaining' limit"
      and "d = take m (drop (nv_pair_bytes_placed st) (pair_bytes p))"
      and "nv_pair_bytes_placed st1 = nv_pair_bytes_placed st + m"
      and "previous_header_offset st1 = previous_header_offset st"
  shows "placed_on ps type fid lim p b st cs c st' remaining' limit"
proof -
  let ?p = "nv_pair_bytes_placed st" and ?p' = "nv_pair_bytes_placed st'"
  have "?p + m \<le> ?p'" using assms(1,3) by (simp add: placed_on_def Let_def)
  then have "?p' - ?p = m + (?p' - (?p + m))" by simp
  then have "take (?p' - ?p) (drop ?p (pair_bytes p)) = d @ take (?p' - (?p + m)) (drop (?p + m) (pair_bytes p))"
    unfolding assms(2) by (metis take_add drop_drop add.commute)
  then show ?thesis using assms(1,3,4) by (cases limit) (simp_all add: placed_on_def Let_def del: length_append length_take)
qed

lemma buffer_loop:
  assumes pair: "k < length ps" "ps ! k = (n, v)"
      and st: "opened ps type fid st cs c" "books ps lim st" "length c < 65528" "enough st" "\<not> incomplete_nv_write st"
      and at: "lengths_at (lens_of n v) b st" "clear_of (previous_header_offset st) (Local_buffer b, length (lens_of n v))"
      and i: "i \<le> 3" "(sums_of n v @ [length (pair_bytes (n, v))]) ! i \<le> nv_pair_bytes_placed st"
        "i < 3 \<Longrightarrow> nv_pair_bytes_placed st \<le> sums_of n v ! i + sizes_of n v ! i"
        "i = 3 \<Longrightarrow> nv_pair_bytes_placed st = length (pair_bytes (n, v))"
      and run: "BufferLoop k (sizes_of n v) (sums_of n v) b (length (pair_bytes (n, v))) [i ..< 3] st
          (length (pair_bytes (n, v)) - nv_pair_bytes_placed st) = (st', remaining', limit)"
  shows "placed_on ps type fid lim (n, v) b st cs c st' remaining' limit
    \<and> (i < 3 \<and> nv_pair_bytes_placed st < sums_of n v ! i + sizes_of n v ! i \<longrightarrow>
        nv_pair_bytes_placed st < nv_pair_bytes_placed st')"
  using st at i run
proof (induction "3 - i" arbitrary: i st c)
  case 0
  then have "i = 3" by simp
  then show ?case using 0 by (auto simp: placed_on_def Let_def)
next
  case (Suc j)
  have i3: "i < 3" using Suc.hyps(2) by simp
  define placed sum size all where "placed = nv_pair_bytes_placed st" and "sum = sums_of n v ! i"
    and "size = sizes_of n v ! i" and "all = length (pair_bytes (n, v))"
  have sizes: "sum \<le> placed" "placed \<le> sum + size" "sum + size \<le> all"
      "sum + size = (sums_of n v @ [all]) ! Suc i"
    using Suc.prems(9,10) i3 unfolding placed_def sum_def size_def all_def
    by (auto simp: less_Suc_eq numeral_3_eq_3 pair_bytes.simps)
  have pcl: "previous_content_length st = length c" using Suc.prems(1) by (simp add: opened_def)
  define m where "m = min (size - (placed - sum)) (min (all - placed) (min (remaining_byte_count st) (65528 - length c)))"
  have m: "m \<le> size - (placed - sum)" "m \<le> all - placed" "m \<le> remaining_byte_count st" "m \<le> 65528 - length c"
    unfolding m_def by (simp_all only: min_le_iff_disj order_refl simp_thms)
  have m_eq: "m = size - (placed - sum) \<or> m = remaining_byte_count st \<or> m = 65528 - length c"
    using sizes unfolding m_def by (auto simp: min_def)
  let ?d = "take m (drop placed (pair_bytes (n, v)))"
  define st1 where "st1 = UpdateRecord m (PlaceIovec k (sizes_of n v) (sums_of n v) b i m st)"
  have within: "placed + m \<le> sum + size" "length c + m \<le> 65528" using m sizes Suc.prems(3) by simp_all
  have e: "1 \<le> remaining_iovec_count st" using Suc.prems(4) by simp
  note step = place_step [OF pair Suc.prems(1,2,6,7) i3 sizes(1) [unfolded sum_def placed_def]
      within(1) [unfolded sum_def placed_def size_def] within(2) e m(3),
      folded st1_def placed_def]
  have progress: "0 < m" if "placed < sum + size"
    using that Suc.prems(3,4) sizes m_eq unfolding m_def by auto
  have nonneg: "0 \<le> remaining_iovec_count st1" using step(2) by (simp add: books_def)
  have rest: "all - placed - m = all - nv_pair_bytes_placed st1" using step(5) by simp
  have run: "(if remaining_iovec_count st1 = 0 \<or> remaining_byte_count st1 = 0
      then (st1\<lparr>incomplete_nv_write := incomplete_nv_write st1 \<or> nv_pair_bytes_placed st1 < all\<rparr>,
            all - nv_pair_bytes_placed st1, True)
      else if previous_content_length st1 = 65528
      then (st1\<lparr>previous_content_length := 0\<rparr>, all - nv_pair_bytes_placed st1, False)
      else BufferLoop k (sizes_of n v) (sums_of n v) b all [Suc i ..< 3] st1
             (all - nv_pair_bytes_placed st1)) = (st', remaining', limit)"
    using Suc.prems(12) unfolding upt_conv_Cons [OF i3] BufferLoop.simps Let_def pcl
      sum_def [symmetric] size_def [symmetric] all_def [symmetric] placed_def [symmetric] m_def [symmetric]
      st1_def [symmetric] rest .
  have bounds: "nv_pair_bytes_placed st1 \<le> all" using step(5) within(1) sizes(3) by simp
  have goal: "placed_on ps type fid lim (n, v) b st cs c st' remaining' limit \<Longrightarrow>
      placed + m \<le> nv_pair_bytes_placed st' \<Longrightarrow> ?case"
    using progress unfolding placed_def sum_def size_def by fastforce
  show ?case
  proof (cases "remaining_iovec_count st1 = 0 \<or> remaining_byte_count st1 = 0")
    case True
    then have r: "st' = st1\<lparr>incomplete_nv_write := incomplete_nv_write st1 \<or> nv_pair_bytes_placed st1 < all\<rparr>"
        "remaining' = all - nv_pair_bytes_placed st1" "limit"
      using run by simp_all
    have "opened ps type fid st' cs (c @ ?d)" "books ps lim st'" "lengths_at (lens_of n v) b st'"
      using step(1,2,4) by (simp_all add: r opened_def books_def lengths_at_def)
    moreover have "\<not> enough st'" using True by (auto simp: r)
    ultimately show ?thesis
      by (intro goal) (use step(5,6,7) bounds Suc.prems(5) r in
          \<open>simp_all add: placed_on_def Let_def all_def placed_def\<close>)
  next
    case more: False
    show ?thesis
    proof (cases "previous_content_length st1 = 65528")
      case True
      then have r: "st' = st1\<lparr>previous_content_length := 0\<rparr>"
          "remaining' = all - nv_pair_bytes_placed st1" "\<not> limit"
        using run more by simp_all
      have "closed ps type fid st' (cs @ [c @ ?d])"
        using opened_full [OF step(1)] step(3,10) True unfolding r by simp
      moreover have "books ps lim st'" "lengths_at (lens_of n v) b st'"
        using step(2,4) by (simp_all add: r books_def lengths_at_def)
      ultimately show ?thesis
        by (intro goal) (use more nonneg step(5,6,7) bounds Suc.prems(5) r in
            \<open>simp_all add: placed_on_def Let_def all_def placed_def\<close>)
    next
      case False
      have "m = size - (placed - sum)"
        using m_eq more False step(9,10) Suc.prems(3) by auto
      then have next_at: "nv_pair_bytes_placed st1 = sum + size" using step(5) sizes(1,2) by simp
      have loop: "BufferLoop k (sizes_of n v) (sums_of n v) b (length (pair_bytes (n, v))) [Suc i ..< 3] st1
          (length (pair_bytes (n, v)) - nv_pair_bytes_placed st1) = (st', remaining', limit)"
        using run more False unfolding all_def by simp
      have pos: "Suc i < 3 \<Longrightarrow> sum + size \<le> sums_of n v ! Suc i + sizes_of n v ! Suc i"
          "Suc i = 3 \<Longrightarrow> sum + size = length (pair_bytes (n, v))"
        using sizes(4) i3 unfolding all_def by (auto simp: less_Suc_eq numeral_3_eq_3 pair_bytes.simps)
      have prems: "j = 3 - Suc i" "length (c @ ?d) < 65528" "enough st1" "\<not> incomplete_nv_write st1"
          "clear_of (previous_header_offset st1) (Local_buffer b, length (lens_of n v))" "Suc i \<le> 3"
        subgoal using Suc.hyps(2) by simp
        subgoal using step(3,10) False within(2) by (simp del: length_take)
        subgoal using more nonneg by auto
        subgoal using step(7) Suc.prems(5) by simp
        subgoal using step(6) Suc.prems(7) by simp
        subgoal using i3 by simp
        done
      have at_next: "(sums_of n v @ [length (pair_bytes (n, v))]) ! Suc i \<le> nv_pair_bytes_placed st1"
        using sizes(4) unfolding next_at all_def by (simp del: nth_append)
      have on: "placed_on ps type fid lim (n, v) b st1 cs (c @ ?d) st' remaining' limit"
        by (rule conjunct1 [OF Suc.hyps(1) [OF prems(1) step(1,2) prems(2-4) step(4) prems(5,6) at_next
              pos [folded next_at] loop]])
      show ?thesis
      proof (rule goal)
        show "placed_on ps type fid lim (n, v) b st cs c st' remaining' limit"
          by (rule placed_on_trans [OF on _ step(5) [unfolded placed_def] step(6)]) (simp add: placed_def)
        show "placed + m \<le> nv_pair_bytes_placed st'"
          using on unfolding placed_on_def Let_def step(5) by (rule conjunct1)
      qed
    qed
  qed
qed

section \<open>The loops over records and pairs\<close>

lemma determine_index_place:
  fixes n v placed
  defines "i \<equiv> determine_index (sums_of n v) placed"
  assumes "placed < length (pair_bytes (n, v))"
  shows "i < 3" "sums_of n v ! i \<le> placed" "placed < sums_of n v ! i + sizes_of n v ! i"
  using assms(2) unfolding i_def determine_index_def by (auto simp: pair_bytes.simps)

text \<open>The state between two turns: the open record, if there is one, has content.\<close>

definition between ::
  "(bytes \<times> bytes) list \<Rightarrow> FcgiType \<Rightarrow> u16 \<Rightarrow> encoder \<Rightarrow> bytes list \<Rightarrow> bytes \<Rightarrow> bool"
where
  "between ps type fid st cs c \<longleftrightarrow> (if c = [] then closed ps type fid st cs
     else opened ps type fid st cs c \<and> (enough st \<longrightarrow> length c < 65528))"

definition limit_reached :: "encoder \<Rightarrow> bool" where
  "limit_reached st \<longleftrightarrow> remaining_iovec_count st \<le> 1 \<or> remaining_byte_count st \<le> 8"

lemma between_length: "between ps type fid st cs c \<Longrightarrow> previous_content_length st = length c"
  by (auto simp: between_def closed_def opened_def split: if_splits)

lemma lengths_at_start:
  assumes "lengths_at lens b st"
  shows "lengths_at lens b (StartRecord type fid st)"
    "clear_of (previous_header_offset (StartRecord type fid st)) (Local_buffer b, length lens)"
  using assms by (simp_all add: lengths_at_def StartRecord_def overwrite_at_end)

lemma record_begun:
  assumes "between ps type fid st cs c" and "books ps lim st" and "enough st" and "lengths_at lens b st"
      and "c \<noteq> [] \<longrightarrow> clear_of (previous_header_offset st) (Local_buffer b, length lens)"
      and "\<not> (previous_content_length st = 0
             \<and> \<not> (remaining_iovec_count st \<ge> 2 \<and> remaining_byte_count st \<ge> FCGI_HEADER_LEN + 1))"
  defines "st' \<equiv> if previous_content_length st = 0 then StartRecord type fid st else st"
  shows "opened ps type fid st' cs c" "books ps lim st'" "length c < 65528" "enough st'"
    "lengths_at lens b st'" "clear_of (previous_header_offset st') (Local_buffer b, length lens)"
    "nv_pair_bytes_placed st' = nv_pair_bytes_placed st" "incomplete_nv_write st' = incomplete_nv_write st"
proof -
  have "opened ps type fid st' cs c \<and> books ps lim st' \<and> length c < 65528 \<and> enough st'
      \<and> lengths_at lens b st' \<and> clear_of (previous_header_offset st') (Local_buffer b, length lens)"
  proof (cases "c = []")
    case True
    then have z: "st' = StartRecord type fid st" "2 \<le> remaining_iovec_count st" "9 \<le> remaining_byte_count st"
      using assms(6) between_length [OF assms(1)] by (simp_all add: st'_def)
    have "closed ps type fid st cs" using assms(1) True by (simp add: between_def)
    moreover have "enough (StartRecord type fid st)" using z(2,3) by (simp add: StartRecord_def)
    ultimately show ?thesis
      using start_record [OF _ assms(2) z(2,3)] lengths_at_start [OF assms(4)] True by (simp add: z(1))
  next
    case False
    then have "st' = st" using between_length [OF assms(1)] by (simp add: st'_def)
    then show ?thesis using assms(1-5) False by (simp add: between_def)
  qed
  then show "opened ps type fid st' cs c" "books ps lim st'" "length c < 65528" "enough st'"
    "lengths_at lens b st'" "clear_of (previous_header_offset st') (Local_buffer b, length lens)" by simp_all
  show "nv_pair_bytes_placed st' = nv_pair_bytes_placed st" "incomplete_nv_write st' = incomplete_nv_write st"
    by (simp_all add: st'_def StartRecord_def)
qed

lemma record_loop:
  assumes pair: "k < length ps" "ps ! k = (n, v)"
      and st: "between ps type fid st cs c" "books ps lim st" "enough st" "\<not> incomplete_nv_write st"
      and at: "lengths_at (lens_of n v) b st"
        "c \<noteq> [] \<longrightarrow> clear_of (previous_header_offset st) (Local_buffer b, length (lens_of n v))"
      and placed: "nv_pair_bytes_placed st \<le> length (pair_bytes (n, v))"
        "length (pair_bytes (n, v)) - nv_pair_bytes_placed st \<le> fuel"
  shows "\<exists>st' cs' c'. RecordLoop fuel type fid k (sizes_of n v) (sums_of n v) b (length (pair_bytes (n, v))) st
      (length (pair_bytes (n, v)) - nv_pair_bytes_placed st) = Some st'
    \<and> books ps lim st' \<and> between ps type fid st' cs' c'
    \<and> nv_pair_bytes_placed st \<le> nv_pair_bytes_placed st' \<and> nv_pair_bytes_placed st' \<le> length (pair_bytes (n, v))
    \<and> concat cs' @ c' = concat cs @ c @
        take (nv_pair_bytes_placed st' - nv_pair_bytes_placed st) (drop (nv_pair_bytes_placed st) (pair_bytes (n, v)))
    \<and> (incomplete_nv_write st' \<longleftrightarrow> nv_pair_bytes_placed st' < length (pair_bytes (n, v)))
    \<and> (incomplete_nv_write st' \<longrightarrow> limit_reached st')"
  using st at placed
proof (induction fuel arbitrary: st cs c)
  case 0
  then show ?case by (subst RecordLoop.simps) auto
next
  case (Suc fuel)
  let ?p = "pair_bytes (n, v)" and ?i = "determine_index (sums_of n v) (nv_pair_bytes_placed st)"
  show ?case
  proof (cases "nv_pair_bytes_placed st = length ?p")
    case True
    then show ?thesis using Suc.prems by (subst RecordLoop.simps) auto
  next
    case False
    then have less: "nv_pair_bytes_placed st < length ?p" using Suc.prems(7) by simp
    show ?thesis
    proof (cases "previous_content_length st = 0
        \<and> \<not> (remaining_iovec_count st \<ge> 2 \<and> remaining_byte_count st \<ge> FCGI_HEADER_LEN + 1)")
      case True
      let ?st = "st\<lparr>incomplete_nv_write := True\<rparr>"
      have "RecordLoop (Suc fuel) type fid k (sizes_of n v) (sums_of n v) b (length ?p) st
          (length ?p - nv_pair_bytes_placed st) = Some ?st"
        using less True by (subst RecordLoop.simps) simp
      moreover have "books ps lim ?st" "between ps type fid ?st cs c"
        using Suc.prems(1,2) by (cases "c = []"; simp add: books_def between_def closed_def opened_def)+
      moreover have "limit_reached ?st" using True by (auto simp: limit_reached_def)
      ultimately show ?thesis using less by (intro exI [of _ ?st] exI [of _ cs] exI [of _ c]) simp
    next
      case go: False
      define st0 where "st0 = (if previous_content_length st = 0 then StartRecord type fid st else st)"
      note begun = record_begun [OF Suc.prems(1-3,5,6) go, folded st0_def]
      obtain st1 remaining limit where loop: "BufferLoop k (sizes_of n v) (sums_of n v) b (length ?p) [?i ..< 3] st0
          (length ?p - nv_pair_bytes_placed st0) = (st1, remaining, limit)"
        by (metis prod_cases3)
      note ix = determine_index_place [OF less]
      have ix3: "?i \<le> 3" "(sums_of n v @ [length ?p]) ! ?i \<le> nv_pair_bytes_placed st0"
        using ix(1,2) unfolding nth_append by (simp_all add: begun(7))
      have ix4: "nv_pair_bytes_placed st0 \<le> sums_of n v ! ?i + sizes_of n v ! ?i" if "?i < 3"
        using less_imp_le [OF ix(3)] by (simp only: begun(7))
      have ix5: "nv_pair_bytes_placed st0 = length ?p" if "?i = 3" using that ix(1) by simp
      have inc: "\<not> incomplete_nv_write st0" using begun(8) Suc.prems(4) by simp
      from buffer_loop [OF pair begun(1-4) inc begun(5,6) ix3 ix4 ix5 loop]
      have on: "placed_on ps type fid lim (n, v) b st0 cs c st1 remaining limit"
          and progress: "nv_pair_bytes_placed st < nv_pair_bytes_placed st1"
        using ix(1,3) by (simp_all add: begun(7))
      let ?d = "take (nv_pair_bytes_placed st1 - nv_pair_bytes_placed st) (drop (nv_pair_bytes_placed st) ?p)"
      have r: "nv_pair_bytes_placed st1 \<le> length ?p" "remaining = length ?p - nv_pair_bytes_placed st1"
          "books ps lim st1" "lengths_at (lens_of n v) b st1"
          "clear_of (previous_header_offset st1) (Local_buffer b, length (lens_of n v))"
        using on begun(6) by (simp_all add: placed_on_def Let_def)
      have d: "?d \<noteq> []" using progress r(1) by simp
      have turn: "RecordLoop (Suc fuel) type fid k (sizes_of n v) (sums_of n v) b (length ?p) st
          (length ?p - nv_pair_bytes_placed st) = (if limit then Some st1
             else RecordLoop fuel type fid k (sizes_of n v) (sums_of n v) b (length ?p) st1
                    (length ?p - nv_pair_bytes_placed st1))"
        using less loop r(2) begun(7)
        by (subst RecordLoop.simps) (simp only: if_not_P [OF go] Let_def st0_def [symmetric], simp)
      show ?thesis
      proof (cases limit)
        case True
        then have l: "opened ps type fid st1 cs (c @ ?d)" "\<not> enough st1"
            "incomplete_nv_write st1 \<longleftrightarrow> nv_pair_bytes_placed st1 < length ?p"
          using on by (simp_all add: placed_on_def Let_def begun(7))
        then have "between ps type fid st1 cs (c @ ?d)" using d unfolding between_def by (auto simp del: length_take)
        moreover have "limit_reached st1" using l(2) by (auto simp: limit_reached_def)
        ultimately show ?thesis using turn True r(1,3) l(3) progress
          by (intro exI [of _ st1] exI [of _ cs] exI [of _ "c @ ?d"]) simp
      next
        case False
        then have l: "enough st1" "\<not> incomplete_nv_write st1"
            "closed ps type fid st1 (cs @ [c @ ?d]) \<or> opened ps type fid st1 cs (c @ ?d) \<and> length (c @ ?d) < 65528"
          using on by (auto simp: placed_on_def Let_def begun(7) simp del: length_take)
        obtain cs1 c1 where b1: "between ps type fid st1 cs1 c1" "concat cs1 @ c1 = concat cs @ c @ ?d"
        proof (rule disjE [OF l(3)])
          assume "closed ps type fid st1 (cs @ [c @ ?d])"
          then show thesis by (intro that [of "cs @ [c @ ?d]" "[]"]) (simp_all add: between_def)
        next
          assume "opened ps type fid st1 cs (c @ ?d) \<and> length (c @ ?d) < 65528"
          then show thesis using d by (intro that [of cs "c @ ?d"]) (simp_all add: between_def)
        qed
        have "length ?p - nv_pair_bytes_placed st1 \<le> fuel" using progress Suc.prems(8) by simp
        from Suc.IH [OF b1(1) r(3) l(1,2) r(4) impI [OF r(5)] r(1) this] obtain st' cs' c' where
            st': "RecordLoop fuel type fid k (sizes_of n v) (sums_of n v) b (length ?p) st1
                    (length ?p - nv_pair_bytes_placed st1) = Some st'"
            "books ps lim st'" "between ps type fid st' cs' c'"
            "nv_pair_bytes_placed st1 \<le> nv_pair_bytes_placed st'" "nv_pair_bytes_placed st' \<le> length ?p"
            "concat cs' @ c' = concat cs1 @ c1 @
               take (nv_pair_bytes_placed st' - nv_pair_bytes_placed st1) (drop (nv_pair_bytes_placed st1) ?p)"
            "incomplete_nv_write st' \<longleftrightarrow> nv_pair_bytes_placed st' < length ?p"
            "incomplete_nv_write st' \<longrightarrow> limit_reached st'"
          by (elim exE conjE)
        let ?m = "nv_pair_bytes_placed st1 - nv_pair_bytes_placed st"
        have "nv_pair_bytes_placed st' - nv_pair_bytes_placed st = ?m + (nv_pair_bytes_placed st' - nv_pair_bytes_placed st1)"
            "nv_pair_bytes_placed st1 = ?m + nv_pair_bytes_placed st"
          using progress st'(4) by simp_all
        then have "take (nv_pair_bytes_placed st' - nv_pair_bytes_placed st) (drop (nv_pair_bytes_placed st) ?p)
            = ?d @ take (nv_pair_bytes_placed st' - nv_pair_bytes_placed st1) (drop (nv_pair_bytes_placed st1) ?p)"
          by (metis take_add drop_drop)
        moreover have "concat cs' @ c' = (concat cs1 @ c1) @
               take (nv_pair_bytes_placed st' - nv_pair_bytes_placed st1) (drop (nv_pair_bytes_placed st1) ?p)"
          using st'(6) by simp
        ultimately show ?thesis using turn False st'(1-5,7,8) progress b1(2)
          by (intro exI [of _ st'] exI [of _ cs'] exI [of _ c']) simp
      qed
    qed
  qed
qed

text \<open>The vector grows by the lengths of a pair.\<close>

lemma lengths_added:
  fixes offset bs
  assumes "between ps type fid st cs c" and "books ps lim st"
  defines "st' \<equiv> st\<lparr>nv_pair_bytes_placed := offset, local_buffers := local_buffers st @ bs\<rparr>"
  shows "between ps type fid st' cs c" "books ps lim st'" "lengths_at bs (length (local_buffers st)) st'"
    "c \<noteq> [] \<longrightarrow> clear_of (previous_header_offset st') (Local_buffer (length (local_buffers st)), length bs)"
proof -
  let ?L = "local_buffers st" and ?h = "previous_header_offset st"
  have ok: "list_all (pair_iov_ok ps ?L) (iovec_list st)" using assms(2) by (simp add: books_def)
  have same: "gather_pairs ps (?L @ bs) I = gather_pairs ps ?L I" if "list_all (pair_iov_ok ps ?L) I" for I
  proof -
    have "pair_iov_bytes ps (?L @ bs) v = pair_iov_bytes ps ?L v" if "pair_iov_ok ps ?L v" for v
      using that by (cases "(ps, ?L, v)" rule: pair_iov_ok.cases) auto
    then show ?thesis using that by (induction I) auto
  qed
  show "between ps type fid st' cs c"
  proof (cases "c = []")
    case True
    then show ?thesis using assms(1) same [OF ok] by (simp add: between_def closed_def st'_def)
  next
    case False
    then have o: "opened ps type fid st cs c" "enough st \<longrightarrow> length c < 65528"
      using assms(1) by (simp_all add: between_def)
    then obtain I1 I2 where I: "?h + 8 \<le> length ?L" "iovec_list st = I1 @ (Local_buffer ?h, 8) # I2"
        "list_all (clear_of ?h) I1" "list_all (clear_of ?h) I2"
        "gather_pairs ps ?L I1 = concat (map (record_bytes type fid) cs)" "gather_pairs ps ?L I2 = c"
      unfolding opened_def Let_def by (elim conjE exE)
    have "list_all (pair_iov_ok ps ?L) I1" "list_all (pair_iov_ok ps ?L) I2" using ok I(2) by simp_all
    then have "\<exists>I1 I2. iovec_list st = I1 @ (Local_buffer ?h, 8) # I2
        \<and> list_all (clear_of ?h) I1 \<and> list_all (clear_of ?h) I2
        \<and> gather_pairs ps (?L @ bs) I1 = concat (map (record_bytes type fid) cs)
        \<and> gather_pairs ps (?L @ bs) I2 = c"
      using I by (intro exI [of _ I1] exI [of _ I2]) (simp add: same)
    then have "opened ps type fid st' cs c" using o(1) by (simp add: opened_def st'_def Let_def)
    then show ?thesis using False o(2) by (simp add: between_def st'_def)
  qed
  show "books ps lim st'" using assms(2) all_ok_longer [OF _ ok, of "?L @ bs"] by (simp add: books_def st'_def)
  show "lengths_at bs (length ?L) st'" by (simp add: lengths_at_def st'_def)
  show "c \<noteq> [] \<longrightarrow> clear_of (previous_header_offset st') (Local_buffer (length ?L), length bs)"
    using assms(1) by (auto simp: between_def opened_def st'_def Let_def split: if_splits)
qed

lemma between_placed:
  "between ps type fid st cs c \<Longrightarrow> between ps type fid (st\<lparr>nv_pair_bytes_placed := offset\<rparr>) cs c"
  "books ps lim st \<Longrightarrow> books ps lim (st\<lparr>nv_pair_bytes_placed := offset\<rparr>)"
  by (cases "c = []"; simp add: between_def closed_def opened_def) (simp add: books_def)

text \<open>The part of the stream that has been encoded when the loop over the pairs has come to a pair.\<close>

definition encoded_part :: "(bytes \<times> bytes) list \<Rightarrow> nat \<Rightarrow> nat \<Rightarrow> nat \<Rightarrow> nat \<Rightarrow> bytes" where
  "encoded_part ps k offset k' offset' =
     drop offset (pair_stream (take (k' - k) (drop k ps)) @ (if offset' = 0 then [] else take offset' (pair_bytes (ps ! k'))))"

lemma no_overflow:
  fixes n v s :: nat
  assumes "n < 2 ^ 31" and "v < 2 ^ 31" and "s \<le> 8"
  shows "\<not> (False \<or> n > size_t_MAX - s \<or> v > size_t_MAX - (n + s))"
proof -
  have sums: "n + s \<le> size_t_MAX" "v + (n + s) \<le> size_t_MAX" using assms by simp_all
  have "n \<le> size_t_MAX - s" by (rule add_le_imp_le_diff [OF sums(1)])
  moreover have "v \<le> size_t_MAX - (n + s)" by (rule add_le_imp_le_diff [OF sums(2)])
  ultimately show ?thesis by (simp only: not_less simp_thms de_Morgan_disj)
qed

lemma pair_loop:
  assumes "drop k ps = pairs" and "k \<le> length ps" and "between ps type fid st cs c" and "books ps lim st"
      and "\<not> incomplete_nv_write st" and "k < length ps \<longrightarrow> offset \<le> length (pair_bytes (ps ! k))"
  shows "\<exists>accepted k' st' cs' c'. PairLoop type fid k pairs offset st = Ok (accepted, k', st')
    \<and> books ps lim st' \<and> between ps type fid st' cs' c' \<and> k \<le> k' \<and> k' \<le> length ps
    \<and> concat cs' @ c' = concat cs @ c @
        encoded_part ps k offset k' (if incomplete_nv_write st' then nv_pair_bytes_placed st' else 0)
    \<and> (\<forall>i. k \<le> i \<and> i < k' \<longrightarrow> encodable (ps ! i))
    \<and> (if accepted then k' < length ps \<longrightarrow> limit_reached st'
       else k' < length ps \<and> \<not> encodable (ps ! k') \<and> \<not> incomplete_nv_write st')
    \<and> (incomplete_nv_write st' \<longrightarrow> k' < length ps \<and> encodable (ps ! k')
         \<and> nv_pair_bytes_placed st' < length (pair_bytes (ps ! k')))"
  using assms
proof (induction pairs arbitrary: k offset st cs c)
  case Nil
  then have "k = length ps" by simp
  then show ?case using Nil.prems(3-5)
    by (intro exI [of _ True] exI [of _ k] exI [of _ st] exI [of _ cs] exI [of _ c]) (auto simp: encoded_part_def)
next
  case (Cons p pairs)
  obtain n v where p: "p = (n, v)" by force
  have k: "k < length ps" using Cons.prems(1) by (cases "k < length ps") simp_all
  have psk: "ps ! k = (n, v)" "drop (Suc k) ps = pairs"
    using Cons_nth_drop_Suc [OF k] Cons.prems(1) p by simp_all
  have nonneg: "0 \<le> remaining_iovec_count st" using Cons.prems(4) by (simp add: books_def)
  have none: "encoded_part ps k offset k 0 = []" by (simp add: encoded_part_def)
  show ?case
  proof (cases "remaining_iovec_count st = 0 \<or> remaining_byte_count st = 0")
    case True
    then have "PairLoop type fid k (p # pairs) offset st = Ok (True, k, st)" by (simp add: p)
    moreover have "limit_reached st" using True by (auto simp: limit_reached_def)
    ultimately show ?thesis using Cons.prems(2-5) none
      by (intro exI [of _ True] exI [of _ k] exI [of _ st] exI [of _ cs] exI [of _ c]) auto
  next
    case go: False
    then have en: "enough st" using nonneg by auto
    let ?b = "length (local_buffers st)"
    show ?thesis
    proof (cases "encodable (n, v)")
      case False
      let ?st = "st\<lparr>nv_pair_bytes_placed := offset\<rparr>"
      have "PairLoop type fid k (p # pairs) offset st = Ok (False, k, ?st)"
        using go False unfolding p PairLoop.simps LengthLoop_pair by (auto simp: Let_def)
      then show ?thesis using Cons.prems(2,5) between_placed(1) [OF Cons.prems(3)]
          between_placed(2) [OF Cons.prems(4)] False k psk(1) none
        by (intro exI [of _ False] exI [of _ k] exI [of _ ?st] exI [of _ cs] exI [of _ c]) auto
    next
      case True
      let ?lens = "lens_of n v" and ?p = "pair_bytes (n, v)"
      let ?st = "st\<lparr>nv_pair_bytes_placed := offset, local_buffers := local_buffers st @ ?lens\<rparr>"
      note added = lengths_added [OF Cons.prems(3,4), where offset = offset and bs = ?lens]
      have len: "length v + (length n + length ?lens) = length ?p" by (simp add: pair_bytes.simps)
      have offset: "nv_pair_bytes_placed ?st \<le> length ?p" using Cons.prems(6) k psk(1) by simp
      have inc: "\<not> incomplete_nv_write ?st" using Cons.prems(5) by simp
      have en': "enough ?st" using en by simp
      from record_loop [OF k psk(1) added(1,2) en' inc added(3,4) offset order_refl]
      obtain st1 cs1 c1 where r: "RecordLoop (length ?p - offset) type fid k (sizes_of n v) (sums_of n v) ?b (length ?p)
            ?st (length ?p - offset) = Some st1"
          "books ps lim st1" "between ps type fid st1 cs1 c1" "offset \<le> nv_pair_bytes_placed st1"
          "nv_pair_bytes_placed st1 \<le> length ?p"
          "concat cs1 @ c1 = concat cs @ c @ take (nv_pair_bytes_placed st1 - offset) (drop offset ?p)"
          "incomplete_nv_write st1 \<longleftrightarrow> nv_pair_bytes_placed st1 < length ?p"
          "incomplete_nv_write st1 \<longrightarrow> limit_reached st1"
        by auto
      have small: "length ?lens \<le> 8"
        using length_length_bytes(2) [of "length n"] length_length_bytes(2) [of "length v"] by simp
      have run: "PairLoop type fid k (p # pairs) offset st =
          (if incomplete_nv_write st1 then Ok (True, k, st1) else PairLoop type fid (Suc k) pairs 0 st1)"
      proof -
        have "\<not> (False \<or> length n > size_t_MAX - length ?lens \<or> length v > size_t_MAX - (length n + length ?lens))"
          using True by (intro no_overflow small) simp_all
        moreover have "LengthLoop [length n, length v] 0 (local_buffers st)
            = Inr (False, length ?lens, local_buffers st @ ?lens)"
          using True unfolding LengthLoop_pair by simp
        ultimately show ?thesis using go r(1) unfolding p PairLoop.simps
          by (simp only: Let_def sum.case prod.case if_False len simp_thms option.case)
      qed
      show ?thesis
      proof (cases "incomplete_nv_write st1")
        case inc1: True
        have "take (nv_pair_bytes_placed st1 - offset) (drop offset ?p) = encoded_part ps k offset k (nv_pair_bytes_placed st1)"
          using r(4) by (auto simp: encoded_part_def psk(1) drop_take)
        then show ?thesis using inc1 run r True k psk(1)
          by (intro exI [of _ True] exI [of _ k] exI [of _ st1] exI [of _ cs1] exI [of _ c1]) auto
      next
        case False
        have all: "nv_pair_bytes_placed st1 = length ?p" using False r(5,7) by simp
        have "Suc k \<le> length ps" "Suc k < length ps \<longrightarrow> 0 \<le> length (pair_bytes (ps ! Suc k))" using k by simp_all
        from Cons.IH [OF psk(2) this(1) r(3,2) False this(2)] obtain accepted k' st' cs' c' where
            i: "PairLoop type fid (Suc k) pairs 0 st1 = Ok (accepted, k', st')"
            "books ps lim st'" "between ps type fid st' cs' c'" "Suc k \<le> k'" "k' \<le> length ps"
            "concat cs' @ c' = concat cs1 @ c1 @
               encoded_part ps (Suc k) 0 k' (if incomplete_nv_write st' then nv_pair_bytes_placed st' else 0)"
            "\<forall>i. Suc k \<le> i \<and> i < k' \<longrightarrow> encodable (ps ! i)"
            "if accepted then k' < length ps \<longrightarrow> limit_reached st'
             else k' < length ps \<and> \<not> encodable (ps ! k') \<and> \<not> incomplete_nv_write st'"
            "incomplete_nv_write st' \<longrightarrow> k' < length ps \<and> encodable (ps ! k')
               \<and> nv_pair_bytes_placed st' < length (pair_bytes (ps ! k'))"
          by (elim exE conjE)
        have "take (k' - k) (drop k ps) = (n, v) # take (k' - Suc k) pairs"
          using i(4) Cons.prems(1) p by (simp add: take_Cons' Suc_diff_le [symmetric])
        then have part: "encoded_part ps k offset k' o' = drop offset ?p @ encoded_part ps (Suc k) 0 k' o'" for o'
          using offset psk(2) by (simp add: encoded_part_def)
        have "concat cs' @ c' = concat cs @ c @
            encoded_part ps k offset k' (if incomplete_nv_write st' then nv_pair_bytes_placed st' else 0)"
          unfolding i(6) part using r(6) all by simp
        moreover have "\<forall>i. k \<le> i \<and> i < k' \<longrightarrow> encodable (ps ! i)"
          using i(7) True psk(1) by (metis le_neq_implies_less not_less_eq_eq Suc_leI)
        ultimately show ?thesis using run False i(1-5,8,9)
          by (intro exI [of _ accepted] exI [of _ k'] exI [of _ st'] exI [of _ cs'] exI [of _ c']) simp
      qed
    qed
  qed
qed

section \<open>The padding and the result\<close>

lemma header_pad:
  assumes "h + 8 \<le> length L" and "take 8 (drop h L) = PopulateHeader type fid m 0"
  shows "take 8 (drop h (L[h + 6 := q])) = PopulateHeader type fid m q"
proof -
  have "take 8 (drop h (L[h + 6 := q])) = (take 8 (drop h L))[6 := q]"
    by (simp add: drop_update_swap take_update_swap)
  then show ?thesis by (simp only: assms(2) PopulateHeader_def) (simp add: list_update_numeral)
qed

lemma pad_opened:
  assumes "opened ps type fid st cs c" and "books ps lim st" and "c \<noteq> []"
  defines "st' \<equiv> PadRecord st"
  shows "gather_pairs ps (local_buffers st') (iovec_list st') = concat (map (record_bytes type fid) (cs @ [c]))"
    "list_all (pair_iov_ok ps (local_buffers st')) (iovec_list st')"
proof -
  let ?h = "previous_header_offset st" and ?L = "local_buffers st" and ?q = "8 - length c mod 8"
  let ?L' = "(?L @ replicate ?q 0)[?h + 6 := of_nat ?q]"
  obtain I1 I2 where o: "?h + 8 \<le> length ?L" "take 8 (drop ?h ?L) = PopulateHeader type fid (of_nat (length c)) 0"
      "iovec_list st = I1 @ (Local_buffer ?h, 8) # I2" "list_all (clear_of ?h) I1" "list_all (clear_of ?h) I2"
      "gather_pairs ps ?L I1 = concat (map (record_bytes type fid) cs)" "gather_pairs ps ?L I2 = c"
    using assms(1) unfolding opened_def Let_def by (elim conjE exE)
  have ok: "list_all (pair_iov_ok ps ?L) (iovec_list st)" "list_all (pair_iov_ok ps ?L) I1" "list_all (pair_iov_ok ps ?L) I2"
    using assms(2) o(3) by (simp_all add: books_def)
  have pcl: "previous_content_length st = length c" using assms(1) by (simp add: opened_def)
  have "gather_pairs ps (local_buffers st') (iovec_list st') = concat (map (record_bytes type fid) (cs @ [c]))
      \<and> list_all (pair_iov_ok ps (local_buffers st')) (iovec_list st')"
  proof (cases "length c mod 8 = 0")
    case True
    then have "st' = st" by (simp add: st'_def PadRecord_def pcl)
    moreover have "record_bytes type fid c = PopulateHeader type fid (of_nat (length c)) 0 @ c"
      using True by (simp add: record_bytes_def padding_for_def)
    ultimately show ?thesis using o ok(1) by simp
  next
    case False
    have same: "same_but ?h ?L ?L'" by (intro same_but_update same_but_append) simp_all
    have L': "length ?L' = length ?L + ?q" by simp
    have "take 8 (drop ?h ?L') = PopulateHeader type fid (of_nat (length c)) (of_nat ?q)"
      by (rule header_pad) (use o(1,2) in simp_all)
    moreover have "take ?q (drop (length ?L) ?L') = replicate ?q 0"
      using o(1) by (simp add: list_update_append)
    moreover have "gather_pairs ps ?L' I1 = concat (map (record_bytes type fid) cs)" "gather_pairs ps ?L' I2 = c"
      using clear_gather [OF same ok(2) o(4)] clear_gather [OF same ok(3) o(5)] o(6,7) by simp_all
    moreover have "?q = padding_for (length c)" using False by (simp add: padding_for_def)
    ultimately have "gather_pairs ps ?L' (iovec_list st @ [(Local_buffer (length ?L), ?q)])
        = concat (map (record_bytes type fid) (cs @ [c]))"
      unfolding o(3) by (simp add: record_bytes_def)
    moreover have "list_all (pair_iov_ok ps ?L') (iovec_list st @ [(Local_buffer (length ?L), ?q)])"
      using all_ok_longer [OF _ ok(1), of ?L'] L' by simp
    moreover have "iovec_list st' = iovec_list st @ [(Local_buffer (length ?L), ?q)]" "local_buffers st' = ?L'"
      using False by (simp_all add: st'_def PadRecord_def Let_def pcl)
    ultimately show ?thesis by simp
  qed
  then show "gather_pairs ps (local_buffers st') (iovec_list st') = concat (map (record_bytes type fid) (cs @ [c]))"
    "list_all (pair_iov_ok ps (local_buffers st')) (iovec_list st')" by simp_all
qed

lemma pad_record:
  assumes "between ps type fid st cs c" and "books ps lim st"
  defines "st' \<equiv> PadRecord st" and "contents \<equiv> if c = [] then cs else cs @ [c]"
  shows "gather_pairs ps (local_buffers st') (iovec_list st') = concat (map (record_bytes type fid) contents)"
    "list_all (pair_iov_ok ps (local_buffers st')) (iovec_list st')" "record_count st' = length contents"
    "number_to_write st' = sum_list (map snd (iovec_list st'))" "number_to_write st' \<le> ssize_t_MAX"
    "int (length (iovec_list st')) \<le> lim"
    "limit_reached st \<Longrightarrow> lim - 2 \<le> int (length (iovec_list st')) \<or> ssize_t_MAX - 15 \<le> number_to_write st'"
proof -
  have pcl: "previous_content_length st = length c" by (rule between_length [OF assms(1)])
  have "gather_pairs ps (local_buffers st') (iovec_list st') = concat (map (record_bytes type fid) contents)
      \<and> list_all (pair_iov_ok ps (local_buffers st')) (iovec_list st') \<and> record_count st' = length contents"
  proof (cases "c = []")
    case True
    then have "st' = st" by (simp add: st'_def PadRecord_def pcl)
    then show ?thesis using assms(1,2) True by (simp add: between_def closed_def books_def contents_def)
  next
    case False
    then have o: "opened ps type fid st cs c" using assms(1) by (simp add: between_def)
    have "record_count st' = record_count st" by (simp add: st'_def PadRecord_def Let_def)
    then show ?thesis using pad_opened [OF o assms(2) False] False o
      by (simp add: st'_def contents_def opened_def)
  qed
  then show "gather_pairs ps (local_buffers st') (iovec_list st') = concat (map (record_bytes type fid) contents)"
    "list_all (pair_iov_ok ps (local_buffers st')) (iovec_list st')" "record_count st' = length contents" by simp_all
  have b: "int (length (iovec_list st)) + remaining_iovec_count st = lim - 1" "0 \<le> remaining_iovec_count st"
      "number_to_write st = sum_list (map snd (iovec_list st))"
      "number_to_write st + remaining_byte_count st = 9223372036854775800"
    using assms(2) by (simp_all add: books_def)
  let ?q = "if length c mod 8 = 0 then 0 else 8 - length c mod 8"
  have n: "number_to_write st' = number_to_write st + ?q"
    by (simp add: st'_def PadRecord_def pcl Let_def)
  have l: "length (iovec_list st') = length (iovec_list st) \<or> length (iovec_list st') = Suc (length (iovec_list st))"
    by (simp add: st'_def PadRecord_def pcl Let_def)
  have q: "?q \<le> 7" by (cases "length c mod 8") simp_all
  show "number_to_write st' = sum_list (map snd (iovec_list st'))"
    using b(3) by (simp add: st'_def PadRecord_def pcl Let_def)
  show "number_to_write st' \<le> ssize_t_MAX" using n q b(4) by linarith
  show "int (length (iovec_list st')) \<le> lim" using l b(1,2) by auto
  show "lim - 2 \<le> int (length (iovec_list st')) \<or> ssize_t_MAX - 15 \<le> number_to_write st'" if "limit_reached st"
  proof (cases "remaining_iovec_count st \<le> 1")
    case True
    then show ?thesis using l b(1) by auto
  next
    case False
    then have "remaining_byte_count st \<le> 8" using that by (simp add: limit_reached_def)
    then have "ssize_t_MAX - 15 \<le> number_to_write st'" using n b(4) by simp
    then show ?thesis ..
  qed
qed

lemma encoder_new_between:
  assumes "1 \<le> iovec_MAX \<or> iovec_MAX = - 1"
  shows "between ps type fid (encoder_new iovec_MAX) [] []"
    "books ps (int (iov_limit iovec_MAX)) (encoder_new iovec_MAX)" "\<not> incomplete_nv_write (encoder_new iovec_MAX)"
  using assms by (auto simp: between_def closed_def full_def books_def encoder_new_def iov_limit_def)

text \<open>
  C15. \<open>EncodeNameValuePairs\<close>, for a range of pairs of which the first \<open>offset\<close> bytes have been encoded
  by an earlier call, against the reference \<open>pair_stream\<close>, which the decoder accepts. The call
  returns. The bytes that its list of \<open>struct iovec\<close> denotes, all within their buffers, are
  complete records of the given type and identifier, as many as it says, none empty and all but the last
  of the maximal aligned length, and the concatenation of their contents is the stream from \<open>offset\<close> on up to
  the pair returned and the \<open>offset'\<close> bytes of it. The list and the number of bytes are within the limits of
  one call of \<open>writev\<close>, and the number is that of the bytes denoted. Pairs are left over only if a limit has
  been reached or the pair returned has a name or a value that is too long, which is what the
  returned flag says. If \<open>EncodeNVPairSingleRecordFailure\<close> reports no failure, all is in a single record.
\<close>

theorem EncodeNameValuePairs_correct:
  assumes "1 \<le> iovec_MAX \<or> iovec_MAX = - 1" and "pairs \<noteq> [] \<longrightarrow> offset \<le> length (pair_bytes (pairs ! 0))"
  shows "\<exists>accepted n iovs records L offset' k contents.
     EncodeNameValuePairs iovec_MAX pairs type fid offset = Ok (accepted, n, iovs, records, L, offset', k)
   \<and> gather_pairs pairs L iovs = concat (map (record_bytes type fid) contents)
   \<and> list_all (pair_iov_ok pairs L) iovs \<and> n = length (gather_pairs pairs L iovs)
   \<and> length iovs \<le> iov_limit iovec_MAX \<and> n \<le> ssize_t_MAX
   \<and> records = length contents \<and> [] \<notin> set contents \<and> (\<forall>c \<in> set contents. length c \<le> 65528)
   \<and> (\<forall>c \<in> set (butlast contents). length c = 65528)
   \<and> k \<le> length pairs \<and> concat contents = drop offset (pair_stream (take k pairs) @ take offset' (pair_bytes (pairs ! k)))
   \<and> nv_stream (pair_stream (take k pairs)) (take k pairs)
   \<and> (offset' \<noteq> 0 \<longrightarrow> k < length pairs \<and> encodable (pairs ! k) \<and> offset' < length (pair_bytes (pairs ! k)))
   \<and> (if accepted then k < length pairs \<longrightarrow>
          int (iov_limit iovec_MAX) - 2 \<le> int (length iovs) \<or> ssize_t_MAX - 15 \<le> n
      else k < length pairs \<and> \<not> encodable (pairs ! k) \<and> offset' = 0)
   \<and> (\<not> EncodeNVPairSingleRecordFailure (accepted, n, iovs, records, L, offset', k) (length pairs) \<longrightarrow>
        gather_pairs pairs L iovs = record_bytes type fid (drop offset (pair_stream pairs)))"
proof (cases "pairs = []")
  case True
  then show ?thesis
    by (intro exI [of _ True] exI [of _ 0] exI [of _ "[] :: pair_iovec list"] exI [of _ "[] :: bytes"] exI [of _ "[] :: bytes list"])
       (simp add: EncodeNameValuePairs_def EncodeNVPairSingleRecordFailure_def nv_Nil)
next
  case False
  note new = encoder_new_between [OF assms(1)]
  have "0 < length pairs \<longrightarrow> offset \<le> length (pair_bytes (pairs ! 0))" using assms(2) by simp
  from pair_loop [OF drop_0 le0 new(1)[of pairs type fid] new(2,3) this]
  obtain accepted k st cs c where r: "PairLoop type fid 0 pairs offset (encoder_new iovec_MAX) = Ok (accepted, k, st)"
      "books pairs (int (iov_limit iovec_MAX)) st" "between pairs type fid st cs c" "k \<le> length pairs"
      "concat cs @ c = encoded_part pairs 0 offset k (if incomplete_nv_write st then nv_pair_bytes_placed st else 0)"
      "\<forall>i. i < k \<longrightarrow> encodable (pairs ! i)"
      "if accepted then k < length pairs \<longrightarrow> limit_reached st
       else k < length pairs \<and> \<not> encodable (pairs ! k) \<and> \<not> incomplete_nv_write st"
      "incomplete_nv_write st \<longrightarrow> k < length pairs \<and> encodable (pairs ! k)
         \<and> nv_pair_bytes_placed st < length (pair_bytes (pairs ! k))"
    by auto
  let ?st = "PadRecord st" and ?contents = "if c = [] then cs else cs @ [c]"
  let ?offset = "if incomplete_nv_write st then nv_pair_bytes_placed st else 0"
  let ?r = "(accepted, number_to_write ?st, iovec_list ?st, record_count ?st, local_buffers ?st, ?offset, k)"
  note pad = pad_record [OF r(3,2)]
  have run: "EncodeNameValuePairs iovec_MAX pairs type fid offset = Ok ?r"
    using False r(1) by (simp add: EncodeNameValuePairs_def Let_def)
  have full: "full cs" and short: "length c \<le> 65528"
    using r(3) by (auto simp: between_def closed_def opened_def split: if_splits)
  have contents: "[] \<notin> set ?contents" "\<forall>c \<in> set ?contents. length c \<le> 65528"
      "\<forall>c \<in> set (butlast ?contents). length c = 65528" "concat ?contents = concat cs @ c"
    using full short by (auto simp: full_def dest: in_set_butlastD)
  have part: "concat ?contents = drop offset (pair_stream (take k pairs) @ take ?offset (pair_bytes (pairs ! k)))"
    unfolding contents(4) r(5) by (simp add: encoded_part_def)
  have "list_all encodable (take k pairs)" using r(4,6) by (auto simp: list_all_length)
  then have nv: "nv_stream (pair_stream (take k pairs)) (take k pairs)" by (rule pair_stream_nv)
  have single: "gather_pairs pairs (local_buffers ?st) (iovec_list ?st) = record_bytes type fid (drop offset (pair_stream pairs))"
    if "\<not> EncodeNVPairSingleRecordFailure ?r (length pairs)"
  proof -
    have e: "length ?contents = 1" "?offset = 0" "k = length pairs"
      using that pad(3) by (simp_all add: EncodeNVPairSingleRecordFailure_def)
    then obtain x where x: "?contents = [x]" by (cases ?contents) auto
    have "x = drop offset (pair_stream pairs)" using part unfolding x e(2) by (simp add: e(3))
    then show ?thesis using pad(1) unfolding x by simp
  qed
  have limit: "if accepted then k < length pairs \<longrightarrow>
          int (iov_limit iovec_MAX) - 2 \<le> int (length (iovec_list ?st)) \<or> ssize_t_MAX - 15 \<le> number_to_write ?st
      else k < length pairs \<and> \<not> encodable (pairs ! k) \<and> ?offset = 0"
  proof (cases accepted)
    case True
    then show ?thesis using r(7) pad(7) by metis
  next
    case False
    then show ?thesis using r(7) by simp
  qed
  have rest: "?offset \<noteq> 0 \<longrightarrow> k < length pairs \<and> encodable (pairs ! k) \<and> ?offset < length (pair_bytes (pairs ! k))"
    using r(8) by simp
  have number: "number_to_write ?st = length (gather_pairs pairs (local_buffers ?st) (iovec_list ?st))"
    using pad(4) gather_pairs_length [OF pad(2)] by simp
  have count: "length (iovec_list ?st) \<le> iov_limit iovec_MAX" using pad(6) by simp
  show ?thesis
    by (intro exI conjI, rule run, rule pad(1), rule pad(2), rule number, rule count, rule pad(5), rule pad(3),
        (rule contents)+, rule r(4), rule part, rule nv, rule rest, rule limit, rule impI, rule single)
qed

lemma RecordLoop_Suc: "RecordLoop (Suc m) type fid k size_array sums buffer_offset total_length st remaining =
     (if remaining = 0 then Some st
      else if previous_content_length st = 0
               \<and> \<not> (remaining_iovec_count st \<ge> 2 \<and> remaining_byte_count st \<ge> FCGI_HEADER_LEN + 1)
            then Some (st\<lparr>incomplete_nv_write := True\<rparr>)
            else let st' = (if previous_content_length st = 0 then StartRecord type fid st else st) in
              (case BufferLoop k size_array sums buffer_offset total_length
                      [determine_index sums (nv_pair_bytes_placed st') ..< 3] st' remaining of
                 (st'', remaining', padding_limit_reached) \<Rightarrow>
                   if padding_limit_reached then Some st''
                   else RecordLoop m type fid k size_array sums buffer_offset total_length st'' remaining'))"
  by (subst RecordLoop.simps) simp

lemma RecordLoop_none: "RecordLoop fuel type fid k size_array sums buffer_offset total_length st 0 = Some st"
  by (subst RecordLoop.simps) simp

lemma example_encoding:
  "EncodeNameValuePairs 1024 [([65, 66], [67])] kFCGI_PARAMS 1 0 =
   Ok (True, 16, [(Local_buffer 2, 8), (Local_buffer 0, 2), (Name 0 0, 2), (Value 0 0, 1), (Local_buffer 10, 3)], 1,
     [2, 1, 1, 4, 0, 1, 0, 5, 3, 0, 0, 0, 0], 0, 1)"
  by (simp add: EncodeNameValuePairs_def encoder_new_def RecordLoop_Suc RecordLoop_none
     Let_def determine_index_def StartRecord_def PlaceIovec_def UpdateRecord_def PadRecord_def
     PopulateHeader_def overwrite_def upt_rec hi8_def lo8_def list_update_numeral)
     code_simp

theorem EncodeNameValuePairs_correct_witness:
  "EncodeNameValuePairs 1024 [([65, 66], [67])] kFCGI_PARAMS 1 0 =
     Ok (True, 16, [(Local_buffer 2, 8), (Local_buffer 0, 2), (Name 0 0, 2), (Value 0 0, 1), (Local_buffer 10, 3)], 1,
       [2, 1, 1, 4, 0, 1, 0, 5, 3, 0, 0, 0, 0], 0, 1)
   \<and> gather_pairs [([65, 66], [67])] [2, 1, 1, 4, 0, 1, 0, 5, 3, 0, 0, 0, 0]
       [(Local_buffer 2, 8), (Local_buffer 0, 2), (Name 0 0, 2), (Value 0 0, 1), (Local_buffer 10, 3)] =
     record_bytes kFCGI_PARAMS 1 [2, 1, 65, 66, 67]"
proof -
  let ?ps = "[([65, 66], [67])] :: (bytes \<times> bytes) list"
  have stream: "drop 0 (pair_stream ?ps) = [2, 1, 65, 66, 67]"
    by (simp add: pair_bytes.simps length_bytes_def)
  have "?ps \<noteq> [] \<longrightarrow> 0 \<le> length (pair_bytes (?ps ! 0))" "1 \<le> (1024 :: int) \<or> (1024 :: int) = - 1" by simp_all
  from EncodeNameValuePairs_correct [OF this(2,1), of kFCGI_PARAMS 1]
  obtain accepted n iovs records L offset' k where
      run: "EncodeNameValuePairs 1024 ?ps kFCGI_PARAMS 1 0 = Ok (accepted, n, iovs, records, L, offset', k)"
      and single: "\<not> EncodeNVPairSingleRecordFailure (accepted, n, iovs, records, L, offset', k) (length ?ps) \<longrightarrow>
        gather_pairs ?ps L iovs = record_bytes kFCGI_PARAMS 1 (drop 0 (pair_stream ?ps))"
    by (elim exE conjE)
  have "accepted" "records = 1" "offset' = 0" "k = length ?ps" "L = [2, 1, 1, 4, 0, 1, 0, 5, 3, 0, 0, 0, 0]"
      "iovs = [(Local_buffer 2, 8), (Local_buffer 0, 2), (Name 0 0, 2), (Value 0 0, 1), (Local_buffer 10, 3)]"
    using run unfolding example_encoding by auto
  then show ?thesis using single example_encoding unfolding stream
    by (simp only: EncodeNVPairSingleRecordFailure_def prod.case simp_thms)
qed

end
