(* ===== verification/Request_Data.thy ===== *)
theory Request_Data
  imports Fcgi_Utilities "HOL-Library.List_Lexorder" "HOL-Library.Multiset"
begin

text \<open>
  The class \<open>FcgiServerInterface::RequestData\<close> (\<open>fcgi/include/fcgi_server_interface.h\<close>,
  \<open>fcgi/src/request_data.cc\<close>): the data of one request while it is received, the rule that
  decides when a request of a role is complete, and the conversion of the \<open>FCGI_PARAMS\<close> stream
  into a map of environment variables.
\<close>

section \<open>The class\<close>

datatype RequestStatus = kRequestPending | kRequestAssigned

record RequestData =
  FCGI_PARAMS_complete :: bool
  FCGI_STDIN_complete :: bool
  FCGI_DATA_complete :: bool
  FCGI_PARAMS :: bytes
  FCGI_STDIN :: bytes
  FCGI_DATA :: bytes
  environment_map :: "(bytes, bytes) std_map"
  role :: u16
  client_set_abort :: bool
  close_connection :: bool
  request_status :: RequestStatus
  connection_closed_by_interface :: bool

definition RequestData_new :: "u16 \<Rightarrow> bool \<Rightarrow> RequestData" where
  "RequestData_new r c = \<lparr>
     FCGI_PARAMS_complete = False, FCGI_STDIN_complete = False, FCGI_DATA_complete = False,
     FCGI_PARAMS = [], FCGI_STDIN = [], FCGI_DATA = [], environment_map = [],
     role = r, client_set_abort = False, close_connection = c,
     request_status = kRequestPending, connection_closed_by_interface = False \<rparr>"

definition set_connection_closed_by_interface :: "RequestData \<Rightarrow> RequestData" where
  "set_connection_closed_by_interface rd = rd\<lparr>connection_closed_by_interface := True\<rparr>"

definition set_abort :: "RequestData \<Rightarrow> RequestData" where
  "set_abort rd = rd\<lparr>client_set_abort := True\<rparr>"

definition CompletePARAMS :: "RequestData \<Rightarrow> RequestData" where
  "CompletePARAMS rd = rd\<lparr>FCGI_PARAMS_complete := True\<rparr>"

definition CompleteSTDIN :: "RequestData \<Rightarrow> RequestData" where
  "CompleteSTDIN rd = rd\<lparr>FCGI_STDIN_complete := True\<rparr>"

definition CompleteDATA :: "RequestData \<Rightarrow> RequestData" where
  "CompleteDATA rd = rd\<lparr>FCGI_DATA_complete := True\<rparr>"

definition AppendToPARAMS :: "bytes \<Rightarrow> RequestData \<Rightarrow> RequestData" where
  "AppendToPARAMS bs rd = rd\<lparr>FCGI_PARAMS := FCGI_PARAMS rd @ bs\<rparr>"

definition AppendToSTDIN :: "bytes \<Rightarrow> RequestData \<Rightarrow> RequestData" where
  "AppendToSTDIN bs rd = rd\<lparr>FCGI_STDIN := FCGI_STDIN rd @ bs\<rparr>"

definition AppendToDATA :: "bytes \<Rightarrow> RequestData \<Rightarrow> RequestData" where
  "AppendToDATA bs rd = rd\<lparr>FCGI_DATA := FCGI_DATA rd @ bs\<rparr>"

definition CheckRequestCompletionWithConditionalUpdate :: "RequestData \<Rightarrow> bool \<times> RequestData" where
  "CheckRequestCompletionWithConditionalUpdate rd =
     (if role rd = FCGI_RESPONDER
      then let completed = FCGI_PARAMS_complete rd \<and> FCGI_STDIN_complete rd
                 \<and> (length (FCGI_DATA rd) = 0 \<or> FCGI_DATA_complete rd)
           in (completed,
               if completed
               then (if \<not> FCGI_DATA_complete rd then rd\<lparr>FCGI_DATA_complete := True\<rparr> else rd)
               else rd)
      else if role rd = FCGI_AUTHORIZER
      then let completed = FCGI_PARAMS_complete rd
                 \<and> (length (FCGI_STDIN rd) = 0 \<or> FCGI_STDIN_complete rd)
                 \<and> (length (FCGI_DATA rd) = 0 \<or> FCGI_DATA_complete rd)
           in (completed,
               if completed
               then let rd1 = (if \<not> FCGI_STDIN_complete rd then rd\<lparr>FCGI_STDIN_complete := True\<rparr>
                               else rd)
                    in (if \<not> FCGI_DATA_complete rd1 then rd1\<lparr>FCGI_DATA_complete := True\<rparr> else rd1)
               else rd)
      else (FCGI_PARAMS_complete rd \<and> FCGI_STDIN_complete rd \<and> FCGI_DATA_complete rd, rd))"

text \<open>
  The loop of \<open>ProcessFCGI_PARAMS\<close> over the sorted list; \<open>ps\<close> is the list from \<open>next\<close> on. The
  emplacement after the loop is in the base case.
\<close>

fun EnvironmentLoop ::
  "(bytes \<times> bytes) \<Rightarrow> (bytes \<times> bytes) list \<Rightarrow> (bytes, bytes) std_map \<Rightarrow> bool \<times> (bytes, bytes) std_map"
where
  "EnvironmentLoop current [] env = (True, om_insert (fst current) (snd current) env)"
| "EnvironmentLoop current (nxt # ps) env =
     (if fst current = fst nxt
      then if snd current = snd nxt then EnvironmentLoop current ps env else (False, env)
      else EnvironmentLoop nxt ps (om_insert (fst current) (snd current) env))"

text \<open>
  \<open>std::sort\<close> with \<open>NameLessThan\<close> is a sort by the name; the order of pairs with equal names is
  unspecified in the code and stable here, which \<open>EnvironmentLoop_any_sort\<close> shows to be
  immaterial.
\<close>

definition ProcessFCGI_PARAMS :: "RequestData \<Rightarrow> bool \<times> RequestData" where
  "ProcessFCGI_PARAMS rd =
     (if length (FCGI_PARAMS rd) \<noteq> 0
      then case ExtractBinaryNameValuePairs (Some (FCGI_PARAMS rd)) (length (FCGI_PARAMS rd)) of
          Inr (p # ps) \<Rightarrow>
            (case sort_key fst (p # ps) of
                [] \<Rightarrow> (True, rd)
              | current # rest \<Rightarrow>
                  (case EnvironmentLoop current rest (environment_map rd) of
                    (ok, env) \<Rightarrow> (ok, rd\<lparr>environment_map := env\<rparr>)))
        | _ \<Rightarrow> (False, rd)
      else (True, rd))"

section \<open>The loop\<close>

definition consistent :: "('a \<times> 'b) set \<Rightarrow> bool" where
  "consistent S \<longleftrightarrow> (\<forall>k v w. (k, v) \<in> S \<longrightarrow> (k, w) \<in> S \<longrightarrow> v = w)"

lemma consistent_conflict: "(k, v) \<in> S \<Longrightarrow> (k, w) \<in> S \<Longrightarrow> v \<noteq> w \<Longrightarrow> \<not> consistent S"
  by (auto simp: consistent_def)

lemma consistent_insert:
  "consistent (insert (k, v) S) \<longleftrightarrow> consistent S \<and> (\<forall>w. (k, w) \<in> S \<longrightarrow> w = v)"
  by (auto simp: consistent_def)

lemma EnvironmentLoop_flag:
  "sorted (map fst (c # ps)) \<Longrightarrow>
     fst (EnvironmentLoop c ps env) \<longleftrightarrow> consistent (set (c # ps))"
proof (induction c ps env rule: EnvironmentLoop.induct)
  case (2 c n ps env)
  show ?case
  proof (cases "fst c = fst n")
    case True
    show ?thesis
    proof (cases "snd c = snd n")
      case same: True
      then have "c = n" using True by (simp add: prod_eq_iff)
      then show ?thesis using 2 by simp
    next
      case differ: False
      have "(fst n, snd c) \<in> set (c # n # ps)" and "(fst n, snd n) \<in> set (c # n # ps)"
        by (metis True list.set_intros(1) prod.collapse) simp
      then have "\<not> consistent (set (c # n # ps))" using differ by (rule consistent_conflict)
      then show ?thesis using True differ by simp
    qed
  next
    case False
    have "fst c < fst p" if "p \<in> set (n # ps)" for p
    proof -
      have "fst c \<le> fst n" "fst n \<le> fst p" using that 2(3) by auto
      then show ?thesis using False by auto
    qed
    then have "\<forall>p \<in> set (n # ps). fst p \<noteq> fst c" by force
    then have "consistent (set (c # n # ps)) \<longleftrightarrow> consistent (set (n # ps))"
      using consistent_insert [of "fst c" "snd c" "set (n # ps)"] by force
    then show ?thesis using 2 False by simp
  qed
qed (auto simp: consistent_def)

lemma EnvironmentLoop_map:
  assumes "sorted (map fst (c # ps))" and "om_wf env" and "fst c \<notin> fst ` set env"
      and "\<forall>p \<in> set ps. fst p \<notin> fst ` set env"
      and "fst (EnvironmentLoop c ps env)"
  shows "om_wf (snd (EnvironmentLoop c ps env)) \<and>
     (om_find k (snd (EnvironmentLoop c ps env)) = Some v \<longleftrightarrow>
        om_find k env = Some v \<or> (k, v) \<in> set (c # ps))"
  using assms
proof (induction c ps env rule: EnvironmentLoop.induct)
  case (1 c env)
  then show ?case
    by (cases c) (auto simp: om_wf_insert om_find_insert om_find_eq_None split: option.splits
          dest: om_find_key)
next
  case (2 c n ps env)
  show ?case
  proof (cases "fst c = fst n")
    case True
    then show ?thesis using 2 by (cases c; cases n) (auto split: if_splits)
  next
    case False
    let ?env = "om_insert (fst c) (snd c) env"
    have ne: "fst p \<noteq> fst c" if "p \<in> set (n # ps)" for p
    proof -
      have "fst c \<le> fst n" "fst n \<le> fst p" using that 2(3) by auto
      then show ?thesis using False by auto
    qed
    have "om_find k ?env = Some v \<longleftrightarrow> om_find k env = Some v \<or> (k, v) = c"
      using 2(4,5)
      by (cases c) (auto simp: om_find_insert om_find_eq_None split: option.splits dest: om_find_key)
    moreover have "om_wf ?env" using 2(4) by (rule om_wf_insert)
    moreover have "fst n \<notin> fst ` set ?env" "\<forall>p \<in> set ps. fst p \<notin> fst ` set ?env"
      using 2(6) ne by (auto simp: keys_om_insert)
    ultimately show ?thesis using 2(2)[OF False] 2(3,7) False by auto
  qed
qed


lemma EnvironmentLoop_wf: "om_wf env \<Longrightarrow> om_wf (snd (EnvironmentLoop c ps env))"
  by (induction c ps env rule: EnvironmentLoop.induct) (simp_all add: om_wf_insert)

lemma nv_stream_Nil_iff: "nv_stream bs [] \<longleftrightarrow> bs = []"
  by (auto elim: nv_stream.cases intro: nv_Nil)

lemma nv_stream_empty: "nv_stream [] ps \<longleftrightarrow> ps = []"
  by (auto intro: nv_Nil nv_stream_unique [OF _ nv_Nil])

text \<open>Any sorting of the same pairs leads to the same answer and the same map.\<close>

lemma om_ext:
  assumes "om_wf m" and "om_wf m'" and "\<And>k v. om_find k m = Some v \<longleftrightarrow> om_find k m' = Some v"
  shows "m = m'"
proof -
  have "set m = set m'" using assms by (auto simp: om_find_set_iff)
  then show ?thesis using assms(1,2)
    by (intro map_sorted_distinct_set_unique [of fst])
       (auto simp: om_wf_def strict_sorted_iff distinct_map)
qed

lemma EnvironmentLoop_any_sort:
  assumes "sorted (map fst (c # ps))" and "sorted (map fst (d # qs))"
      and "mset (c # ps) = mset (d # qs)"
  shows "fst (EnvironmentLoop c ps []) = fst (EnvironmentLoop d qs [])"
    and "fst (EnvironmentLoop c ps []) \<Longrightarrow> EnvironmentLoop c ps [] = EnvironmentLoop d qs []"
proof -
  have s: "set (c # ps) = set (d # qs)" using assms(3) by (rule mset_eq_setD)
  show f: "fst (EnvironmentLoop c ps []) = fst (EnvironmentLoop d qs [])"
    using EnvironmentLoop_flag [OF assms(1)] EnvironmentLoop_flag [OF assms(2)]
    by (simp only: s)
  assume t: "fst (EnvironmentLoop c ps [])"
  have "snd (EnvironmentLoop c ps []) = snd (EnvironmentLoop d qs [])"
    using EnvironmentLoop_map [OF assms(1), of "[]"] EnvironmentLoop_map [OF assms(2), of "[]"] t f s
    by (intro om_ext) auto
  then show "EnvironmentLoop c ps [] = EnvironmentLoop d qs []" using f by (simp add: prod_eq_iff)
qed

section \<open>Properties\<close>

lemma ProcessFCGI_PARAMS_cases:
  assumes "environment_map rd = []"
  shows "\<exists>ok env. ProcessFCGI_PARAMS rd = (ok, rd\<lparr>environment_map := env\<rparr>) \<and> om_wf env
     \<and> (if ok then \<exists>ps. nv_stream (FCGI_PARAMS rd) ps \<and> consistent (set ps)
                     \<and> (\<forall>n v. om_find n env = Some v \<longleftrightarrow> (n, v) \<in> set ps)
        else \<nexists>ps. nv_stream (FCGI_PARAMS rd) ps \<and> consistent (set ps))"
proof (cases "FCGI_PARAMS rd = []")
  case True
  have "rd = rd\<lparr>environment_map := []\<rparr>" using assms by simp
  then show ?thesis using True nv_Nil
    by (intro exI [of _ True] exI [of _ "[]"])
       (auto simp: ProcessFCGI_PARAMS_def consistent_def intro!: exI [of _ "[]"])
next
  case ne: False
  show ?thesis
  proof (cases "\<exists>ps. nv_stream (FCGI_PARAMS rd) ps")
    case False
    then have "ExtractBinaryNameValuePairs (Some (FCGI_PARAMS rd)) (length (FCGI_PARAMS rd)) = Inr []"
      using ExtractLoop_malformed [of "FCGI_PARAMS rd" 0 _ "[]" "[]"]
      by (simp add: ExtractBinaryNameValuePairs_def)
    then show ?thesis using ne False assms
      by (intro exI [of _ False] exI [of _ "[]"]) (simp add: ProcessFCGI_PARAMS_def)
  next
    case True
    then obtain p ps where st: "nv_stream (FCGI_PARAMS rd) (p # ps)"
      using ne by (metis list.exhaust nv_stream_Nil_iff)
    then have x: "ExtractBinaryNameValuePairs (Some (FCGI_PARAMS rd)) (length (FCGI_PARAMS rd))
        = Inr (p # ps)"
      using ExtractLoop_stream [of "FCGI_PARAMS rd" _ 0 _ "[]" "[]"]
      by (simp add: ExtractBinaryNameValuePairs_def)
    obtain c rest where sk: "sort_key fst (p # ps) = c # rest"
      by (metis length_sort length_greater_0_conv list.exhaust list.distinct(1))
    have sorted: "sorted (map fst (c # rest))" by (metis sk sorted_sort_key)
    have set: "set (c # rest) = set (p # ps)" by (metis sk set_sort)
    obtain ok env where l: "EnvironmentLoop c rest [] = (ok, env)" by (cases "EnvironmentLoop c rest []")
    have ok: "ok \<longleftrightarrow> consistent (set (p # ps))"
      using EnvironmentLoop_flag [OF sorted, of "[]"] by (simp only: l set fst_conv)
    have wf: "om_wf env"
      using EnvironmentLoop_wf [of "[]" c rest] by (simp add: l)
    have map: "ok \<Longrightarrow> om_find n env = Some v \<longleftrightarrow> (n, v) \<in> set (p # ps)" for n v
      using EnvironmentLoop_map [OF sorted, of "[]" n v] unfolding l set by simp
    have uniq: "qs = p # ps" if "nv_stream (FCGI_PARAMS rd) qs" for qs
      by (rule nv_stream_unique [OF that st])
    have pr: "ProcessFCGI_PARAMS rd = (ok, rd\<lparr>environment_map := env\<rparr>)"
      using ne by (simp add: ProcessFCGI_PARAMS_def x sk assms l del: sort_key_simps)
    show ?thesis using pr wf st ok map uniq
      by (intro exI [of _ ok] exI [of _ env]) (cases ok; metis)
  qed
qed

text \<open>
  C21. \<open>ProcessFCGI_PARAMS\<close> on a request whose map is still empty: it answers \<open>true\<close> exactly when
  the \<open>FCGI_PARAMS\<close> stream is empty or is a well-formed stream of name-value pairs that defines no
  name with two different values; the environment map then maps each name to its value and
  contains nothing else, with its keys in order, and no other member is changed.
\<close>

theorem ProcessFCGI_PARAMS_correct:
  assumes "environment_map rd = []"
  shows "case ProcessFCGI_PARAMS rd of (ok, rd') \<Rightarrow>
     (ok \<longleftrightarrow> (\<exists>ps. nv_stream (FCGI_PARAMS rd) ps \<and> consistent (set ps)))
     \<and> (\<exists>env. rd' = rd\<lparr>environment_map := env\<rparr> \<and> om_wf env
         \<and> (\<forall>ps n v. ok \<longrightarrow> nv_stream (FCGI_PARAMS rd) ps \<longrightarrow>
               (om_find n env = Some v \<longleftrightarrow> (n, v) \<in> set ps)))"
proof -
  obtain ok env where r: "ProcessFCGI_PARAMS rd = (ok, rd\<lparr>environment_map := env\<rparr>)" "om_wf env"
      "if ok then \<exists>ps. nv_stream (FCGI_PARAMS rd) ps \<and> consistent (set ps)
                     \<and> (\<forall>n v. om_find n env = Some v \<longleftrightarrow> (n, v) \<in> set ps)
        else \<nexists>ps. nv_stream (FCGI_PARAMS rd) ps \<and> consistent (set ps)"
    using ProcessFCGI_PARAMS_cases [OF assms] by blast
  show ?thesis
  proof (cases ok)
    case True
    then obtain ps where ps: "nv_stream (FCGI_PARAMS rd) ps" "consistent (set ps)"
        "\<forall>n v. om_find n env = Some v \<longleftrightarrow> (n, v) \<in> set ps" using r(3) by auto
    have "\<forall>qs. nv_stream (FCGI_PARAMS rd) qs \<longrightarrow> qs = ps" using nv_stream_unique ps(1) by blast
    then show ?thesis unfolding r(1) split_conv using r(2) ps True by metis
  qed (use r in \<open>auto intro!: exI [of _ env]\<close>)
qed


theorem ProcessFCGI_PARAMS_correct_witness:
  "fst (ProcessFCGI_PARAMS
     (AppendToPARAMS [1, 2, 65, 66, 67, 1, 2, 65, 66, 67] (RequestData_new FCGI_RESPONDER True)))"
proof -
  have "len_enc 1 [1]" and l2: "len_enc 2 [2]"
    using len_short [of 1] len_short [of 2] by simp_all
  then have one: "nv_stream ([1] @ [2] @ [65] @ [66, 67] @ bs) (([65], [66, 67]) # ps)"
    if "nv_stream bs ps" for bs ps
    by (intro nv_Cons that) (simp_all add: numeral_2_eq_2 [symmetric])
  have "nv_stream [1, 2, 65, 66, 67, 1, 2, 65, 66, 67] [([65], [66, 67]), ([65], [66, 67])]"
    using one [OF one [OF nv_Nil]] by simp
  moreover have "consistent (set [([65 :: byte], [66, 67 :: byte]), ([65], [66, 67])])"
    by (simp add: consistent_def)
  ultimately have "\<exists>ps. nv_stream [1, 2, 65, 66, 67, 1, 2, 65, 66, 67] ps \<and> consistent (set ps)"
    by blast
  then show ?thesis
    using ProcessFCGI_PARAMS_correct
      [of "AppendToPARAMS [1, 2, 65, 66, 67, 1, 2, 65, 66, 67] (RequestData_new FCGI_RESPONDER True)"]
    by (auto simp: AppendToPARAMS_def RequestData_new_def)
qed

definition role_complete :: "RequestData \<Rightarrow> bool" where
  "role_complete rd \<longleftrightarrow> FCGI_PARAMS_complete rd
     \<and> (FCGI_STDIN_complete rd \<or> (role rd = FCGI_AUTHORIZER \<and> FCGI_STDIN rd = []))
     \<and> (FCGI_DATA_complete rd
        \<or> ((role rd = FCGI_RESPONDER \<or> role rd = FCGI_AUTHORIZER) \<and> FCGI_DATA rd = []))"

lemma CheckRequestCompletion_eq:
  "CheckRequestCompletionWithConditionalUpdate rd =
     (role_complete rd,
      if role_complete rd
      then rd\<lparr>FCGI_PARAMS_complete := True, FCGI_STDIN_complete := True, FCGI_DATA_complete := True\<rparr>
      else rd)"
  by (cases rd) (auto simp: CheckRequestCompletionWithConditionalUpdate_def role_complete_def Let_def)

text \<open>
  C29. \<open>CheckRequestCompletionWithConditionalUpdate\<close> follows the documented rule of each role, sets
  all three completion flags of a complete request and nothing else, and asked again gives the
  same answer without a further change.
\<close>

theorem CheckRequestCompletion_correct:
  "case CheckRequestCompletionWithConditionalUpdate rd of (done, rd') \<Rightarrow>
     done = role_complete rd
     \<and> rd' = (if done then rd\<lparr>FCGI_PARAMS_complete := True, FCGI_STDIN_complete := True,
                             FCGI_DATA_complete := True\<rparr> else rd)
     \<and> CheckRequestCompletionWithConditionalUpdate rd' = (done, rd')"
  by (simp add: CheckRequestCompletion_eq) (simp add: role_complete_def)

end
