(* ===== verification/Socket_Functions.thy ===== *)
theory Socket_Functions
  imports Fcgi_Prelude
begin

text \<open>
  The functions of \<open>socket_functions/src/socket_functions.cc\<close>: reading, writing and gathering
  output on a socket with repeated system calls.

  The kernel is a script: the list of answers it will give to the calls in the order in which
  they are made. An answer is an error number (the call returns -1 and sets \<open>errno\<close>) or a count.
  A \<open>write\<close> answered with \<open>k\<close> takes as many of the offered bytes as there are, up to \<open>k\<close>; a \<open>read\<close>
  answered with \<open>k\<close> gives as many of the bytes in the receive queue as fit, up to \<open>k\<close>, and a read
  of no byte is end of file; \<open>select\<close> answers with the number of ready descriptors, 0 being a
  timeout. A function that asks for more answers than the script has does not return: \<open>None\<close>.
\<close>

datatype answer = Count nat | Errno int

type_synonym script = "answer list"

text \<open>Error numbers (those of Linux).\<close>

abbreviation (input) EINTR :: int where "EINTR \<equiv> 4"
abbreviation (input) EAGAIN :: int where "EAGAIN \<equiv> 11"
abbreviation (input) EWOULDBLOCK :: int where "EWOULDBLOCK \<equiv> 11"
abbreviation (input) EBUSY :: int where "EBUSY \<equiv> 16"
abbreviation (input) EPIPE :: int where "EPIPE \<equiv> 32"
abbreviation (input) ECONNABORTED :: int where "ECONNABORTED \<equiv> 103"
abbreviation (input) ECONNRESET :: int where "ECONNRESET \<equiv> 104"

section \<open>Writing\<close>

text \<open>
  The loops carry \<open>number_remaining\<close>, the bytes from \<open>buffer_ptr\<close> on, \<open>errno\<close> and the bytes sent so
  far; they return the number of bytes that remain, \<open>errno\<close>, the bytes sent and the rest of the
  script.
\<close>

fun SocketWriteLoop :: "nat \<Rightarrow> bytes \<Rightarrow> int \<Rightarrow> bytes \<Rightarrow> script \<Rightarrow> (nat \<times> int \<times> bytes \<times> script) option"
where
  "SocketWriteLoop number_remaining buffer_ptr errno sent as =
     (if number_remaining > 0
      then case as of
          [] \<Rightarrow> None
        | Errno e # as' \<Rightarrow>
            if e = EINTR then SocketWriteLoop number_remaining buffer_ptr e sent as'
            else Some (number_remaining, e, sent, as')
        | Count k # as' \<Rightarrow>
            (let number_returned = min k number_remaining
             in SocketWriteLoop (number_remaining - number_returned)
                  (drop number_returned buffer_ptr) errno
                  (sent @ take number_returned buffer_ptr) as')
      else Some (number_remaining, errno, sent, as))"

definition SocketWrite :: "bytes \<Rightarrow> nat \<Rightarrow> int \<Rightarrow> script \<Rightarrow> (nat \<times> int \<times> bytes \<times> script) option" where
  "SocketWrite buffer_ptr cnt errno as =
     map_option (\<lambda>(number_remaining, r). (cnt - number_remaining, r))
       (SocketWriteLoop cnt buffer_ptr errno [] as)"

text \<open>
  \<open>WriteOnSelect\<close> asks \<open>select\<close> before each \<open>write\<close>. The timeout itself is part of the kernel's
  answer; without a timeout the kernel does not answer 0.
\<close>

fun WriteOnSelectLoop :: "nat \<Rightarrow> bytes \<Rightarrow> int \<Rightarrow> bytes \<Rightarrow> script \<Rightarrow> (nat \<times> int \<times> bytes \<times> script) option"
where
  "WriteOnSelectLoop number_remaining buffer_ptr errno sent as =
     (if number_remaining > 0
      then case as of
          [] \<Rightarrow> None
        | Errno e # as' \<Rightarrow>
            if e = EINTR then WriteOnSelectLoop number_remaining buffer_ptr e sent as'
            else Some (number_remaining, e, sent, as')
        | Count ready # as' \<Rightarrow>
            if ready = 0 then Some (number_remaining, 0, sent, as')
            else case as' of
                [] \<Rightarrow> None
              | Errno e # as'' \<Rightarrow>
                  if e = EINTR \<or> e = EAGAIN \<or> e = EWOULDBLOCK
                  then WriteOnSelectLoop number_remaining buffer_ptr e sent as''
                  else Some (number_remaining, e, sent, as'')
              | Count k # as'' \<Rightarrow>
                  (let number_returned = min k number_remaining
                   in WriteOnSelectLoop (number_remaining - number_returned)
                        (drop number_returned buffer_ptr) errno
                        (sent @ take number_returned buffer_ptr) as'')
      else Some (number_remaining, errno, sent, as))"

definition WriteOnSelect :: "bytes \<Rightarrow> nat \<Rightarrow> int \<Rightarrow> script \<Rightarrow> (nat \<times> int \<times> bytes \<times> script) option" where
  "WriteOnSelect buffer_ptr cnt errno as =
     map_option (\<lambda>(number_remaining, r). (cnt - number_remaining, r))
       (WriteOnSelectLoop cnt buffer_ptr errno [] as)"

section \<open>Reading\<close>

text \<open>\<open>queue\<close> is the receive queue of the socket.\<close>

fun SocketReadLoop ::
  "nat \<Rightarrow> bytes \<Rightarrow> int \<Rightarrow> bytes \<Rightarrow> script \<Rightarrow> (nat \<times> int \<times> bytes \<times> bytes \<times> script) option"
where
  "SocketReadLoop number_remaining buffer errno queue as =
     (if number_remaining > 0
      then case as of
          [] \<Rightarrow> None
        | Errno e # as' \<Rightarrow>
            if e = EINTR then SocketReadLoop number_remaining buffer e queue as'
            else Some (number_remaining, e, buffer, queue, as')
        | Count k # as' \<Rightarrow>
            (let got = take (min k number_remaining) queue; number_returned = length got
             in if number_returned = 0 then Some (number_remaining, 0, buffer, queue, as')
                else SocketReadLoop (number_remaining - number_returned) (buffer @ got) errno
                       (drop number_returned queue) as')
      else Some (number_remaining, errno, buffer, queue, as))"

definition SocketRead ::
  "nat \<Rightarrow> int \<Rightarrow> bytes \<Rightarrow> script \<Rightarrow> (nat \<times> int \<times> bytes \<times> bytes \<times> script) option"
where
  "SocketRead cnt errno queue as =
     map_option (\<lambda>(number_remaining, r). (cnt - number_remaining, r))
       (SocketReadLoop cnt [] errno queue as)"

section \<open>Gathering output\<close>

text \<open>
  A \<open>struct iovec\<close> is the bytes from \<open>iov_base\<close> on and \<open>iov_len\<close>; a pointer to one is the array
  from there on. \<open>None\<close> is an access past the end of the array.
\<close>

type_synonym iov = "bytes \<times> nat"

fun ScatterGatherHelperLoop :: "nat \<Rightarrow> nat \<Rightarrow> iov list \<Rightarrow> int \<Rightarrow> (nat \<times> iov list \<times> int) option" where
  "ScatterGatherHelperLoop running_total number_bytes_wr [] iov_array_count = None"
| "ScatterGatherHelperLoop running_total number_bytes_wr (v # iovs) iov_array_count =
     (if running_total \<le> number_bytes_wr
      then case iovs of
          [] \<Rightarrow> None
        | w # _ \<Rightarrow> ScatterGatherHelperLoop (running_total + snd w) number_bytes_wr iovs
                    (iov_array_count - 1)
      else Some (running_total, v # iovs, iov_array_count))"

definition ScatterGatherHelper :: "nat \<Rightarrow> iov list \<Rightarrow> int \<Rightarrow> (iov list \<times> int) option" where
  "ScatterGatherHelper number_bytes_wr iov_ptr iov_array_count =
     (case iov_ptr of [] \<Rightarrow> None
      | v # _ \<Rightarrow>
        (case ScatterGatherHelperLoop (snd v) number_bytes_wr iov_ptr iov_array_count of
            Some (running_total, (b, l) # rest, n) \<Rightarrow>
              (let new_length = running_total - number_bytes_wr; offset = l - new_length
               in Some ((drop offset b, new_length) # rest, n))
          | _ \<Rightarrow> None))"

definition iov_content :: "iov list \<Rightarrow> bytes" where
  "iov_content iovs = concat (map (\<lambda>(b, l). take l b) iovs)"

text \<open>
  The loop on \<open>select\<close> inside \<open>ScatterGatherSocketWrite\<close>: \<open>True\<close> if the outer loop shall call
  \<open>writev\<close> again. A timeout (\<open>Count 0\<close>) is treated as readiness, as in the code.
\<close>

fun SelectForWrite :: "int \<Rightarrow> script \<Rightarrow> (bool \<times> int \<times> script) option" where
  "SelectForWrite errno [] = None"
| "SelectForWrite errno (Errno e # as) =
     (if e = EINTR then SelectForWrite e as else Some (False, e, as))"
| "SelectForWrite errno (Count n # as) = Some (True, errno, as)"

lemma SelectForWrite_shorter:
  "SelectForWrite errno as = Some (b, e, as') \<Longrightarrow> length as' < length as"
  by (induction errno as rule: SelectForWrite.induct) (auto split: if_splits)

datatype sg_result = SG_out_of_bounds | SG_no_return
  | SG_return "iov list" int nat int bytes script

function ScatterGatherLoop ::
  "bool \<Rightarrow> iov list \<Rightarrow> int \<Rightarrow> nat \<Rightarrow> int \<Rightarrow> bytes \<Rightarrow> script \<Rightarrow> sg_result"
where
  "ScatterGatherLoop wait_on_select iovec_ptr iovec_count number_remaining errno sent as =
     (if number_remaining > 0
      then case as of
          [] \<Rightarrow> SG_no_return
        | Errno e # as' \<Rightarrow>
            if e = EINTR
            then ScatterGatherLoop wait_on_select iovec_ptr iovec_count number_remaining e sent as'
            else if wait_on_select \<and> (e = EAGAIN \<or> e = EWOULDBLOCK)
            then (case SelectForWrite e as' of
                None \<Rightarrow> SG_no_return
              | Some (ready_to_write, e', as'') \<Rightarrow>
                  if \<not> ready_to_write
                  then SG_return iovec_ptr iovec_count number_remaining e' sent as''
                  else ScatterGatherLoop wait_on_select iovec_ptr iovec_count number_remaining e'
                         sent as'')
            else SG_return iovec_ptr iovec_count number_remaining e sent as'
        | Count k # as' \<Rightarrow>
            (let content = iov_content (take (nat iovec_count) iovec_ptr);
                 number_returned = min k (length content);
                 sent' = sent @ take number_returned content;
                 number_remaining' = number_remaining - number_returned
             in if number_remaining' > 0
                then case ScatterGatherHelper number_returned iovec_ptr iovec_count of
                    None \<Rightarrow> SG_out_of_bounds
                  | Some (iovs', n') \<Rightarrow>
                      ScatterGatherLoop wait_on_select iovs' n' number_remaining' errno sent' as'
                else ScatterGatherLoop wait_on_select iovec_ptr iovec_count number_remaining' errno
                       sent' as')
      else SG_return iovec_ptr iovec_count number_remaining errno sent as)"
  by pat_completeness auto
termination
  by (relation "measure (\<lambda>(w, v, n, r, e, s, as). length as)")
     (auto dest: SelectForWrite_shorter)

declare ScatterGatherLoop.simps [simp del] SocketWriteLoop.simps [simp del]
  WriteOnSelectLoop.simps [simp del] SocketReadLoop.simps [simp del]

definition ScatterGatherSocketWrite ::
  "iov list \<Rightarrow> int \<Rightarrow> nat \<Rightarrow> bool \<Rightarrow> int \<Rightarrow> script \<Rightarrow> sg_result"
where
  "ScatterGatherSocketWrite iovec_ptr iovec_count number_remaining wait_on_select errno as =
     ScatterGatherLoop wait_on_select iovec_ptr iovec_count number_remaining errno [] as"

text \<open>The overload that computes the number of bytes from the array.\<close>

definition ScatterGatherSocketWriteAll ::
  "iov list \<Rightarrow> nat \<Rightarrow> bool \<Rightarrow> int \<Rightarrow> script \<Rightarrow> sg_result"
where
  "ScatterGatherSocketWriteAll iovec_ptr iovec_count wait_on_select errno as =
     ScatterGatherSocketWrite iovec_ptr (int iovec_count)
       (foldl (\<lambda>n v. n + snd v) 0 (take iovec_count iovec_ptr)) wait_on_select errno as"


section \<open>What the writing functions promise\<close>

text \<open>
  The contract of a function that writes a buffer to a stream: what it sent is the prefix whose
  length it returns; it consumes its part of the script; and a short count leaves an error in
  \<open>errno\<close> that it does not retry.
\<close>

locale stream_writer =
  fixes wr :: "bytes \<Rightarrow> nat \<Rightarrow> int \<Rightarrow> script \<Rightarrow> (nat \<times> int \<times> bytes \<times> script) option"
    and retried :: "int set"
  assumes sends_prefix: "\<And>buf cnt e as n e' sent as'.
      wr buf cnt e as = Some (n, e', sent, as') \<Longrightarrow> cnt \<le> length buf \<Longrightarrow>
      n \<le> cnt \<and> sent = take n buf"
    and short_errno: "\<And>buf cnt e as n e' sent as'.
      wr buf cnt e as = Some (n, e', sent, as') \<Longrightarrow> n < cnt \<Longrightarrow> e' \<notin> retried"
    and zero_count: "\<And>buf e as. wr buf 0 e as = Some (0, e, [], as)"
begin

text \<open>A full count means that exactly the first \<open>cnt\<close> bytes were sent.\<close>

lemma full_count:
  "wr buf cnt e as = Some (cnt, e', sent, as') \<Longrightarrow> cnt \<le> length buf \<Longrightarrow> sent = take cnt buf"
  using sends_prefix by blast

text \<open>
  Writing a list of messages one after the other until one is cut short: the stream is then the
  concatenation of the messages written before, followed by a proper prefix of the next one.
\<close>

fun write_all :: "bytes list \<Rightarrow> int \<Rightarrow> script \<Rightarrow> (bytes list \<times> int \<times> bytes \<times> script) option" where
  "write_all [] e as = Some ([], e, [], as)"
| "write_all (m # ms) e as =
     (case wr m (length m) e as of
        None \<Rightarrow> None
      | Some (n, e', sent, as') \<Rightarrow>
          if n < length m then Some (m # ms, e', sent, as')
          else map_option (\<lambda>(rest, e'', sent', as''). (rest, e'', sent @ sent', as''))
                 (write_all ms e' as'))"

lemma write_all_framing:
  assumes "write_all ms e as = Some (rest, e', sent, as')"
  shows "\<exists>k. k \<le> length ms \<and> rest = drop k ms \<and>
     (if rest = [] then sent = concat ms
      else \<exists>n < length (hd rest). sent = concat (take k ms) @ take n (hd rest) \<and> e' \<notin> retried)"
  using assms
proof (induction ms arbitrary: e as rest e' sent as')
  case Nil
  then show ?case by simp
next
  case (Cons m ms)
  obtain n e1 s1 as1 where w: "wr m (length m) e as = Some (n, e1, s1, as1)"
    using Cons.prems by (auto split: option.splits)
  have p: "n \<le> length m" "s1 = take n m" using sends_prefix [OF w] by auto
  show ?case
  proof (cases "n < length m")
    case True
    then show ?thesis using Cons.prems w p short_errno [OF w True]
      by (intro exI [of _ 0]) auto
  next
    case False
    then obtain s2 where r: "write_all ms e1 as1 = Some (rest, e', s2, as')" "sent = s1 @ s2"
      using Cons.prems w by (auto split: option.splits)
    obtain k where "k \<le> length ms" "rest = drop k ms"
        "if rest = [] then s2 = concat ms
         else \<exists>n < length (hd rest). s2 = concat (take k ms) @ take n (hd rest) \<and> e' \<notin> retried"
      using Cons.IH [OF r(1)] by blast
    then show ?thesis using False p r(2) by (intro exI [of _ "Suc k"]) auto
  qed
qed

lemma write_all_cases:
  "case write_all ms e as of None \<Rightarrow> True | Some (rest, e', sent, as') \<Rightarrow>
     \<exists>k \<le> length ms. rest = drop k ms \<and>
       (if rest = [] then sent = concat ms
        else \<exists>n < length (hd rest). sent = concat (take k ms) @ take n (hd rest) \<and> e' \<notin> retried)"
proof (cases "write_all ms e as")
  case (Some t)
  then obtain rest e' sent as' where t: "write_all ms e as = Some (rest, e', sent, as')"
    by (cases t) auto
  show ?thesis using write_all_framing [OF t] unfolding t option.case prod.case .
qed simp

end

lemma take_step:
  "k \<le> r \<Longrightarrow> r' \<le> r - k \<Longrightarrow> take k buf @ take (r - k - r') (drop k buf) = take (r - r') buf"
  by (simp flip: take_add)

lemma SocketWriteLoop_inv:
  "SocketWriteLoop r buf e sent as = Some (r', e', sent', as') \<Longrightarrow>
     r' \<le> r \<and> sent' = sent @ take (r - r') buf"
proof (induction r buf e sent as rule: SocketWriteLoop.induct)
  case (1 r buf e sent as)
  show ?case
  proof (cases "r > 0 \<and> (\<exists>k as1. as = Count k # as1)")
    case True
    then obtain k as1 where as: "as = Count k # as1" and r: "r > 0" by blast
    let ?k = "min k r"
    have "SocketWriteLoop (r - ?k) (drop ?k buf) e (sent @ take ?k buf) as1
        = Some (r', e', sent', as')"
      using 1(3) r as by (subst (asm) SocketWriteLoop.simps) (simp add: Let_def)
    then have "r' \<le> r - ?k \<and> sent' = (sent @ take ?k buf) @ take (r - ?k - r') (drop ?k buf)"
      using 1(1) [OF r as refl refl] by blast
    then show ?thesis using take_step [of ?k r r' buf] by auto
  next
    case False
    then show ?thesis using 1(2,3)
      by (subst (asm) SocketWriteLoop.simps) (auto split: if_splits list.splits answer.splits)
  qed
qed

lemma SocketWriteLoop_errno:
  "SocketWriteLoop r buf e sent as = Some (r', e', sent', as') \<Longrightarrow> 0 < r' \<Longrightarrow> e' \<noteq> EINTR"
proof (induction r buf e sent as rule: SocketWriteLoop.induct)
  case (1 r buf e sent as)
  then show ?case
    by (subst (asm) SocketWriteLoop.simps)
       (auto simp: Let_def split: if_splits list.splits answer.splits)
qed


lemma WriteOnSelectLoop_inv:
  "WriteOnSelectLoop r buf e sent as = Some (r', e', sent', as') \<Longrightarrow>
     r' \<le> r \<and> sent' = sent @ take (r - r') buf"
proof (induction r buf e sent as rule: WriteOnSelectLoop.induct)
  case (1 r buf e sent as)
  show ?case
  proof (cases "r > 0 \<and> (\<exists>b k as1. b \<noteq> 0 \<and> as = Count b # Count k # as1)")
    case True
    then obtain b k as1 where as: "as = Count b # Count k # as1" and b: "b \<noteq> 0" and r: "r > 0"
      by blast
    let ?k = "min k r"
    have "WriteOnSelectLoop (r - ?k) (drop ?k buf) e (sent @ take ?k buf) as1
        = Some (r', e', sent', as')"
      using 1(4) r as b by (subst (asm) WriteOnSelectLoop.simps) (simp add: Let_def)
    then have "r' \<le> r - ?k \<and> sent' = (sent @ take ?k buf) @ take (r - ?k - r') (drop ?k buf)"
      using 1(1) [OF r as refl b refl refl refl] by blast
    then show ?thesis using take_step [of ?k r r' buf] by auto
  next
    case False
    then show ?thesis using 1(2,3,4)
      by (subst (asm) WriteOnSelectLoop.simps) (auto split: if_splits list.splits answer.splits)
  qed
qed

lemma WriteOnSelectLoop_errno:
  "WriteOnSelectLoop r buf e sent as = Some (r', e', sent', as') \<Longrightarrow> 0 < r' \<Longrightarrow>
     e' \<notin> {EINTR}"
proof (induction r buf e sent as rule: WriteOnSelectLoop.induct)
  case (1 r buf e sent as)
  then show ?case
    by (subst (asm) WriteOnSelectLoop.simps)
       (auto simp: Let_def split: if_splits list.splits answer.splits)
qed

lemma read_step:
  "r' \<le> r - j \<and> b' = (b @ take j q) @ take (r - j - r') (drop j q)
     \<and> q' = drop (r - j - r') (drop j q) \<and> r - j - r' \<le> length (drop j q) \<Longrightarrow>
   j \<le> r \<and> j \<le> length q \<Longrightarrow>
   r' \<le> r \<and> b' = b @ take (r - r') q \<and> q' = drop (r - r') q \<and> r - r' \<le> length q"
  using take_step [of j r r' q] by auto

lemma SocketReadLoop_inv:
  "SocketReadLoop r buf e q as = Some (r', e', buf', q', as') \<Longrightarrow>
     r' \<le> r \<and> buf' = buf @ take (r - r') q \<and> q' = drop (r - r') q \<and> r - r' \<le> length q"
proof (induction r buf e q as rule: SocketReadLoop.induct)
  case (1 r buf e q as)
  show ?case
  proof (cases "r > 0 \<and> (\<exists>k as1. as = Count k # as1 \<and> take (min k r) q \<noteq> [])")
    case True
    then obtain k as1 where as: "as = Count k # as1" and ne: "take (min k r) q \<noteq> []" and r: "r > 0"
      by blast
    let ?k = "length (take (min k r) q)"
    have tk: "take (min k r) q = take ?k q" by (simp add: min_def)
    have k0: "?k \<noteq> 0" using ne by simp
    have "SocketReadLoop (r - ?k) (buf @ take (min k r) q) e (drop ?k q) as1
        = Some (r', e', buf', q', as')"
      using 1(3) unfolding as
      by (subst (asm) SocketReadLoop.simps)
         (simp only: r k0 Let_def if_True if_False list.case answer.case)
    then have "r' \<le> r - ?k \<and> buf' = (buf @ take ?k q) @ take (r - ?k - r') (drop ?k q)
        \<and> q' = drop (r - ?k - r') (drop ?k q) \<and> r - ?k - r' \<le> length (drop ?k q)"
      using 1(1) [OF r as refl refl refl k0] unfolding tk [symmetric] by blast
    moreover have "?k \<le> r \<and> ?k \<le> length q" by auto
    ultimately show ?thesis by (rule read_step)
  next
    case False
    then show ?thesis using 1(2,3)
      by (subst (asm) SocketReadLoop.simps)
         (auto simp: Let_def split: if_splits list.splits answer.splits)
  qed
qed

interpretation sw: stream_writer SocketWrite "{EINTR}"
proof
  show "n \<le> cnt \<and> sent = take n buf"
    if "SocketWrite buf cnt e as = Some (n, e', sent, as')" for buf cnt e as n e' sent as'
    using that by (auto simp: SocketWrite_def dest: SocketWriteLoop_inv)
  show "e' \<notin> {EINTR}"
    if "SocketWrite buf cnt e as = Some (n, e', sent, as')" "n < cnt" for buf cnt e as n e' sent as'
    using that by (auto simp: SocketWrite_def dest: SocketWriteLoop_errno)
  show "SocketWrite buf 0 e as = Some (0, e, [], as)" for buf e as
    by (simp add: SocketWrite_def SocketWriteLoop.simps)
qed

interpretation ws: stream_writer WriteOnSelect "{EINTR}"
proof
  show "n \<le> cnt \<and> sent = take n buf"
    if "WriteOnSelect buf cnt e as = Some (n, e', sent, as')" for buf cnt e as n e' sent as'
    using that by (auto simp: WriteOnSelect_def dest: WriteOnSelectLoop_inv)
  show "e' \<notin> {EINTR}"
    if "WriteOnSelect buf cnt e as = Some (n, e', sent, as')" "n < cnt" for buf cnt e as n e' sent as'
    using that by (auto simp: WriteOnSelect_def dest: WriteOnSelectLoop_errno)
  show "WriteOnSelect buf 0 e as = Some (0, e, [], as)" for buf e as
    by (simp add: WriteOnSelect_def WriteOnSelectLoop.simps)
qed

section \<open>Gathered output\<close>

definition iovs_ok :: "iov list \<Rightarrow> nat \<Rightarrow> bool" where
  "iovs_ok iovs m \<longleftrightarrow> m \<le> length iovs \<and> (\<forall>(b, l) \<in> set (take m iovs). l \<le> length b)"

definition iov_total :: "iov list \<Rightarrow> nat" where
  "iov_total iovs = sum_list (map snd iovs)"

lemma iov_content_simps [simp]:
  "iov_content [] = []" "iov_content ((b, l) # iovs) = take l b @ iov_content iovs"
  by (simp_all add: iov_content_def)

lemma length_iov_content: "iovs_ok iovs m \<Longrightarrow> length (iov_content (take m iovs)) = iov_total (take m iovs)"
proof (induction iovs arbitrary: m)
  case (Cons v iovs)
  then show ?case by (cases m; cases v) (auto simp: iovs_ok_def iov_total_def)
qed (simp add: iov_total_def)

lemma iovs_ok_Cons:
  "iovs_ok (v # iovs) (Suc m) \<longleftrightarrow> snd v \<le> length (fst v) \<and> iovs_ok iovs m"
  by (auto simp: iovs_ok_def split: prod.splits)

lemma ScatterGatherHelperLoop_correct:
  "iovs_ok vs m \<Longrightarrow> vs \<noteq> [] \<Longrightarrow> t \<le> n \<Longrightarrow> n < t + iov_total (take m vs) \<Longrightarrow>
   \<exists>rt b l rest m'. ScatterGatherHelperLoop (t + snd (hd vs)) n vs (int m)
       = Some (rt, (b, l) # rest, int m')
     \<and> n < rt \<and> rt - n \<le> l \<and> l \<le> length b \<and> iovs_ok ((b, l) # rest) m' \<and> 0 < m'
     \<and> take (rt - n) (drop (l - (rt - n)) b) @ iov_content (take (m' - 1) rest)
       = drop (n - t) (iov_content (take m vs))"
proof (induction vs arbitrary: t m)
  case Nil
  then show ?case by simp
next
  case (Cons v vs)
  obtain b l where v: "v = (b, l)" by (cases v)
  obtain m1 where m: "m = Suc m1" using Cons.prems(3,4) by (cases m) (auto simp: iov_total_def)
  have ok: "l \<le> length b" "iovs_ok vs m1" using Cons.prems(1) by (simp_all add: m v iovs_ok_Cons)
  show ?case
  proof (cases "t + l \<le> n")
    case True
    have lt: "n < (t + l) + iov_total (take m1 vs)"
      using Cons.prems(4) by (simp add: m v iov_total_def)
    then have "vs \<noteq> []" using True by (auto simp: iov_total_def)
    moreover from this obtain w vs' where "vs = w # vs'" by (cases vs) auto
    moreover have "n - (t + l) = n - t - l" by simp
    moreover have "int m - 1 = int m1" by (simp add: m)
    ultimately show ?thesis using Cons.IH [OF ok(2) \<open>vs \<noteq> []\<close> True lt] True ok(1)
      by (simp add: m v)
  next
    case False
    then show ?thesis using Cons.prems ok
      by (intro exI [of _ "t + l"] exI [of _ b] exI [of _ l] exI [of _ vs] exI [of _ "m"])
         (auto simp: m v take_drop)
  qed
qed

lemma ScatterGatherHelper_correct:
  assumes "iovs_ok vs m" and "n < iov_total (take m vs)"
  shows "\<exists>vs' m'. ScatterGatherHelper n vs (int m) = Some (vs', int m') \<and> iovs_ok vs' m'
     \<and> iov_content (take m' vs') = drop n (iov_content (take m vs))
     \<and> iov_total (take m' vs') = iov_total (take m vs) - n"
proof -
  obtain v vs1 where vs: "vs = v # vs1" using assms(2) by (cases vs) (auto simp: iov_total_def)
  obtain rt b l rest m' where l: "ScatterGatherHelperLoop (snd v) n vs (int m)
       = Some (rt, (b, l) # rest, int m')" "n < rt" "rt - n \<le> l" "l \<le> length b"
      "iovs_ok ((b, l) # rest) m'" "0 < m'"
      "take (rt - n) (drop (l - (rt - n)) b) @ iov_content (take (m' - 1) rest)
       = drop n (iov_content (take m vs))"
    using ScatterGatherHelperLoop_correct [OF assms(1), of 0 n] assms(2) vs by auto
  let ?vs' = "(drop (l - (rt - n)) b, rt - n) # rest"
  obtain m1 where m1: "m' = Suc m1" using l(6) by (cases m') auto
  have "ScatterGatherHelper n vs (int m) = Some (?vs', int m')"
    using l(1) by (simp add: ScatterGatherHelper_def vs Let_def)
  moreover have ok: "iovs_ok ?vs' m'" using l(3-5) by (auto simp: m1 iovs_ok_Cons)
  moreover have c: "iov_content (take m' ?vs') = drop n (iov_content (take m vs))"
    using l(7) by (simp add: m1)
  moreover have "iov_total (take m' ?vs') = iov_total (take m vs) - n"
    using arg_cong [OF c, of length] length_iov_content [OF ok] length_iov_content [OF assms(1)]
    by simp
  ultimately show ?thesis by blast
qed


text \<open>What a call of \<open>ScatterGatherSocketWrite\<close> on a valid array may result in.\<close>

definition sg_post :: "iov list \<Rightarrow> nat \<Rightarrow> bytes \<Rightarrow> sg_result \<Rightarrow> bool" where
  "sg_post vs m sent res = (case res of
       SG_out_of_bounds \<Rightarrow> False
     | SG_no_return \<Rightarrow> True
     | SG_return vs' n' r' e' sent' as' \<Rightarrow>
         (let content = iov_content (take m vs); written = length content - r' in
          r' \<le> length content \<and> sent' = sent @ take written content
          \<and> (0 < r' \<longrightarrow> e' \<noteq> EINTR \<and> iovs_ok vs' (nat n') \<and> 0 \<le> n'
               \<and> iov_total (take (nat n') vs') = r'
               \<and> iov_content (take (nat n') vs') = drop written content)))"

lemma SelectForWrite_errno: "SelectForWrite e as = Some (False, e', as') \<Longrightarrow> e' \<noteq> EINTR"
  by (induction e as rule: SelectForWrite.induct) (auto split: if_splits)

lemma sg_post_step:
  assumes "sg_post vs' m' (sent @ take k (iov_content (take m vs))) res"
      and "iov_content (take m' vs') = drop k (iov_content (take m vs))"
      and "k \<le> length (iov_content (take m vs))"
  shows "sg_post vs m sent res"
proof (cases res)
  case (SG_return vs2 n2 r2 e2 sent2 as2)
  let ?c = "iov_content (take m vs)"
  have "r2 \<le> length ?c - k" "sent2 = (sent @ take k ?c) @ take (length ?c - k - r2) (drop k ?c)"
    using assms(1) by (simp_all add: SG_return sg_post_def assms(2) Let_def)
  moreover have "take k ?c @ take (length ?c - k - r2) (drop k ?c) = take (length ?c - r2) ?c"
    by (rule take_step [OF assms(3)]) (rule \<open>r2 \<le> length ?c - k\<close>)
  moreover have "drop (length ?c - k - r2) (drop k ?c) = drop (length ?c - r2) ?c"
    using \<open>r2 \<le> length ?c - k\<close> assms(3) by simp
  ultimately show ?thesis using assms(1)
    by (simp add: SG_return sg_post_def assms(2) Let_def)
qed (use assms in \<open>simp_all add: sg_post_def\<close>)

lemma ScatterGatherLoop_post:
  "iovs_ok vs m \<Longrightarrow> r = iov_total (take m vs) \<Longrightarrow> n = int m \<Longrightarrow>
     sg_post vs m sent (ScatterGatherLoop w vs n r e sent as)"
proof (induction w vs n r e sent as arbitrary: m rule: ScatterGatherLoop.induct)
  case (1 w vs n r e sent as)
  let ?c = "iov_content (take m vs)"
  have len: "length ?c = r" using length_iov_content [OF 1(5)] 1(6) by simp
  note unfold = ScatterGatherLoop.simps [of w vs n r e sent as]
  have ret: "sg_post vs m sent (SG_return vs n r e' sent as')" if "e' \<noteq> EINTR" for e' as'
    using 1(5-7) that len by (simp add: sg_post_def Let_def)
  show ?case
  proof (cases "r = 0")
    case True
    then show ?thesis using len by (subst unfold) (simp add: sg_post_def)
  next
    case r: False
    show ?thesis
    proof (cases as)
      case Nil
      then show ?thesis using r by (subst unfold) (simp add: sg_post_def)
    next
      case (Cons a as1)
      show ?thesis
      proof (cases a)
        case (Errno x)
        show ?thesis
        proof (cases "SelectForWrite x as1")
          case None
          then show ?thesis using 1(3,5,6,7) r Cons Errno ret
            by (subst unfold) (auto simp: sg_post_def [of _ _ _ SG_no_return])
        next
          case (Some t)
          obtain b e2 as2 where t: "t = (b, e2, as2)" by (cases t) auto
          show ?thesis using 1(3,4,5,6,7) r Cons Errno Some t ret SelectForWrite_errno [of x as1 e2 as2]
            by (subst unfold) (auto)
        qed
      next
        case (Count k)
        let ?k = "min k r"
        show ?thesis
        proof (cases "r - ?k > 0")
          case True
          then have lt: "?k < iov_total (take m vs)" and kr: "k < r" using 1(6) by auto
          obtain vs' m' where h: "ScatterGatherHelper ?k vs (int m) = Some (vs', int m')"
              "iovs_ok vs' m'" "iov_content (take m' vs') = drop ?k ?c"
              "iov_total (take m' vs') = iov_total (take m vs) - ?k"
            using ScatterGatherHelper_correct [OF 1(5) lt] by auto
          have "ScatterGatherLoop w vs n r e sent as
              = ScatterGatherLoop w vs' (int m') (r - ?k) e (sent @ take ?k ?c) as1"
            using r Cons Count True kr h(1) len 1(7) by (subst unfold) (simp add: Let_def)
          moreover have "sg_post vs' m' (sent @ take ?k ?c)
              (ScatterGatherLoop w vs' (int m') (r - ?k) e (sent @ take ?k ?c) as1)"
            using r Cons Count True h len 1(6,7) by (intro 1(1)) (auto simp: Let_def)
          ultimately show ?thesis using h(3) len by (auto intro: sg_post_step)
        next
          case False
          then have k: "?k = r" by simp
          have "ScatterGatherLoop w vs n r e sent as = SG_return vs n 0 e (sent @ ?c) as1"
            using r Cons Count k len 1(7)
            by (subst unfold) (simp add: Let_def ScatterGatherLoop.simps)
          then show ?thesis by (simp add: sg_post_def)
        qed
      qed
    qed
  qed
qed


lemma foldl_iov_total: "foldl (\<lambda>n v. n + snd v) k vs = k + iov_total vs"
  by (induction vs arbitrary: k) (simp_all add: iov_total_def)

text \<open>
  C19. \<open>ScatterGatherSocketWrite\<close> on a valid array of \<open>iovec\<close>s never leaves the array, whatever the
  system calls answer. When it returns, the bytes sent are a prefix of the content of the array
  (all of it exactly when it reports 0 bytes remaining); otherwise \<open>errno\<close> is not \<open>EINTR\<close>, and the
  returned array is again valid and holds exactly the bytes not yet sent, so that calling again
  continues where the call stopped.
\<close>

theorem ScatterGatherSocketWrite_correct:
  assumes "iovs_ok iovs m"
  shows "case ScatterGatherSocketWriteAll iovs m wait errno as of
       SG_out_of_bounds \<Rightarrow> False
     | SG_no_return \<Rightarrow> True
     | SG_return iovs' n' remaining errno' sent as' \<Rightarrow>
         sent @ (if remaining = 0 then [] else iov_content (take (nat n') iovs'))
           = iov_content (take m iovs)
         \<and> (0 < remaining \<longrightarrow> errno' \<noteq> EINTR \<and> 0 \<le> n' \<and> iovs_ok iovs' (nat n')
              \<and> remaining = length (iov_content (take (nat n') iovs')))"
proof -
  have post: "sg_post iovs m [] (ScatterGatherSocketWriteAll iovs m wait errno as)"
    using ScatterGatherLoop_post [OF assms refl refl]
    by (simp add: ScatterGatherSocketWriteAll_def ScatterGatherSocketWrite_def foldl_iov_total)
  show ?thesis
  proof (cases "ScatterGatherSocketWriteAll iovs m wait errno as")
    case (SG_return iovs' n' remaining errno' sent as')
    show ?thesis
    proof (cases "remaining = 0")
      case False
      then show ?thesis using post length_iov_content [of iovs' "nat n'"]
        by (simp add: SG_return sg_post_def Let_def)
    qed (use post in \<open>simp add: SG_return sg_post_def Let_def\<close>)
  qed (use post in \<open>simp_all add: sg_post_def\<close>)
qed

theorem ScatterGatherSocketWrite_correct_witness:
  "ScatterGatherSocketWriteAll [([1, 2, 3], 3), ([4, 5], 2)] 2 False 0 [Count 4, Errno EPIPE]
     = SG_return [([5], 1)] 1 1 EPIPE [1, 2, 3, 4] [] \<and> iovs_ok [([5], 1)] 1"
proof -
  have ok: "iovs_ok [([1, 2, 3], 3), ([4, 5], 2)] 2" by (simp add: iovs_ok_def)
  have run: "ScatterGatherSocketWriteAll [([1, 2, 3], 3), ([4, 5], 2)] 2 False 0
      [Count 4, Errno EPIPE] = SG_return [([5], 1)] 1 1 EPIPE [1, 2, 3, 4] []"
    by (simp add: ScatterGatherSocketWriteAll_def ScatterGatherSocketWrite_def
          ScatterGatherLoop.simps ScatterGatherHelper_def Let_def)
  show ?thesis
    using ScatterGatherSocketWrite_correct [OF ok, of False 0 "[Count 4, Errno EPIPE]"] run by simp
qed

text \<open>
  C30. A timeout of \<open>select\<close> does not end \<open>ScatterGatherSocketWrite\<close>: as long as \<open>writev\<close> answers
  \<open>EAGAIN\<close> and \<open>select\<close> times out, however many times, the function calls them again and does not
  return.
\<close>

theorem ScatterGatherSocketWrite_ignores_timeout:
  "iov_total (take m iovs) = 0 \<or>
     ScatterGatherSocketWriteAll iovs m True errno (concat (replicate k [Errno EAGAIN, Count 0]))
       = SG_no_return"
proof -
  have "ScatterGatherLoop True vs n r e sent (concat (replicate k [Errno EAGAIN, Count 0])) = SG_no_return"
    if "r > 0" for vs n r e sent
    using that by (induction k arbitrary: e) (simp_all add: ScatterGatherLoop.simps)
  then show ?thesis
    by (cases "iov_total (take m iovs) = 0")
       (simp_all add: ScatterGatherSocketWriteAll_def ScatterGatherSocketWrite_def foldl_iov_total)
qed


section \<open>Reading and writing: the results\<close>

text \<open>
  Why a call of \<open>SocketRead\<close> came to an end early: the answer to its last system call was an error,
  which is the value of \<open>errno\<close>, or a read of no byte, when \<open>errno\<close> is 0.
\<close>

fun tells_why :: "answer \<Rightarrow> int \<Rightarrow> bytes \<Rightarrow> bool" where
  "tells_why (Errno e) errno queue = (errno = e \<and> e \<noteq> EINTR)"
| "tells_why (Count k) errno queue = (errno = 0 \<and> (k = 0 \<or> queue = []))"

lemma SocketReadLoop_why:
  "SocketReadLoop r buf e q as = Some (r', e', buf', q', as') \<Longrightarrow>
     (0 < r' \<longrightarrow> (\<exists>used a. as = used @ a # as' \<and> tells_why a e' q')) \<and> (r' = 0 \<longrightarrow> e' \<in> {e, EINTR})"
proof (induction r buf e q as rule: SocketReadLoop.induct)
  case (1 r buf e q as)
  show ?case
  proof (cases "0 < r \<and> as \<noteq> []")
    case False
    then show ?thesis using 1(3) by (subst (asm) SocketReadLoop.simps) (auto split: if_splits)
  next
    case True
    then obtain a as1 where as: "as = a # as1" and r: "r > 0" by (cases as) auto
    have more: ?thesis if "(0 < r' \<longrightarrow> (\<exists>used b. as1 = used @ b # as' \<and> tells_why b e' q')) \<and> (r' = 0 \<longrightarrow> e' \<in> {e, EINTR})"
      using that by (auto simp: as)
    have last: ?thesis if "r' = r" "as' = as1" "tells_why a e' q'"
      using that r by (auto simp: as intro: exI [of _ "[]"])
    show ?thesis
    proof (cases a)
      case (Errno x)
      show ?thesis
      proof (cases "x = EINTR")
        case True
        have "SocketReadLoop r buf x q as1 = Some (r', e', buf', q', as')"
          using 1(3) r True by (subst (asm) SocketReadLoop.simps) (simp add: as Errno)
        from 1(2) [OF r as Errno True this] show ?thesis using True by (intro more) auto
      next
        case False
        then show ?thesis using 1(3) r
          by (intro last; subst (asm) SocketReadLoop.simps) (simp_all add: as Errno)
      qed
    next
      case (Count k)
      let ?got = "take (min k r) q"
      show ?thesis
      proof (cases "length ?got = 0")
        case True
        then have "k = 0 \<or> q = []" using r by (cases q; cases k; cases r) simp_all
        then have "SocketReadLoop r buf e q as = Some (r, 0, buf, q, as1)"
          using r by (subst SocketReadLoop.simps) (auto simp: as Count Let_def)
        then show ?thesis using 1(3) \<open>k = 0 \<or> q = []\<close> by (intro last) (auto simp: Count)
      next
        case False
        have "SocketReadLoop (r - length ?got) (buf @ ?got) e (drop (length ?got) q) as1
            = Some (r', e', buf', q', as')"
          using 1(3) r False
          by (subst (asm) SocketReadLoop.simps)
             (simp only: as Count list.case answer.case Let_def if_True if_False)
        from 1(1) [OF r as Count refl refl False this] show ?thesis by (rule more)
      qed
    qed
  qed
qed

text \<open>
  C31. \<open>SocketRead\<close> delivers a prefix of the receive queue, as long as the number it returns, and
  leaves the rest in the queue. When the count is short, \<open>errno\<close> tells why: it is the error, other than
  \<open>EINTR\<close>, with which the last system call failed, or 0 if the last call was the read of no byte that
  means the end of the file. When the count is complete, \<open>errno\<close> is what it was, or \<open>EINTR\<close> if a call
  was interrupted and repeated.
\<close>

theorem SocketRead_correct:
  "case SocketRead cnt errno queue as of
     None \<Rightarrow> True
   | Some (n, errno', buffer, queue', as') \<Rightarrow>
       n \<le> cnt \<and> length buffer = n \<and> buffer @ queue' = queue
       \<and> (if n < cnt then \<exists>used a. as = used @ a # as' \<and> tells_why a errno' queue'
          else errno' \<in> {errno, EINTR})"
proof (cases "SocketReadLoop cnt [] errno queue as")
  case (Some t)
  then obtain r e b q as' where t: "SocketReadLoop cnt [] errno queue as = Some (r, e, b, q, as')"
    by (cases t) auto
  have "r \<le> cnt \<and> b = take (cnt - r) queue \<and> q = drop (cnt - r) queue \<and> cnt - r \<le> length queue"
    using SocketReadLoop_inv [OF t] by simp
  moreover note SocketReadLoop_why [OF t]
  ultimately show ?thesis using t by (auto simp: SocketRead_def)
qed (simp add: SocketRead_def)

theorem SocketRead_correct_witness:
  "SocketRead 4 0 [1, 2, 3] [Count 2, Errno EINTR, Count 1, Errno EAGAIN, Count 7]
     = Some (3, EAGAIN, [1, 2, 3], [], [Count 7])
   \<and> (\<exists>used a. [Count 2, Errno EINTR, Count 1, Errno EAGAIN, Count 7] = used @ a # [Count 7]
        \<and> tells_why a EAGAIN [])"
proof -
  have "SocketRead 4 0 [1, 2, 3] [Count 2, Errno EINTR, Count 1, Errno EAGAIN, Count 7]
      = Some (3, EAGAIN, [1, 2, 3], [], [Count 7])"
    by (simp add: SocketRead_def SocketReadLoop.simps numeral_eq_Suc)
  then show ?thesis
    using SocketRead_correct [where cnt = 4 and errno = 0 and queue = "[1, 2, 3]"
        and as = "[Count 2, Errno EINTR, Count 1, Errno EAGAIN, Count 7]"]
    by simp
qed

text \<open>
  C32. A writer of the library sends a list of messages one after the other and stops at the first
  that is cut short. With \<open>SocketWrite\<close> and with \<open>WriteOnSelect\<close>, under any answers of the system
  calls, the stream then consists of the messages before, complete and in order, and a proper
  prefix of the message at which it stopped; \<open>errno\<close> is not \<open>EINTR\<close>.
\<close>

theorem writers_keep_framing:
  "(case sw.write_all ms errno as of None \<Rightarrow> True | Some (rest, errno', sent, as') \<Rightarrow>
      \<exists>k \<le> length ms. rest = drop k ms \<and>
        (if rest = [] then sent = concat ms
         else \<exists>n < length (hd rest). sent = concat (take k ms) @ take n (hd rest) \<and> errno' \<notin> {EINTR}))
   \<and> (case ws.write_all ms errno as of None \<Rightarrow> True | Some (rest, errno', sent, as') \<Rightarrow>
      \<exists>k \<le> length ms. rest = drop k ms \<and>
        (if rest = [] then sent = concat ms
         else \<exists>n < length (hd rest). sent = concat (take k ms) @ take n (hd rest) \<and> errno' \<notin> {EINTR}))"
  by (intro conjI sw.write_all_cases ws.write_all_cases)

text \<open>
  The answers after which the loops make another call without having written a byte: a write of no
  byte, an interruption, and (for a write after \<open>select\<close>) a socket that is not ready after all.
\<close>

definition without_progress :: "answer \<Rightarrow> bool" where
  "without_progress a \<longleftrightarrow> a = Count 0 \<or> a = Errno EINTR \<or> a = Errno EAGAIN"

lemma without_progress_simps [simp]:
  "without_progress (Count k) \<longleftrightarrow> k = 0" "without_progress (Errno e) \<longleftrightarrow> e = EINTR \<or> e = EAGAIN"
  by (simp_all add: without_progress_def)








end
