(* ===== verification/Request_Object.thy ===== *)
theory Request_Object
  imports Fcgi_Protocol
begin

text \<open>
  The data of \<open>FcgiRequest\<close> (\<open>fcgi/include/fcgi_request.h\<close>), the object by which the application
  serves a request, and its value operations: default construction, the two moves and the simple
  observers. The operations that use the interface are in \<open>Fcgi_Request\<close>.

  A pointer into the interface is represented by what finds the object there: the key of the
  \<open>RequestData\<close>, the connection of the write mutex and of its flag; \<open>None\<close> is a null pointer. There
  is one interface at a time, so that of \<open>interface_ptr_\<close> only its being null matters.
\<close>

record FcgiRequest =
  associated_interface_id :: "64 word"
  interface_ptr :: bool
  request_identifier :: FcgiRequestIdentifier
  request_data_ptr :: "FcgiRequestIdentifier option"
  write_mutex_ptr :: "fd option"
  bad_connection_state_ptr :: "fd option"
  interface_pipe_write_descriptor :: fd
  request_environment_map :: "(bytes, bytes) std_map"
  request_stdin_content :: bytes
  request_data_content :: bytes
  request_role :: u16
  request_close_connection :: bool
  was_aborted :: bool
  completed :: bool

definition FcgiRequest_default :: FcgiRequest where
  "FcgiRequest_default = \<lparr> associated_interface_id = 0, interface_ptr = False,
     request_identifier = null_request_identifier, request_data_ptr = None, write_mutex_ptr = None,
     bad_connection_state_ptr = None, interface_pipe_write_descriptor = - 1,
     request_environment_map = [], request_stdin_content = [], request_data_content = [],
     request_role = 0, request_close_connection = False, was_aborted = False, completed = False \<rparr>"

text \<open>
  Move construction: the new object and what is left in the source. The source's members are
  reset one by one to the values of default construction.
\<close>

definition FcgiRequest_move :: "FcgiRequest \<Rightarrow> FcgiRequest \<times> FcgiRequest" where
  "FcgiRequest_move request =
     (request, request\<lparr> associated_interface_id := 0, interface_ptr := False,
        request_identifier := null_request_identifier, request_data_ptr := None,
        write_mutex_ptr := None, bad_connection_state_ptr := None,
        interface_pipe_write_descriptor := - 1, request_environment_map := [],
        request_stdin_content := [], request_data_content := [], request_role := 0,
        request_close_connection := False, was_aborted := False, completed := False \<rparr>)"

text \<open>Move assignment: the two objects afterwards; \<open>same\<close> is \<open>this == &request\<close>.\<close>

definition FcgiRequest_move_assign ::
  "bool \<Rightarrow> FcgiRequest \<Rightarrow> FcgiRequest \<Rightarrow> exn + FcgiRequest \<times> FcgiRequest"
where
  "FcgiRequest_move_assign same this_object request =
     (if same then Inr (this_object, request)
      else if \<not> (completed this_object \<or> associated_interface_id this_object = 0) then Inl LogicError
      else Inr (FcgiRequest_move request))"

definition get_keep_conn :: "FcgiRequest \<Rightarrow> bool" where
  "get_keep_conn q = (\<not> request_close_connection q)"

definition get_completion_status :: "FcgiRequest \<Rightarrow> bool" where
  "get_completion_status q = completed q"

text \<open>A null object: default constructed or moved from.\<close>

abbreviation null_request :: "FcgiRequest \<Rightarrow> bool" where
  "null_request q \<equiv> associated_interface_id q = 0"

lemma FcgiRequest_move_default: "FcgiRequest_move q = (q, FcgiRequest_default)"
  by (cases q) (simp add: FcgiRequest_move_def FcgiRequest_default_def)

end
