(* ===== verification/Server_State.thy ===== *)
theory Server_State
  imports Request_Data Request_Object Outcome_Monad Socket_Functions
begin

text \<open>
  The state of \<open>FcgiServerInterface\<close> (\<open>fcgi/include/fcgi_server_interface.h\<close>) and of its
  \<open>RecordStatus\<close> objects, the part of the kernel the interface talks to, and the invariant that
  ties the maps of the interface to each other and to the open descriptors.

  The interface mutex is not part of the state: each definition is a section of code that the
  C++ code runs with the mutex held, or without need of it. An exception of the memory allocator
  or of a mutex is not modelled.
\<close>

section \<open>RecordStatus\<close>

record RecordStatus =
  connection :: fd
  header :: bytes
  bytes_received :: nat
  content_bytes_expected :: u16
  padding_bytes_expected :: byte
  record_type :: FcgiType
  request_id :: FcgiRequestIdentifier
  invalidated_by_header :: bool
  local_record_content_buffer :: bytes

definition RecordStatus_new :: "fd \<Rightarrow> RecordStatus" where
  "RecordStatus_new c = \<lparr> connection = c, header = replicate FCGI_HEADER_LEN 0, bytes_received = 0,
     content_bytes_expected = 0, padding_bytes_expected = 0, record_type = 0,
     request_id = null_request_identifier, invalidated_by_header = False,
     local_record_content_buffer = [] \<rparr>"

definition ClearRecord :: "RecordStatus \<Rightarrow> RecordStatus" where
  "ClearRecord rs = rs\<lparr> header := replicate FCGI_HEADER_LEN 0, bytes_received := 0,
     content_bytes_expected := 0, padding_bytes_expected := 0, record_type := 0,
     request_id := null_request_identifier, invalidated_by_header := False,
     local_record_content_buffer := [] \<rparr>"

definition ExpectedBytes :: "RecordStatus \<Rightarrow> nat" where
  "ExpectedBytes rs =
     unat (padding_bytes_expected rs) + unat (content_bytes_expected rs) + FCGI_HEADER_LEN"

definition IsHeaderComplete :: "RecordStatus \<Rightarrow> bool" where
  "IsHeaderComplete rs \<longleftrightarrow> bytes_received rs \<ge> FCGI_HEADER_LEN"

definition IsRecordComplete :: "RecordStatus \<Rightarrow> bool" where
  "IsRecordComplete rs \<longleftrightarrow> ExpectedBytes rs = bytes_received rs"

lemma ClearRecord_is_new: "ClearRecord rs = RecordStatus_new (connection rs)"
  by (cases rs) (simp add: ClearRecord_def RecordStatus_new_def)

section \<open>The kernel\<close>

text \<open>
  What a descriptor refers to, the script of answers, \<open>errno\<close>, and for each descriptor the bytes
  written to it, its receive queue and the address of its peer, whether a write has been answered
  with \<open>EPIPE\<close> (the peer does not receive anything any more), whether \<open>select\<close> finds input, and the
  file status flags; and the descriptors with which \<open>close\<close> has been called, in the order of the calls,
  also those that were not open.
\<close>

datatype description = Listening_socket | Connected_socket | Pipe_end

record kernel =
  open_fds :: "fd \<Rightarrow> description option"
  script :: script
  errno :: int
  wire :: "fd \<Rightarrow> bytes"
  queue :: "fd \<Rightarrow> bytes"
  peer_address :: "fd \<Rightarrow> string"
  peer_gone :: "fd \<Rightarrow> bool"
  readable :: "fd \<Rightarrow> bool"
  status_flags :: "fd \<Rightarrow> int"
  close_calls :: "fd list"

section \<open>The interface\<close>

type_synonym request_iterator = "FcgiRequestIdentifier option"

text \<open>
  The members of the class. \<open>write_mutex_map\<close> holds, for each connection, whether a request
  currently holds the write mutex and the flag that marks the connection as corrupt. A
  \<open>std::set<int>\<close> is a map to \<^typ>\<open>unit\<close>. The two identifiers are the static members.
\<close>

record interface =
  listening_descriptor :: fd
  app_status_on_abort :: int
  maximum_connection_count :: int
  maximum_request_count_per_connection :: int
  socket_domain :: int
  valid_ip_address_set :: "(string, unit) std_map"
  application_overload :: bool
  self_pipe_read_descriptor :: fd
  record_status_map :: "(fd, RecordStatus) std_map"
  dummy_descriptor_set :: "(fd, unit) std_map"
  request_buffer_on_throw :: "FcgiRequest list"
  self_pipe_write_descriptor :: fd
  write_mutex_map :: "(fd, bool \<times> bool) std_map"
  application_closure_request_set :: "(fd, unit) std_map"
  request_count_map :: "(fd, int) std_map"
  request_map :: "(FcgiRequestIdentifier, RequestData) std_map"
  bad_interface_state_detected :: bool
  interface_identifier :: "64 word"
  previous_interface_identifier :: "64 word"
  os :: kernel

type_synonym 'a iop = "(interface, 'a) op"

abbreviation set_bad :: "interface \<Rightarrow> interface" where
  "set_bad s \<equiv> s\<lparr>bad_interface_state_detected := True\<rparr>"

definition InterfaceCheck :: "unit iop" where
  "InterfaceCheck = bind (gets bad_interface_state_detected)
     (\<lambda>bad. if bad then throw RuntimeError else ret ())"

definition interface_status :: "interface \<Rightarrow> bool" where
  "interface_status s \<longleftrightarrow> \<not> bad_interface_state_detected s"

text \<open>\<open>application_closure_request_set_.insert(connection)\<close>.\<close>

definition schedule_closure :: "fd \<Rightarrow> interface \<Rightarrow> interface" where
  "schedule_closure c s =
     s\<lparr>application_closure_request_set := om_insert c () (application_closure_request_set s)\<rparr>"

section \<open>Access\<close>

text \<open>
  Dereferencing an iterator of \<open>request_map_\<close> or a pointer to one of its elements is undefined
  behaviour if the element has been erased; \<open>find\<close> and \<open>operator[]\<close> of a vector.
\<close>

definition request_data :: "FcgiRequestIdentifier \<Rightarrow> RequestData iop" where
  "request_data r = bind (gets (\<lambda>s. om_find r (request_map s)))
     (\<lambda>found. case found of None \<Rightarrow> undefined_behaviour | Some rd \<Rightarrow> ret rd)"

definition set_request_data :: "FcgiRequestIdentifier \<Rightarrow> RequestData \<Rightarrow> unit iop" where
  "set_request_data r rd = modify (\<lambda>s. s\<lparr>request_map := om_set r rd (request_map s)\<rparr>)"

definition find_request :: "FcgiRequestIdentifier \<Rightarrow> request_iterator iop" where
  "find_request r = gets (\<lambda>s. if om_mem r (request_map s) then Some r else None)"

definition vector_at :: "bytes \<Rightarrow> nat \<Rightarrow> byte iop" where
  "vector_at buffer i = (if i < length buffer then ret (buffer ! i) else undefined_behaviour)"

section \<open>System calls\<close>

abbreviation (input) EBADF :: int where "EBADF \<equiv> 9"

text \<open>
  \<open>close\<close> releases the descriptor whatever it returns (Linux); on a descriptor that is not open it
  fails with \<open>EBADF\<close>. Every call is recorded.
\<close>

definition sys_close :: "fd \<Rightarrow> int iop" where
  "sys_close c = (\<lambda>s. let k = os s; calls = close_calls k @ [c] in
     if open_fds k c = None then (Ok (- 1), s\<lparr>os := k\<lparr>errno := EBADF, close_calls := calls\<rparr>\<rparr>)
     else case script k of
         [] \<Rightarrow> (Blocked, s)
       | Count n # as \<Rightarrow>
           (Ok 0, s\<lparr>os := k\<lparr>open_fds := (open_fds k)(c := None), script := as, close_calls := calls\<rparr>\<rparr>)
       | Errno e # as \<Rightarrow>
           (Ok (- 1), s\<lparr>os := k\<lparr>open_fds := (open_fds k)(c := None), errno := e, script := as,
              close_calls := calls\<rparr>\<rparr>))"

text \<open>A loop that repeats a call as long as it fails with one of the errors of a list.\<close>

fun retry :: "int list \<Rightarrow> script \<Rightarrow> (answer \<times> script) option" where
  "retry es [] = None"
| "retry es (Errno e # as) = (if e \<in> set es then retry es as else Some (Errno e, as))"
| "retry es (Count n # as) = Some (Count n, as)"

text \<open>\<open>dup2(oldfd, newfd)\<close> in its loop: \<open>newfd\<close> refers to the description of \<open>oldfd\<close> afterwards.\<close>

definition sys_dup2_retry :: "fd \<Rightarrow> fd \<Rightarrow> bool iop" where
  "sys_dup2_retry oldfd newfd = (\<lambda>s. let k = os s in
     case retry [EINTR, EBUSY] (script k) of
       None \<Rightarrow> (Blocked, s)
     | Some (Count n, as) \<Rightarrow>
         (Ok True, s\<lparr>os := k\<lparr>open_fds := (open_fds k)(newfd := open_fds k oldfd), script := as\<rparr>\<rparr>)
     | Some (Errno e, as) \<Rightarrow> (Ok False, s\<lparr>os := k\<lparr>errno := e, script := as\<rparr>\<rparr>))"

definition sys_WriteOnSelect :: "fd \<Rightarrow> bytes \<Rightarrow> nat \<Rightarrow> nat iop" where
  "sys_WriteOnSelect c buffer cnt = (\<lambda>s. let k = os s in
     case WriteOnSelect buffer cnt (errno k) (script k) of
       None \<Rightarrow> (Blocked, s)
     | Some (n, e, sent, as) \<Rightarrow>
         (Ok n, s\<lparr>os := k\<lparr>errno := e, script := as, wire := (wire k)(c := wire k c @ sent)\<rparr>\<rparr>))"

definition sys_SocketRead :: "fd \<Rightarrow> nat \<Rightarrow> bytes iop" where
  "sys_SocketRead c cnt = (\<lambda>s. let k = os s in
     case SocketRead cnt (errno k) (queue k c) (script k) of
       None \<Rightarrow> (Blocked, s)
     | Some (n, e, buffer, q, as) \<Rightarrow>
         (Ok buffer, s\<lparr>os := k\<lparr>errno := e, script := as, queue := (queue k)(c := q)\<rparr>\<rparr>))"

section \<open>The invariant\<close>

definition requests_of :: "fd \<Rightarrow> interface \<Rightarrow> FcgiRequestIdentifier set" where
  "requests_of c s = {r \<in> keys (request_map s). descriptor r = c}"

text \<open>
  What holds even after an error that corrupted the interface, and makes its destruction safe:
  the descriptors to be closed are open and pairwise different.
\<close>

definition descriptors_inv :: "interface \<Rightarrow> bool" where
  "descriptors_inv s \<longleftrightarrow>
     om_wf (record_status_map s) \<and> om_wf (write_mutex_map s) \<and> om_wf (dummy_descriptor_set s)
     \<and> om_wf (application_closure_request_set s) \<and> om_wf (request_count_map s)
     \<and> om_wf (request_map s)
     \<and> keys (write_mutex_map s) = keys (record_status_map s)
     \<and> keys (dummy_descriptor_set s) \<inter> keys (record_status_map s) = {}
     \<and> (\<forall>c \<in> keys (record_status_map s). open_fds (os s) c = Some Connected_socket)
     \<and> (\<forall>c \<in> keys (dummy_descriptor_set s). open_fds (os s) c = Some Listening_socket)
     \<and> open_fds (os s) (listening_descriptor s) = Some Listening_socket
     \<and> listening_descriptor s \<notin> keys (dummy_descriptor_set s)
     \<and> open_fds (os s) (self_pipe_read_descriptor s) = Some Pipe_end
     \<and> open_fds (os s) (self_pipe_write_descriptor s) = Some Pipe_end
     \<and> self_pipe_read_descriptor s \<noteq> self_pipe_write_descriptor s"

text \<open>The accounting of the requests of each connection.\<close>

definition counts_inv :: "interface \<Rightarrow> bool" where
  "counts_inv s \<longleftrightarrow>
     keys (request_count_map s) = keys (record_status_map s) \<union> keys (dummy_descriptor_set s)
     \<and> (\<forall>c n. om_find c (request_count_map s) = Some n \<longrightarrow> n = int (card (requests_of c s)))
     \<and> (\<forall>r \<in> keys (request_map s). descriptor r \<in> keys (request_count_map s) \<and> Fcgi_id r \<noteq> 0)"

text \<open>
  The requests: those of an open connection are not marked as closed by the interface, those that
  outlive their connection have been assigned to the application and are marked; an assigned
  request has been received completely; the environment of a request is not set before that.
\<close>

definition received :: "RequestData \<Rightarrow> bool" where
  "received rd \<longleftrightarrow> FCGI_PARAMS_complete rd \<and> FCGI_STDIN_complete rd \<and> FCGI_DATA_complete rd"

definition request_ok :: "bool \<Rightarrow> RequestData \<Rightarrow> bool" where
  "request_ok dummy rd \<longleftrightarrow>
     (if dummy then request_status rd = kRequestAssigned \<and> connection_closed_by_interface rd
      else \<not> connection_closed_by_interface rd)
     \<and> (request_status rd = kRequestAssigned \<longrightarrow> received rd)
     \<and> (\<not> received rd \<longrightarrow> environment_map rd = [])"

definition requests_inv :: "interface \<Rightarrow> bool" where
  "requests_inv s \<longleftrightarrow>
     (\<forall>r rd. om_find r (request_map s) = Some rd \<longrightarrow>
        request_ok (descriptor r \<in> keys (dummy_descriptor_set s)) rd)"

text \<open>Each record status belongs to its key and has a header of eight bytes.\<close>

definition statuses_inv :: "interface \<Rightarrow> bool" where
  "statuses_inv s \<longleftrightarrow>
     (\<forall>c rs. om_find c (record_status_map s) = Some rs \<longrightarrow>
        connection rs = c \<and> length (header rs) = FCGI_HEADER_LEN)"

text \<open>
  Only connections are scheduled for closure, and every connection on which a write was cut short
  is.
\<close>

definition closure_inv :: "interface \<Rightarrow> bool" where
  "closure_inv s \<longleftrightarrow> keys (application_closure_request_set s) \<subseteq> keys (record_status_map s)
     \<and> (\<forall>c held. om_find c (write_mutex_map s) = Some (held, True) \<longrightarrow>
          c \<in> keys (application_closure_request_set s))"

text \<open>The same when the connections in \<open>P\<close> are about to be scheduled.\<close>

definition closure_upto :: "fd set \<Rightarrow> interface \<Rightarrow> bool" where
  "closure_upto P s \<longleftrightarrow> keys (application_closure_request_set s) \<subseteq> keys (record_status_map s)
     \<and> (\<forall>c held. om_find c (write_mutex_map s) = Some (held, True) \<longrightarrow>
          c \<in> keys (application_closure_request_set s) \<or> c \<in> P)"

lemma closure_upto_none [simp]: "closure_upto {} = closure_inv"
  by (simp add: fun_eq_iff closure_upto_def closure_inv_def)

definition books_inv :: "interface \<Rightarrow> bool" where
  "books_inv s \<longleftrightarrow> descriptors_inv s \<and> counts_inv s \<and> requests_inv s \<and> statuses_inv s"

definition interface_inv :: "interface \<Rightarrow> bool" where
  "interface_inv s \<longleftrightarrow> descriptors_inv s \<and>
     (\<not> bad_interface_state_detected s \<longrightarrow>
        counts_inv s \<and> requests_inv s \<and> statuses_inv s \<and> closure_inv s)"

lemma interface_inv_books:
  "\<not> bad_interface_state_detected s \<Longrightarrow> interface_inv s \<longleftrightarrow> books_inv s \<and> closure_inv s"
  by (auto simp: interface_inv_def books_inv_def)

lemmas inv_defs = interface_inv_def descriptors_inv_def counts_inv_def requests_inv_def
  statuses_inv_def closure_inv_def

lemma closure_disjoint_dummy:
  assumes "interface_inv s" and "\<not> bad_interface_state_detected s"
  shows "keys (application_closure_request_set s) \<inter> keys (dummy_descriptor_set s) = {}"
  using assms by (auto simp: inv_defs)

section \<open>Frames\<close>

text \<open>The members that only the constructor sets.\<close>

definition same_config :: "interface \<Rightarrow> interface \<Rightarrow> bool" where
  "same_config s0 s \<longleftrightarrow> listening_descriptor s = listening_descriptor s0
     \<and> app_status_on_abort s = app_status_on_abort s0
     \<and> maximum_connection_count s = maximum_connection_count s0
     \<and> maximum_request_count_per_connection s = maximum_request_count_per_connection s0
     \<and> socket_domain s = socket_domain s0 \<and> valid_ip_address_set s = valid_ip_address_set s0
     \<and> application_overload s = application_overload s0
     \<and> self_pipe_read_descriptor s = self_pipe_read_descriptor s0
     \<and> self_pipe_write_descriptor s = self_pipe_write_descriptor s0
     \<and> interface_identifier s = interface_identifier s0
     \<and> previous_interface_identifier s = previous_interface_identifier s0"

lemma same_config_refl [simp]: "same_config s s"
  by (simp add: same_config_def)

lemma same_config_trans: "same_config s s' \<Longrightarrow> same_config s' s'' \<Longrightarrow> same_config s s''"
  by (simp add: same_config_def)

text \<open>A request that has been given to the application.\<close>

definition assigned :: "interface \<Rightarrow> FcgiRequestIdentifier \<Rightarrow> bool" where
  "assigned s r \<longleftrightarrow> (\<exists>rd. om_find r (request_map s) = Some rd \<and> request_status rd = kRequestAssigned)"

end
