(* ===== verification/Server_Requests.thy ===== *)
theory Server_Requests
  imports Server_State
begin

text \<open>
  The operations of \<open>fcgi/src/fcgi_server_interface.cc\<close> that keep the books of connections and
  requests: \<open>AddRequest\<close>, \<open>RemoveRequest\<close>, \<open>RequestCleanupDuringConnectionClosure\<close>,
  \<open>RemoveConnection\<close>, and the destructor.
\<close>

section \<open>Operations\<close>

definition AddRequest :: "FcgiRequestIdentifier \<Rightarrow> u16 \<Rightarrow> bool \<Rightarrow> request_iterator iop" where
  "AddRequest r the_role close_conn =
     bind
       (on_throw
          (bind (gets (\<lambda>s. om_find (descriptor r) (request_count_map s))) (\<lambda>request_count_iter.
             case request_count_iter of
               None \<Rightarrow> throw LogicError
             | Some n \<Rightarrow>
                 bind (gets (\<lambda>s. om_find r (request_map s))) (\<lambda>request_map_iter.
                   if request_map_iter \<noteq> None then throw LogicError else ret n)))
          (modify set_bad))
       (\<lambda>n. and_then
          (modify (\<lambda>s. s\<lparr>request_count_map := om_set (descriptor r) (n + 1) (request_count_map s)\<rparr>))
          (and_then
             (modify (\<lambda>s. s\<lparr>request_map :=
                om_insert r (RequestData_new the_role close_conn) (request_map s)\<rparr>))
             (ret (Some r))))"

definition RemoveRequestHelper :: "request_iterator \<Rightarrow> unit iop" where
  "RemoveRequestHelper iter =
     on_throw
       (case iter of
          None \<Rightarrow> throw LogicError
        | Some r \<Rightarrow>
            bind (gets (\<lambda>s. om_mem r (request_map s))) (\<lambda>valid.
              if \<not> valid then undefined_behaviour
              else bind (gets (\<lambda>s. om_find (descriptor r) (request_count_map s))) (\<lambda>found.
                case found of
                  None \<Rightarrow> throw OutOfRange
                | Some n \<Rightarrow>
                    if n = 0 then throw LogicError
                    else and_then
                      (modify (\<lambda>s. s\<lparr>request_count_map :=
                         om_set (descriptor r) (n - 1) (request_count_map s)\<rparr>))
                      (modify (\<lambda>s. s\<lparr>request_map := om_erase r (request_map s)\<rparr>)))))
       (modify set_bad)"

definition RemoveRequest_iter :: "request_iterator \<Rightarrow> unit iop" where
  "RemoveRequest_iter iter = RemoveRequestHelper iter"

definition RemoveRequest :: "FcgiRequestIdentifier \<Rightarrow> unit iop" where
  "RemoveRequest r =
     bind (gets (\<lambda>s. if om_mem r (request_map s) then Some r else None)) RemoveRequestHelper"

text \<open>
  The requests that the loop of \<open>RequestCleanupDuringConnectionClosure\<close> visits: the entries from
  \<open>lower_bound({connection, 0})\<close> up to the first larger descriptor. The loop erases only the entry
  it has just left, so the entries it visits are those present at the start.
\<close>

definition requests_from :: "fd \<Rightarrow> interface \<Rightarrow> FcgiRequestIdentifier list" where
  "requests_from c s = map fst (takeWhile (\<lambda>p. \<not> descriptor (fst p) > c)
     (dropWhile (\<lambda>p. fst p < FcgiRequestIdentifier c 0) (request_map s)))"

fun CleanupLoop :: "FcgiRequestIdentifier list \<Rightarrow> bool \<Rightarrow> bool iop" where
  "CleanupLoop [] assigned_requests_present = ret assigned_requests_present"
| "CleanupLoop (r # rs) assigned_requests_present =
     bind (gets (\<lambda>s. om_find r (request_map s))) (\<lambda>found.
       case found of
         None \<Rightarrow> undefined_behaviour
       | Some rd \<Rightarrow>
           if request_status rd = kRequestAssigned
           then and_then
             (modify (\<lambda>s. s\<lparr>request_map :=
                om_set r (set_connection_closed_by_interface rd) (request_map s)\<rparr>))
             (CleanupLoop rs True)
           else and_then (RemoveRequest_iter (Some r)) (CleanupLoop rs assigned_requests_present))"

definition RequestCleanupDuringConnectionClosure :: "fd \<Rightarrow> bool iop" where
  "RequestCleanupDuringConnectionClosure c =
     on_throw (bind (gets (requests_from c)) (\<lambda>rs. CleanupLoop rs False)) (modify set_bad)"

definition EraseConnectionOrTerminate :: "fd \<Rightarrow> bool \<Rightarrow> unit iop" where
  "EraseConnectionOrTerminate c erase_request_count =
     bind (gets (\<lambda>s. om_mem c (record_status_map s) \<and> om_mem c (write_mutex_map s)
                   \<and> (erase_request_count \<longrightarrow> om_mem c (request_count_map s)))) (\<lambda>present.
       if \<not> present then terminate
       else and_then
         (modify (\<lambda>s. s\<lparr>record_status_map := om_erase c (record_status_map s)\<rparr>))
         (and_then (modify (\<lambda>s. s\<lparr>write_mutex_map := om_erase c (write_mutex_map s)\<rparr>))
            (when_then erase_request_count
               (modify (\<lambda>s. s\<lparr>request_count_map := om_erase c (request_count_map s)\<rparr>)))))"

text \<open>\<open>throw std::system_error\<close> with the value of \<open>errno\<close>.\<close>

definition throw_errno :: "'a iop" where
  "throw_errno = bind (gets (\<lambda>s. errno (os s))) (\<lambda>e. throw (SystemError e))"

definition RemoveConnection :: "fd \<Rightarrow> bool iop" where
  "RemoveConnection c =
     on_throw
       (bind (gets (\<lambda>s. om_find c (write_mutex_map s))) (\<lambda>found.
          case found of
            None \<Rightarrow> throw OutOfRange
          | Some (held, corrupt) \<Rightarrow>
              if held then ret False
              else bind (RequestCleanupDuringConnectionClosure c) (\<lambda>assigned_requests.
                if assigned_requests
                then bind (gets listening_descriptor) (\<lambda>listening.
                  bind (sys_dup2_retry listening c) (\<lambda>duplicated.
                    if \<not> duplicated then throw_errno
                    else and_then
                      (modify (\<lambda>s. s\<lparr>dummy_descriptor_set :=
                         om_insert c () (dummy_descriptor_set s)\<rparr>))
                      (and_then (EraseConnectionOrTerminate c False) (ret True))))
                else and_then (EraseConnectionOrTerminate c True)
                  (bind (sys_close c) (\<lambda>close_return.
                     bind (gets (\<lambda>s. errno (os s))) (\<lambda>e.
                       if close_return = - 1 \<and> e \<noteq> EINTR then throw (SystemError e)
                       else ret True))))))
       (modify set_bad)"

text \<open>
  The destructor. The results of \<open>close\<close> are ignored. Waiting
  for the write mutexes is without effect on the state.
\<close>

fun close_all :: "fd list \<Rightarrow> unit iop" where
  "close_all [] = ret ()"
| "close_all (c # cs) = bind (sys_close c) (\<lambda>_. close_all cs)"

definition FcgiServerInterface_destructor :: "unit iop" where
  "FcgiServerInterface_destructor =
     bind (gets (\<lambda>s. map fst (dummy_descriptor_set s))) (\<lambda>dummies.
       and_then (close_all dummies)
         (bind (gets (\<lambda>s. [self_pipe_read_descriptor s, self_pipe_write_descriptor s])) (\<lambda>pipe.
            and_then (close_all pipe)
              (bind (gets (\<lambda>s. map fst (write_mutex_map s))) (\<lambda>connections.
                 and_then (close_all connections)
                   (modify (\<lambda>s. s\<lparr>interface_identifier := 0\<rparr>)))))))"

section \<open>Adding and removing a request\<close>

lemma requests_of_insert:
  "requests_of c (s\<lparr>request_map := om_insert r rd (request_map s)\<rparr>) =
     (if descriptor r = c then insert r (requests_of c s) else requests_of c s)"
  by (auto simp: requests_of_def)

lemma requests_of_erase:
  "om_wf (request_map s) \<Longrightarrow> requests_of c (s\<lparr>request_map := om_erase r (request_map s)\<rparr>) =
     requests_of c s - {r}"
  by (auto simp: requests_of_def keys_erase)

lemma finite_requests_of [simp]: "finite (requests_of c s)"
  by (simp add: requests_of_def)

lemma AddRequest_run:
  "AddRequest r ro cl s =
     (case om_find (descriptor r) (request_count_map s) of
        None \<Rightarrow> (Throw LogicError, set_bad s)
      | Some n \<Rightarrow>
          if r \<in> keys (request_map s) then (Throw LogicError, set_bad s)
          else (Ok (Some r), s\<lparr>request_count_map := om_set (descriptor r) (n + 1) (request_count_map s),
                  request_map := om_insert r (RequestData_new ro cl) (request_map s)\<rparr>))"
  by (auto simp: AddRequest_def on_throw_def try_catch_def bind_def keys_iff gets_def modify_def
        ret_def throw_def split: option.splits)

lemma RemoveRequestHelper_run:
  "RemoveRequestHelper (Some r) s =
     (if r \<notin> keys (request_map s) then (Undefined, s)
      else case om_find (descriptor r) (request_count_map s) of
          None \<Rightarrow> (Throw OutOfRange, set_bad s)
        | Some n \<Rightarrow>
            if n = 0 then (Throw LogicError, set_bad s)
            else (Ok (), s\<lparr>request_count_map := om_set (descriptor r) (n - 1) (request_count_map s),
                    request_map := om_erase r (request_map s)\<rparr>))"
  by (auto simp: RemoveRequestHelper_def on_throw_def try_catch_def bind_def om_mem_keys gets_def
        modify_def ret_def throw_def undefined_behaviour_def split: option.splits)


lemma set_bad_inv: "interface_inv s \<Longrightarrow> interface_inv (set_bad s)"
  by (simp add: interface_inv_def descriptors_inv_def)

lemma requests_of_only_map:
  "request_map s = request_map s' \<Longrightarrow> requests_of c s = requests_of c s'"
  by (simp add: requests_of_def)

lemma counts_inv_add:
  assumes "counts_inv s" and "om_wf (request_map s)" and "om_find (descriptor r) (request_count_map s) = Some n"
      and "r \<notin> keys (request_map s)" and "Fcgi_id r \<noteq> 0"
  shows "counts_inv (s\<lparr>request_count_map := om_set (descriptor r) (n + 1) (request_count_map s),
                  request_map := om_insert r rd (request_map s)\<rparr>)"
    (is "counts_inv ?s'")
proof -
  have "requests_of c ?s' = (if descriptor r = c then insert r (requests_of c s) else requests_of c s)" for c
    by (auto simp: requests_of_def)
  moreover have "r \<notin> requests_of c s" for c using assms(4) by (auto simp: requests_of_def)
  ultimately show ?thesis using assms
    by (auto simp: counts_inv_def om_find_set om_find_Some_keys)
qed

lemma counts_inv_remove:
  assumes "counts_inv s" and "om_wf (request_map s)" and "r \<in> keys (request_map s)"
  obtains n where "om_find (descriptor r) (request_count_map s) = Some n" and "n > 0"
    and "counts_inv (s\<lparr>request_count_map := om_set (descriptor r) (n - 1) (request_count_map s),
                  request_map := om_erase r (request_map s)\<rparr>)"
proof -
  have "descriptor r \<in> keys (request_count_map s)" using assms(1,3) by (auto simp: counts_inv_def)
  then obtain n where n: "om_find (descriptor r) (request_count_map s) = Some n"
    by (auto simp: keys_Some)
  then have card: "n = int (card (requests_of (descriptor r) s))"
    using assms(1) by (auto simp: counts_inv_def)
  have mem: "r \<in> requests_of (descriptor r) s" using assms(3) by (simp add: requests_of_def)
  then have pos: "0 < card (requests_of (descriptor r) s)"
    by (metis card_gt_0_iff empty_iff finite_requests_of)
  let ?s' = "s\<lparr>request_count_map := om_set (descriptor r) (n - 1) (request_count_map s),
                  request_map := om_erase r (request_map s)\<rparr>"
  have req: "requests_of c ?s' = requests_of c s - {r}" for c
    using assms(2) by (auto simp: requests_of_def keys_erase)
  have "int (card (requests_of (descriptor r) s - {r})) = n - 1"
    using mem pos card by (simp add: card_Diff_singleton)
  moreover have "requests_of c s - {r} = requests_of c s" if "c \<noteq> descriptor r" for c
    using that by (auto simp: requests_of_def)
  ultimately have "counts_inv ?s'" using assms(1,2) n
    by (auto simp: counts_inv_def om_find_set req keys_erase split: if_splits)
  then show thesis using n pos card by (intro that) auto
qed

lemma AddRequest_adds:
  assumes "interface_inv s" and "\<not> bad_interface_state_detected s"
      and "descriptor r \<in> keys (record_status_map s)" and "Fcgi_id r \<noteq> 0"
      and "r \<notin> keys (request_map s)"
  shows "\<exists>counts reqs. AddRequest r ro cl s
            = (Ok (Some r), s\<lparr>request_count_map := counts, request_map := reqs\<rparr>)
       \<and> interface_inv (s\<lparr>request_count_map := counts, request_map := reqs\<rparr>)
       \<and> (\<forall>r'. om_find r' reqs = (if r' = r then Some (RequestData_new ro cl)
                                  else om_find r' (request_map s)))
       \<and> (\<forall>c. om_find c counts = (if c = descriptor r
                 then map_option (\<lambda>n. n + 1) (om_find c (request_count_map s))
                 else om_find c (request_count_map s)))"
proof -
  have di: "descriptors_inv s" and ci: "counts_inv s" and ri: "requests_inv s"
      and others: "statuses_inv s" "closure_inv s"
    using assms(1,2) by (simp_all add: interface_inv_def)
  have wf: "om_wf (request_map s)" "om_wf (request_count_map s)"
      and nd: "descriptor r \<notin> keys (dummy_descriptor_set s)"
    using di assms(3) by (auto simp: descriptors_inv_def)
  obtain n where n: "om_find (descriptor r) (request_count_map s) = Some n"
    using ci assms(3) by (force simp: counts_inv_def keys_Some)
  define counts where "counts = om_set (descriptor r) (n + 1) (request_count_map s)"
  define reqs where "reqs = om_insert r (RequestData_new ro cl) (request_map s)"
  have find: "om_find r' reqs = (if r' = r then Some (RequestData_new ro cl)
                                  else om_find r' (request_map s))" for r'
    using assms(5) wf by (simp add: reqs_def om_find_insert keys_iff)
  have "counts_inv (s\<lparr>request_count_map := counts, request_map := reqs\<rparr>)"
    unfolding counts_def reqs_def by (rule counts_inv_add [OF ci wf(1) n assms(5) assms(4)])
  moreover have "requests_inv (s\<lparr>request_count_map := counts, request_map := reqs\<rparr>)"
    using ri nd by (simp add: requests_inv_def find request_ok_def received_def RequestData_new_def)
  moreover have "om_wf counts" "om_wf reqs" using wf by (simp_all add: counts_def reqs_def om_wf_insert)
  ultimately have "interface_inv (s\<lparr>request_count_map := counts, request_map := reqs\<rparr>)"
    using di others
    by (simp add: interface_inv_def descriptors_inv_def statuses_inv_def closure_inv_def)
  moreover have "AddRequest r ro cl s
      = (Ok (Some r), s\<lparr>request_count_map := counts, request_map := reqs\<rparr>)"
    using assms(5) n by (simp add: AddRequest_run counts_def reqs_def)
  moreover have "om_find c counts = (if c = descriptor r
      then map_option (\<lambda>n. n + 1) (om_find c (request_count_map s))
      else om_find c (request_count_map s))" for c
    using n by (simp add: counts_def om_find_set)
  ultimately show ?thesis using find
    by (intro exI [of _ counts] exI [of _ reqs] conjI allI; simp)
qed

text \<open>
  C24. \<open>AddRequest\<close>, for a connection of the interface: a request that is not present yet is added
  as a pending request with the given role and flag, the request count of its connection goes up
  by one, nothing else changes and the invariant of the interface is kept; a request that is
  already present is refused with \<open>logic_error\<close> and the interface is marked as corrupt.
\<close>

theorem AddRequest_correct:
  assumes "interface_inv s" and "\<not> bad_interface_state_detected s"
      and "descriptor r \<in> keys (record_status_map s)" and "Fcgi_id r \<noteq> 0"
  shows "if r \<in> keys (request_map s) then AddRequest r ro cl s = (Throw LogicError, set_bad s)
     else \<exists>counts reqs. AddRequest r ro cl s
            = (Ok (Some r), s\<lparr>request_count_map := counts, request_map := reqs\<rparr>)
       \<and> interface_inv (s\<lparr>request_count_map := counts, request_map := reqs\<rparr>)
       \<and> (\<forall>r'. om_find r' reqs = (if r' = r then Some (RequestData_new ro cl)
                                  else om_find r' (request_map s)))
       \<and> (\<forall>c. om_find c counts = (if c = descriptor r
                 then map_option (\<lambda>n. n + 1) (om_find c (request_count_map s))
                 else om_find c (request_count_map s)))"
proof (cases "r \<in> keys (request_map s)")
  case False
  then show ?thesis using AddRequest_adds [OF assms False, of ro cl] by (simp only: if_False)
qed (use assms in \<open>auto simp: AddRequest_run inv_defs keys_Some split: option.splits\<close>)


lemma RemoveRequestHelper_books:
  assumes "books_inv s" and "r \<in> keys (request_map s)"
  shows "\<exists>counts reqs. RemoveRequestHelper (Some r) s
            = (Ok (), s\<lparr>request_count_map := counts, request_map := reqs\<rparr>)
       \<and> books_inv (s\<lparr>request_count_map := counts, request_map := reqs\<rparr>)
       \<and> (\<forall>r'. om_find r' reqs = (if r' = r then None else om_find r' (request_map s)))
       \<and> (\<forall>c. om_find c counts = (if c = descriptor r
                 then map_option (\<lambda>n. n - 1) (om_find c (request_count_map s))
                 else om_find c (request_count_map s)))"
proof -
  have di: "descriptors_inv s" and ci: "counts_inv s" and ri: "requests_inv s"
      and others: "statuses_inv s"
    using assms by (simp_all add: books_inv_def)
  have wf: "om_wf (request_map s)" using di by (simp add: descriptors_inv_def)
  obtain n where n: "om_find (descriptor r) (request_count_map s) = Some n" "n > 0"
      "counts_inv (s\<lparr>request_count_map := om_set (descriptor r) (n - 1) (request_count_map s),
                  request_map := om_erase r (request_map s)\<rparr>)"
    by (rule counts_inv_remove [OF ci wf assms(2)])
  define counts where "counts = om_set (descriptor r) (n - 1) (request_count_map s)"
  define reqs where "reqs = om_erase r (request_map s)"
  have find: "om_find r' reqs = (if r' = r then None else om_find r' (request_map s))" for r'
    using wf by (simp add: reqs_def om_find_erase)
  have "requests_inv (s\<lparr>request_count_map := counts, request_map := reqs\<rparr>)"
    using ri by (simp add: requests_inv_def find)
  moreover have "om_wf counts" "om_wf reqs"
    using wf di by (simp_all add: counts_def reqs_def om_wf_erase descriptors_inv_def)
  ultimately have "books_inv (s\<lparr>request_count_map := counts, request_map := reqs\<rparr>)"
    using di others n(3)
    by (simp add: books_inv_def descriptors_inv_def statuses_inv_def flip: counts_def reqs_def)
  moreover have "RemoveRequestHelper (Some r) s
      = (Ok (), s\<lparr>request_count_map := counts, request_map := reqs\<rparr>)"
    using assms(2) n by (simp add: RemoveRequestHelper_run counts_def reqs_def)
  moreover have "om_find c counts = (if c = descriptor r
      then map_option (\<lambda>n. n - 1) (om_find c (request_count_map s))
      else om_find c (request_count_map s))" for c
    using n(1) by (simp add: counts_def om_find_set)
  ultimately show ?thesis using find
    by (intro exI [of _ counts] exI [of _ reqs] conjI allI; simp)
qed

lemma RemoveRequestHelper_removes:
  assumes "interface_inv s" and "\<not> bad_interface_state_detected s"
      and "r \<in> keys (request_map s)"
  shows "\<exists>counts reqs. RemoveRequestHelper (Some r) s
            = (Ok (), s\<lparr>request_count_map := counts, request_map := reqs\<rparr>)
       \<and> interface_inv (s\<lparr>request_count_map := counts, request_map := reqs\<rparr>)
       \<and> (\<forall>r'. om_find r' reqs = (if r' = r then None else om_find r' (request_map s)))
       \<and> (\<forall>c. om_find c counts = (if c = descriptor r
                 then map_option (\<lambda>n. n - 1) (om_find c (request_count_map s))
                 else om_find c (request_count_map s)))"
proof -
  have "books_inv s" and cl: "closure_inv s" using assms by (simp_all add: interface_inv_books)
  moreover have "closure_inv (s\<lparr>request_count_map := counts, request_map := reqs\<rparr>)" for counts reqs
    using cl by (simp add: closure_inv_def)
  ultimately show ?thesis using RemoveRequestHelper_books [OF _ assms(3)] assms(2)
    by (simp add: interface_inv_books)
qed

text \<open>
  C23. \<open>RemoveRequest\<close>: a request that is present is removed, the request count of its connection
  goes down by one, nothing else changes and the invariant is kept; for a request that is not
  present \<open>logic_error\<close> is thrown and the interface is marked as corrupt, which changes nothing else.
\<close>

theorem RemoveRequest_correct:
  assumes "interface_inv s" and "\<not> bad_interface_state_detected s"
  shows "if r \<notin> keys (request_map s) then RemoveRequest r s = (Throw LogicError, set_bad s)
     else \<exists>counts reqs. RemoveRequest r s
            = (Ok (), s\<lparr>request_count_map := counts, request_map := reqs\<rparr>)
       \<and> interface_inv (s\<lparr>request_count_map := counts, request_map := reqs\<rparr>)
       \<and> (\<forall>r'. om_find r' reqs = (if r' = r then None else om_find r' (request_map s)))
       \<and> (\<forall>c. om_find c counts = (if c = descriptor r
                 then map_option (\<lambda>n. n - 1) (om_find c (request_count_map s))
                 else om_find c (request_count_map s)))"
proof (cases "r \<in> keys (request_map s)")
  case True
  then have "RemoveRequest r s = RemoveRequestHelper (Some r) s"
    by (simp add: RemoveRequest_def om_mem_keys)
  then show ?thesis using RemoveRequestHelper_removes [OF assms True] True
    by (simp only: not_True_eq_False if_False)
qed (simp add: RemoveRequest_def om_mem_keys RemoveRequestHelper_def on_throw_def try_catch_def
       bind_def modify_def throw_def)


section \<open>Cleaning up a connection\<close>

lemma requests_from_filter:
  assumes "om_wf (request_map s)"
  shows "requests_from c s = map fst (filter (\<lambda>p. descriptor (fst p) = c) (request_map s))"
proof -
  have le: "\<not> descriptor r > c \<longleftrightarrow> r < FcgiRequestIdentifier (c + 1) 0" for r
    by (auto simp: below_connection_iff)
  let ?m = "filter (\<lambda>p. \<not> fst p < FcgiRequestIdentifier c 0) (request_map s)"
  have s: "sorted_wrt (<) (map fst (request_map s))" using assms by (simp add: om_wf_def)
  have "sorted_wrt (<) (map fst ?m)"
    using om_wf_filter [OF assms] by (simp add: om_wf_def)
  then have "requests_from c s = map fst (filter (\<lambda>p. fst p < FcgiRequestIdentifier (c + 1) 0) ?m)"
    unfolding requests_from_def dropWhile_sorted [OF s] le by (simp add: takeWhile_sorted)
  also have "filter (\<lambda>p. fst p < FcgiRequestIdentifier (c + 1) 0) ?m
      = filter (\<lambda>p. descriptor (fst p) = c) (request_map s)"
    by (auto simp: below_connection_iff intro: filter_cong)
  finally show ?thesis .
qed

lemma requests_from_correct:
  assumes "om_wf (request_map s)"
  shows "set (requests_from c s) = requests_of c s" and "distinct (requests_from c s)"
  using assms om_wf_distinct [OF om_wf_filter [OF assms]]
  by (auto simp: requests_from_filter requests_of_def keys_def)

text \<open>What the cleanup makes of the request map.\<close>

definition cleaned :: "FcgiRequestIdentifier set \<Rightarrow> (FcgiRequestIdentifier, RequestData) std_map \<Rightarrow>
    (FcgiRequestIdentifier, RequestData) std_map \<Rightarrow> bool" where
  "cleaned R m m' \<longleftrightarrow> om_wf m' \<and> (\<forall>r. om_find r m' =
     (if r \<in> R
      then case om_find r m of
          None \<Rightarrow> None
        | Some rd \<Rightarrow> if request_status rd = kRequestAssigned
                     then Some (set_connection_closed_by_interface rd) else None
      else om_find r m))"

definition has_assigned :: "FcgiRequestIdentifier set \<Rightarrow> (FcgiRequestIdentifier, RequestData) std_map \<Rightarrow> bool"
where
  "has_assigned R m \<longleftrightarrow> (\<exists>r \<in> R. \<exists>rd. om_find r m = Some rd \<and> request_status rd = kRequestAssigned)"

lemma counts_inv_same_keys:
  "counts_inv s \<Longrightarrow> keys m = keys (request_map s) \<Longrightarrow> counts_inv (s\<lparr>request_map := m\<rparr>)"
  by (auto simp: counts_inv_def requests_of_def)

lemma cleaned_step:
  assumes "cleaned R (om_set r rd' m) m'" and "r \<notin> R" and "om_find r m = Some rd"
      and "request_status rd = kRequestAssigned" and "rd' = set_connection_closed_by_interface rd"
  shows "cleaned (insert r R) m m'"
  using assms by (auto simp: cleaned_def om_find_set)

lemma cleaned_step_erase:
  assumes "cleaned R (om_erase r m) m'" and "r \<notin> R" and "om_find r m = Some rd" and "om_wf m"
      and "request_status rd \<noteq> kRequestAssigned"
  shows "cleaned (insert r R) m m'"
  using assms by (auto simp: cleaned_def om_find_erase)

lemma CleanupLoop_correct:
  assumes "counts_inv s" and "om_wf (request_map s)" and "om_wf (request_count_map s)"
      and "distinct rs" and "set rs \<subseteq> keys (request_map s)"
  shows "\<exists>m' n'. CleanupLoop rs b s = (Ok (b \<or> has_assigned (set rs) (request_map s)),
             s\<lparr>request_map := m', request_count_map := n'\<rparr>)
      \<and> cleaned (set rs) (request_map s) m' \<and> om_wf n' \<and> keys n' = keys (request_count_map s)
      \<and> counts_inv (s\<lparr>request_map := m', request_count_map := n'\<rparr>)"
  using assms
proof (induction rs arbitrary: b s)
  case Nil
  have "s = s\<lparr>request_map := request_map s, request_count_map := request_count_map s\<rparr>" by simp
  then show ?case using Nil
    by (intro exI [of _ "request_map s"] exI [of _ "request_count_map s"])
       (simp add: cleaned_def has_assigned_def)
next
  case (Cons r rs)
  obtain rd where rd: "om_find r (request_map s) = Some rd"
    using Cons.prems(5) by (auto simp: keys_Some)
  have r: "r \<notin> set rs" "distinct rs" "set rs \<subseteq> keys (request_map s)"
    using Cons.prems(4,5) by auto
  show ?case
  proof (cases "request_status rd = kRequestAssigned")
    case True
    define m1 where "m1 = om_set r (set_connection_closed_by_interface rd) (request_map s)"
    let ?s1 = "s\<lparr>request_map := m1\<rparr>"
    have m1: "keys m1 = keys (request_map s)" "om_wf m1" using Cons.prems(2) by (simp_all add: m1_def)
    obtain m' n' where ih: "CleanupLoop rs True ?s1 = (Ok True,
          ?s1\<lparr>request_map := m', request_count_map := n'\<rparr>)"
        "cleaned (set rs) m1 m'" "om_wf n'" "keys n' = keys (request_count_map s)"
        "counts_inv (?s1\<lparr>request_map := m', request_count_map := n'\<rparr>)"
      using Cons.IH [of ?s1 True] counts_inv_same_keys [OF Cons.prems(1) m1(1)] m1 r Cons.prems(3)
      by auto
    have "CleanupLoop (r # rs) b s = CleanupLoop rs True ?s1"
      using rd True by (simp add: m1_def)
    moreover have "has_assigned (set (r # rs)) (request_map s)"
      using rd True by (auto simp: has_assigned_def)
    moreover have "cleaned (set (r # rs)) (request_map s) m'"
      using cleaned_step [OF ih(2) [unfolded m1_def] r(1) rd True refl] by simp
    ultimately show ?thesis using ih by (intro exI [of _ m'] exI [of _ n']) simp
  next
    case False
    have mem: "r \<in> keys (request_map s)" using Cons.prems(5) by simp
    obtain n where n: "om_find (descriptor r) (request_count_map s) = Some n" "n > 0"
      "counts_inv (s\<lparr>request_count_map := om_set (descriptor r) (n - 1) (request_count_map s),
                  request_map := om_erase r (request_map s)\<rparr>)"
      by (rule counts_inv_remove [OF Cons.prems(1,2) mem])
    let ?n1 = "om_set (descriptor r) (n - 1) (request_count_map s)"
    let ?m1 = "om_erase r (request_map s)"
    let ?s1 = "s\<lparr>request_count_map := ?n1, request_map := ?m1\<rparr>"
    have sub: "set rs \<subseteq> keys ?m1" using r Cons.prems(2) by (auto simp: keys_erase)
    obtain m' n' where ih: "CleanupLoop rs b ?s1 = (Ok (b \<or> has_assigned (set rs) ?m1),
          ?s1\<lparr>request_map := m', request_count_map := n'\<rparr>)"
        "cleaned (set rs) ?m1 m'" "om_wf n'" "keys n' = keys (request_count_map s)"
        "counts_inv (?s1\<lparr>request_map := m', request_count_map := n'\<rparr>)"
      using Cons.IH [of ?s1 b] n(3) r(2) sub Cons.prems(2,3) by (auto simp: om_wf_erase)
    have "CleanupLoop (r # rs) b s = CleanupLoop rs b ?s1"
      using rd False mem n(1,2)
      by (simp add: RemoveRequest_iter_def bind_def gets_def RemoveRequestHelper_run)
    moreover have "has_assigned (set rs) ?m1 \<longleftrightarrow> has_assigned (set (r # rs)) (request_map s)"
      using rd False r(1) Cons.prems(2) by (auto simp: has_assigned_def om_find_erase)
    moreover have "cleaned (set (r # rs)) (request_map s) m'"
      using cleaned_step_erase [OF ih(2) r(1) rd Cons.prems(2) False] by simp
    ultimately show ?thesis using ih by (intro exI [of _ m'] exI [of _ n']) simp
  qed
qed

lemma RequestCleanup_correct:
  assumes "counts_inv s" and "descriptors_inv s"
  shows "\<exists>m' n'. RequestCleanupDuringConnectionClosure c s
           = (Ok (has_assigned (requests_of c s) (request_map s)),
              s\<lparr>request_map := m', request_count_map := n'\<rparr>)
      \<and> cleaned (requests_of c s) (request_map s) m' \<and> om_wf n'
      \<and> keys n' = keys (request_count_map s)
      \<and> counts_inv (s\<lparr>request_map := m', request_count_map := n'\<rparr>)"
proof -
  have wf: "om_wf (request_map s)" "om_wf (request_count_map s)"
    using assms(2) by (simp_all add: descriptors_inv_def)
  have "set (requests_from c s) \<subseteq> keys (request_map s)"
    by (auto simp: requests_from_correct(1) [OF wf(1)] requests_of_def)
  then obtain m' n' where "CleanupLoop (requests_from c s) False s
      = (Ok (False \<or> has_assigned (requests_of c s) (request_map s)),
         s\<lparr>request_map := m', request_count_map := n'\<rparr>)"
      "cleaned (requests_of c s) (request_map s) m'" "om_wf n'" "keys n' = keys (request_count_map s)"
      "counts_inv (s\<lparr>request_map := m', request_count_map := n'\<rparr>)"
    using CleanupLoop_correct [OF assms(1) wf requests_from_correct(2) [OF wf(1)], of c False]
    unfolding requests_from_correct(1) [OF wf(1)] by blast
  then show ?thesis
    by (intro exI [of _ m'] exI [of _ n'])
       (simp add: RequestCleanupDuringConnectionClosure_def on_throw_def try_catch_def)
qed


section \<open>Removing a connection\<close>

lemma Erase_run:
  assumes "c \<in> keys (record_status_map s)" and "c \<in> keys (write_mutex_map s)"
      and "b \<longrightarrow> c \<in> keys (request_count_map s)"
  shows "EraseConnectionOrTerminate c b s = (Ok (), s\<lparr>
     record_status_map := om_erase c (record_status_map s),
     write_mutex_map := om_erase c (write_mutex_map s),
     request_count_map := (if b then om_erase c (request_count_map s) else request_count_map s)\<rparr>)"
  using assms
  by (auto simp: EraseConnectionOrTerminate_def om_mem_keys when_then_def bind_def gets_def modify_def
        ret_def)

lemma cleaned_requests_inv_dummy:
  assumes "requests_inv s" and "cleaned (requests_of c s) (request_map s) m'"
  shows "requests_inv (s\<lparr>request_map := m', dummy_descriptor_set := om_insert c () (dummy_descriptor_set s),
            record_status_map := x, write_mutex_map := y, request_count_map := n', os := k\<rparr>)"
  unfolding requests_inv_def
proof (intro allI impI)
  let ?s' = "s\<lparr>request_map := m', dummy_descriptor_set := om_insert c () (dummy_descriptor_set s),
            record_status_map := x, write_mutex_map := y, request_count_map := n', os := k\<rparr>"
  fix r rd' assume "om_find r (request_map ?s') = Some rd'"
  then have find: "om_find r m' = Some rd'" by simp
  show "request_ok (descriptor r \<in> keys (dummy_descriptor_set ?s')) rd'"
  proof (cases "descriptor r = c")
    case True
    have "r \<in> requests_of c s"
      using True find assms(2)
      by (auto simp: cleaned_def requests_of_def keys_iff split: if_splits)
    then obtain rd where "om_find r (request_map s) = Some rd" "request_status rd = kRequestAssigned"
        "rd' = set_connection_closed_by_interface rd"
      using find assms(2) by (auto simp: cleaned_def split: if_splits option.splits)
    moreover from this have "request_ok (descriptor r \<in> keys (dummy_descriptor_set s)) rd"
      using assms(1) by (simp add: requests_inv_def)
    ultimately show ?thesis using True
      by (simp add: request_ok_def set_connection_closed_by_interface_def received_def)
  next
    case False
    then have "om_find r (request_map s) = Some rd'"
      using find assms(2) by (auto simp: cleaned_def requests_of_def split: if_splits)
    then show ?thesis using assms(1) False by (simp add: requests_inv_def)
  qed
qed

lemma cleaned_none_left:
  assumes "cleaned (requests_of c s) (request_map s) m'"
      and "\<not> has_assigned (requests_of c s) (request_map s)"
      and "om_find r m' = Some rd"
  shows "descriptor r \<noteq> c \<and> om_find r (request_map s) = Some rd"
  using assms
  by (auto simp: cleaned_def has_assigned_def requests_of_def keys_iff split: if_splits option.splits)

text \<open>What a successful \<open>RemoveConnection\<close> does to the state.\<close>

definition connection_removed :: "fd \<Rightarrow> interface \<Rightarrow> interface \<Rightarrow> bool" where
  "connection_removed c s s' \<longleftrightarrow>
     (let kept = has_assigned (requests_of c s) (request_map s) in
      keys (record_status_map s') = keys (record_status_map s) - {c}
      \<and> keys (write_mutex_map s') = keys (write_mutex_map s) - {c}
      \<and> keys (dummy_descriptor_set s') = keys (dummy_descriptor_set s) \<union> (if kept then {c} else {})
      \<and> open_fds (os s') = (open_fds (os s))(c := if kept then Some Listening_socket else None)
      \<and> cleaned (requests_of c s) (request_map s) (request_map s')
      \<and> (\<forall>d. d \<noteq> c \<longrightarrow> om_find d (record_status_map s') = om_find d (record_status_map s)
           \<and> om_find d (write_mutex_map s') = om_find d (write_mutex_map s))
      \<and> application_closure_request_set s' = application_closure_request_set s
      \<and> request_buffer_on_throw s' = request_buffer_on_throw s \<and> same_config s s'
      \<and> wire (os s') = wire (os s) \<and> peer_gone (os s') = peer_gone (os s)
      \<and> close_calls (os s') = close_calls (os s) @ (if kept then [] else [c])
      \<and> bad_interface_state_detected s' = bad_interface_state_detected s)"


lemma statuses_inv_erase:
  "statuses_inv s \<Longrightarrow> om_wf (record_status_map s) \<Longrightarrow>
     statuses_inv (s\<lparr>record_status_map := om_erase c (record_status_map s)\<rparr>)"
  by (auto simp: statuses_inv_def om_find_erase split: if_splits)

lemma statuses_inv_cong:
  "record_status_map s = record_status_map s' \<Longrightarrow> statuses_inv s = statuses_inv s'"
  by (simp add: statuses_inv_def)

lemma books_inv_kept:
  assumes "books_inv s" and "c \<in> keys (record_status_map s)"
      and "cleaned (requests_of c s) (request_map s) m'" and "om_wf n'"
      and "keys n' = keys (request_count_map s)"
      and "counts_inv (s\<lparr>request_map := m', request_count_map := n'\<rparr>)"
      and "k = (os s)\<lparr>open_fds := (open_fds (os s))(c := Some Listening_socket), script := as\<rparr>"
      and "s' = s\<lparr>request_map := m', dummy_descriptor_set := om_insert c () (dummy_descriptor_set s),
             record_status_map := om_erase c (record_status_map s),
             write_mutex_map := om_erase c (write_mutex_map s), request_count_map := n', os := k\<rparr>"
  shows "books_inv s'"
proof -
  have di: "descriptors_inv s" and ri: "requests_inv s" and si: "statuses_inv s" and ci: "counts_inv s"
    using assms(1) by (simp_all add: books_inv_def)
  have wf: "om_wf (record_status_map s)" "om_wf (write_mutex_map s)" "om_wf (dummy_descriptor_set s)"
    using di by (simp_all add: descriptors_inv_def)
  have open_c: "open_fds (os s) c = Some Connected_socket"
    using di assms(2) by (simp add: descriptors_inv_def)
  have "om_wf m'" using assms(3) by (simp add: cleaned_def)
  then have "descriptors_inv s'"
    using di wf assms(4) open_c
    by (auto simp: descriptors_inv_def assms(7,8) keys_erase om_wf_erase om_wf_insert)
  moreover have "counts_inv s'"
    using assms(2,6) wf unfolding assms(8) counts_inv_def requests_of_def
    by (auto simp: keys_erase)
  moreover have "requests_inv s'"
    unfolding assms(8) by (rule cleaned_requests_inv_dummy [OF ri assms(3)])
  moreover have "statuses_inv s'"
    using statuses_inv_erase [OF si wf(1), of c] by (simp add: assms(8) statuses_inv_def)
  ultimately show ?thesis by (simp add: books_inv_def)
qed

lemma books_inv_closed:
  assumes "books_inv s" and "c \<in> keys (record_status_map s)"
      and "cleaned (requests_of c s) (request_map s) m'" and "om_wf n'"
      and "\<not> has_assigned (requests_of c s) (request_map s)"
      and "keys n' = keys (request_count_map s)"
      and "counts_inv (s\<lparr>request_map := m', request_count_map := n'\<rparr>)"
      and "open_fds k = (open_fds (os s))(c := None)"
      and "s' = s\<lparr>request_map := m', record_status_map := om_erase c (record_status_map s),
             write_mutex_map := om_erase c (write_mutex_map s),
             request_count_map := om_erase c n', os := k\<rparr>"
  shows "books_inv s'"
proof -
  have di: "descriptors_inv s" and ri: "requests_inv s" and si: "statuses_inv s" and ci: "counts_inv s"
    using assms(1) by (simp_all add: books_inv_def)
  have wf: "om_wf (record_status_map s)" "om_wf (write_mutex_map s)" "om_wf (dummy_descriptor_set s)"
    using di by (simp_all add: descriptors_inv_def)
  have open_c: "open_fds (os s) c = Some Connected_socket" and nd: "c \<notin> keys (dummy_descriptor_set s)"
    using di assms(2) by (auto simp: descriptors_inv_def)
  have "om_wf m'" using assms(3) by (simp add: cleaned_def)
  then have "descriptors_inv s'"
    using di wf assms(4) open_c
    by (auto simp: descriptors_inv_def assms(8,9) keys_erase om_wf_erase)
  moreover have none: "descriptor r \<noteq> c" "om_find r (request_map s) = Some rd"
    if "om_find r m' = Some rd" for r rd
    using cleaned_none_left [OF assms(3,5) that] by simp_all
  moreover have "\<forall>r \<in> keys m'. descriptor r \<noteq> c" by (auto simp: keys_Some dest: none(1))
  then have "counts_inv s'"
    using assms(2,7) wf nd assms(4) unfolding assms(9) counts_inv_def requests_of_def
    by (auto simp: keys_erase om_find_erase split: if_splits)
  moreover have "requests_inv s'"
    using ri unfolding assms(9) requests_inv_def by (auto dest: none(2) split: if_splits)
  moreover have "statuses_inv s'"
    using statuses_inv_erase [OF si wf(1), of c] by (simp add: assms(9) statuses_inv_def)
  ultimately show ?thesis by (simp add: books_inv_def)
qed


lemma RemoveConnection_run:
  assumes "books_inv s" and "om_find c (write_mutex_map s) = Some (held, corrupt)"
  shows "case RemoveConnection c s of
       (Ok True, s') \<Rightarrow> \<not> held \<and> books_inv s' \<and> connection_removed c s s'
     | (Ok False, s') \<Rightarrow> held \<and> s' = s
     | (Throw e, s') \<Rightarrow> \<not> held \<and> (\<exists>n. e = SystemError n) \<and> bad_interface_state_detected s'
          \<and> descriptors_inv s' \<and> same_config s s' \<and> dom (open_fds (os s')) \<subseteq> dom (open_fds (os s))
          \<and> request_buffer_on_throw s' = request_buffer_on_throw s
     | (Blocked, s') \<Rightarrow> \<not> held
     | _ \<Rightarrow> False"
proof (cases held)
  case True
  then show ?thesis using assms(2)
    by (simp add: RemoveConnection_def on_throw_def try_catch_def bind_def gets_def ret_def)
next
  case False
  have di: "descriptors_inv s" and ci: "counts_inv s" using assms(1) by (simp_all add: books_inv_def)
  have c: "c \<in> keys (record_status_map s)" "c \<in> keys (write_mutex_map s)"
    using om_find_Some_keys [OF assms(2)] di by (simp_all add: descriptors_inv_def)
  have open_c: "open_fds (os s) c = Some Connected_socket"
      and op: "open_fds (os s) (listening_descriptor s) = Some Listening_socket"
    using di c by (simp_all add: descriptors_inv_def)
  obtain m' n' where cl: "RequestCleanupDuringConnectionClosure c s
           = (Ok (has_assigned (requests_of c s) (request_map s)),
              s\<lparr>request_map := m', request_count_map := n'\<rparr>)"
      "cleaned (requests_of c s) (request_map s) m'" "om_wf n'"
      "keys n' = keys (request_count_map s)"
      "counts_inv (s\<lparr>request_map := m', request_count_map := n'\<rparr>)"
    using RequestCleanup_correct [OF ci di] by blast
  let ?s1 = "s\<lparr>request_map := m', request_count_map := n'\<rparr>"
  have di1: "descriptors_inv (set_bad ?s1)"
    using di cl(2,3) by (simp add: descriptors_inv_def cleaned_def)
  have cn: "c \<in> keys n'" using c(1) ci cl(4) by (simp add: counts_inv_def)
  note unfold = RemoveConnection_def on_throw_def try_catch_def bind_def gets_def
  show ?thesis
  proof (cases "has_assigned (requests_of c s) (request_map s)")
    case True
    show ?thesis
    proof (cases "retry [EINTR, EBUSY] (script (os s))")
      case None
      then show ?thesis using False True assms(2) cl(1)
        by (simp add: unfold sys_dup2_retry_def Let_def)
    next
      case (Some t)
      then obtain a as where t: "retry [EINTR, EBUSY] (script (os s)) = Some (a, as)"
        by (cases t) auto
      show ?thesis
      proof (cases a)
        case (Errno e)
        then show ?thesis using False True assms(2) cl(1) t di1
          by (simp add: unfold sys_dup2_retry_def Let_def throw_errno_def throw_def modify_def
                descriptors_inv_def same_config_def)
      next
        case (Count k)
        let ?k = "(os s)\<lparr>open_fds := (open_fds (os s))(c := Some Listening_socket), script := as\<rparr>"
        let ?s' = "s\<lparr>request_map := m', dummy_descriptor_set := om_insert c () (dummy_descriptor_set s),
             record_status_map := om_erase c (record_status_map s),
             write_mutex_map := om_erase c (write_mutex_map s), request_count_map := n', os := ?k\<rparr>"
        have "RemoveConnection c s = (Ok True, ?s')"
          using False True assms(2) cl(1) t Count c op
          by (simp add: unfold sys_dup2_retry_def Let_def modify_def ret_def Erase_run)
        moreover have "books_inv ?s'"
          by (rule books_inv_kept [OF assms(1) c(1) cl(2-5) refl refl])
        moreover have "connection_removed c s ?s'"
          using True cl(2) di
          by (simp add: connection_removed_def descriptors_inv_def keys_erase om_find_erase same_config_def)
        ultimately show ?thesis using False by simp
      qed
    qed
  next
    case none: False
    let ?s2 = "\<lambda>k. s\<lparr>request_map := m', record_status_map := om_erase c (record_status_map s),
             write_mutex_map := om_erase c (write_mutex_map s),
             request_count_map := om_erase c n', os := k\<rparr>"
    have books: "books_inv (?s2 k)" if "open_fds k = (open_fds (os s))(c := None)" for k
      by (rule books_inv_closed [OF assms(1) c(1) cl(2,3) none cl(4,5) that refl])
    have removed: "connection_removed c s (?s2 k)" if "open_fds k = (open_fds (os s))(c := None)"
        "wire k = wire (os s)" "peer_gone k = peer_gone (os s)" "close_calls k = close_calls (os s) @ [c]" for k
      using that none cl(2) di
      by (simp add: connection_removed_def descriptors_inv_def keys_erase om_find_erase same_config_def)
    have bad: "descriptors_inv (set_bad (?s2 k))" if "open_fds k = (open_fds (os s))(c := None)" for k
      using books [OF that] by (simp add: books_inv_def descriptors_inv_def)
    have "om_find c (record_status_map s) \<noteq> None" using c(1) by (simp add: keys_iff)
    show ?thesis
    proof (cases "script (os s)")
      case Nil
      then show ?thesis using False none assms(2) cl(1) c cn open_c
        by (simp add: unfold Erase_run sys_close_def Let_def)
    next
      case (Cons a as)
      show ?thesis
      proof (cases a)
        case (Count k)
        then show ?thesis using False none assms(2) cl(1) c cn open_c Cons books removed
          by (simp add: unfold Erase_run sys_close_def Let_def ret_def)
      next
        case (Errno e)
        then show ?thesis using False none assms(2) cl(1) c cn open_c Cons books removed bad
          by (auto simp: unfold Erase_run sys_close_def Let_def ret_def throw_def modify_def same_config_def)
      qed
    qed
  qed
qed


text \<open>
  C8. \<open>RemoveConnection\<close>, for a connection of the interface: while a request holds the write mutex
  it answers \<open>false\<close> and changes nothing. Otherwise, when it returns, it answers \<open>true\<close>; the
  connection is gone from the two connection maps; its unassigned requests are removed and its
  assigned ones are marked; its descriptor has been closed, once, if it had no assigned request, and is
  now a dummy that refers to the listening socket if it had one; nothing else is touched, and the
  accounting of descriptors and requests is still right. If it throws, it is a \<open>system_error\<close>, the
  interface is marked as corrupt, and the descriptors can still be closed safely. It never ends
  the program.
\<close>

theorem RemoveConnection_correct:
  assumes "interface_inv s" and "\<not> bad_interface_state_detected s"
      and "om_find c (write_mutex_map s) = Some (held, corrupt)"
  shows "case RemoveConnection c s of
       (Ok True, s') \<Rightarrow> \<not> held \<and> books_inv s' \<and> connection_removed c s s'
     | (Ok False, s') \<Rightarrow> held \<and> s' = s
     | (Throw e, s') \<Rightarrow> \<not> held \<and> (\<exists>n. e = SystemError n) \<and> interface_inv s'
          \<and> bad_interface_state_detected s'
     | (Blocked, s') \<Rightarrow> \<not> held
     | _ \<Rightarrow> False"
proof -
  have "books_inv s" using assms(1,2) by (simp add: interface_inv_books)
  from RemoveConnection_run [OF this assms(3)] show ?thesis
    by (auto simp: interface_inv_def split: prod.splits outcome.splits bool.splits)
qed

section \<open>The destructor\<close>

definition after_close :: "fd list \<Rightarrow> int \<Rightarrow> interface \<Rightarrow> interface" where
  "after_close cs e s = s\<lparr>os := (os s)\<lparr>open_fds := open_fds (os s) |` (- set cs),
      script := drop (length cs) (script (os s)), errno := e, close_calls := close_calls (os s) @ cs\<rparr>\<rparr>"

lemma after_close_twice: "after_close ds e' (after_close cs e s) = after_close (cs @ ds) e' s"
  by (simp add: after_close_def add.commute restrict_restrict)

lemma after_close_os [simp]:
  "open_fds (os (after_close cs e s)) = open_fds (os s) |` (- set cs)"
  "script (os (after_close cs e s)) = drop (length cs) (script (os s))"
  "close_calls (os (after_close cs e s)) = close_calls (os s) @ cs"
  by (simp_all add: after_close_def)

lemma after_close_fields [simp]:
  "write_mutex_map (after_close cs e s) = write_mutex_map s"
  "self_pipe_read_descriptor (after_close cs e s) = self_pipe_read_descriptor s"
  "self_pipe_write_descriptor (after_close cs e s) = self_pipe_write_descriptor s"
  by (simp_all add: after_close_def)

lemma sys_close_run:
  assumes "open_fds (os s) c \<noteq> None" and "script (os s) \<noteq> []"
  shows "\<exists>x e. sys_close c s = (Ok x, after_close [c] e s)"
proof -
  have upd: "open_fds (os s) |` (- set [c]) = (open_fds (os s))(c := None)"
    by (simp add: restrict_complement_singleton_eq)
  obtain d where d: "open_fds (os s) c = Some d" using assms(1) by auto
  obtain a as where sc: "script (os s) = a # as" using assms(2) by (cases "script (os s)") auto
  show ?thesis
  proof (cases a)
    case (Count n)
    have "sys_close c s = (Ok 0, after_close [c] (errno (os s)) s)"
      unfolding sys_close_def Let_def after_close_def upd sc Count by (simp add: d)
    then show ?thesis by blast
  next
    case (Errno e)
    have "sys_close c s = (Ok (- 1), after_close [c] e s)"
      unfolding sys_close_def Let_def after_close_def upd sc Errno by (simp add: d)
    then show ?thesis by blast
  qed
qed

lemma close_all_run:
  assumes "distinct cs" and "\<forall>c \<in> set cs. open_fds (os s) c \<noteq> None"
      and "length cs \<le> length (script (os s))"
  shows "\<exists>e. close_all cs s = (Ok (), after_close cs e s)"
  using assms
proof (induction cs arbitrary: s)
  case Nil
  have "s = after_close [] (errno (os s)) s" by (simp add: after_close_def restrict_map_def)
  then show ?case by (intro exI [of _ "errno (os s)"]) simp
next
  case (Cons c cs)
  obtain x e where x: "sys_close c s = (Ok x, after_close [c] e s)"
    using sys_close_run [of s c] Cons.prems by fastforce
  obtain e' where "close_all cs (after_close [c] e s) = (Ok (), after_close cs e' (after_close [c] e s))"
  proof -
    have "\<forall>d \<in> set cs. open_fds (os (after_close [c] e s)) d \<noteq> None"
      using Cons.prems(1,2) by (auto simp: restrict_map_def)
    moreover have "length cs \<le> length (script (os (after_close [c] e s)))" "distinct cs"
      using Cons.prems(1,3) by simp_all
    ultimately show thesis using Cons.IH [of "after_close [c] e s"] that by blast
  qed
  then show ?case using x by (auto simp: bind_def after_close_twice)
qed

definition owned_fds :: "interface \<Rightarrow> fd set" where
  "owned_fds s = keys (dummy_descriptor_set s) \<union> keys (write_mutex_map s)
     \<union> {self_pipe_read_descriptor s, self_pipe_write_descriptor s}"

text \<open>
  C22. The destructor, in any state that satisfies the invariant, also when the interface is marked
  as corrupt: it closes exactly the descriptors of the connections, the dummy descriptors and the
  two ends of the self-pipe, calling \<open>close\<close> exactly once for each of them and for no other descriptor
  (a second call could close a descriptor that another thread has been given in the meantime), leaves
  every other descriptor open, and resets the interface identifier.
\<close>

theorem destructor_closes_owned_once:
  assumes "interface_inv s" and "card (owned_fds s) \<le> length (script (os s))"
  shows "\<exists>s'. FcgiServerInterface_destructor s = (Ok (), s')
     \<and> open_fds (os s') = open_fds (os s) |` (- owned_fds s)
     \<and> (\<exists>closed. close_calls (os s') = close_calls (os s) @ closed \<and> distinct closed
          \<and> set closed = owned_fds s)
     \<and> length (script (os s)) = length (script (os s')) + card (owned_fds s)
     \<and> interface_identifier s' = 0"
proof -
  have di: "descriptors_inv s" using assms(1) by (simp add: interface_inv_def)
  let ?d = "map fst (dummy_descriptor_set s)"
  let ?p = "[self_pipe_read_descriptor s, self_pipe_write_descriptor s]"
  let ?w = "map fst (write_mutex_map s)"
  have "distinct (?d @ ?p @ ?w)" "set (?d @ ?p @ ?w) = owned_fds s"
      "\<forall>c \<in> owned_fds s. open_fds (os s) c \<noteq> None"
  proof -
    have sets: "set ?d = keys (dummy_descriptor_set s)" "set ?w = keys (write_mutex_map s)"
      by (simp_all add: keys_def)
    show "set (?d @ ?p @ ?w) = owned_fds s"
      unfolding set_append sets owned_fds_def by auto
    show "\<forall>c \<in> owned_fds s. open_fds (os s) c \<noteq> None"
      using di by (auto simp: owned_fds_def descriptors_inv_def)
    have "distinct ?d" "distinct ?w" using di by (simp_all add: descriptors_inv_def om_wf_distinct)
    then show "distinct (?d @ ?p @ ?w)"
      unfolding distinct_append set_append sets using di by (auto simp: descriptors_inv_def)
  qed
  note facts = this
  have len: "length (?d @ ?p @ ?w) = card (owned_fds s)"
    using distinct_card [OF facts(1)] facts(2) by simp
  obtain e1 where r1: "close_all ?d s = (Ok (), after_close ?d e1 s)"
    using close_all_run [of ?d s] facts len assms(2) by (auto simp del: set_map)
  let ?s1 = "after_close ?d e1 s"
  have "\<exists>e2. close_all ?p ?s1 = (Ok (), after_close ?p e2 ?s1)"
    using facts len assms(2) by (intro close_all_run) (auto simp: restrict_map_def simp del: set_map)
  then obtain e2 where r2: "close_all ?p ?s1 = (Ok (), after_close ?p e2 ?s1)" by blast
  let ?s2 = "after_close ?p e2 ?s1"
  have "\<exists>e3. close_all ?w ?s2 = (Ok (), after_close ?w e3 ?s2)"
    using facts len assms(2) by (intro close_all_run) (auto simp: restrict_map_def simp del: set_map)
  then obtain e3 where r3: "close_all ?w ?s2 = (Ok (), after_close ?w e3 ?s2)" by blast
  have "FcgiServerInterface_destructor s
      = (Ok (), (after_close (?d @ ?p @ ?w) e3 s)\<lparr>interface_identifier := 0\<rparr>)"
    using r1 r2 r3
    by (simp add: FcgiServerInterface_destructor_def bind_def gets_def modify_def after_close_twice
          del: close_all.simps)
  moreover have "open_fds (os (after_close (?d @ ?p @ ?w) e3 s))
      = open_fds (os s) |` (- owned_fds s)"
    unfolding facts(2) [symmetric] by simp
  moreover have "length (script (os s)) = length (script (os (after_close (?d @ ?p @ ?w) e3 s)))
      + card (owned_fds s)"
    using len assms(2) by simp
  moreover have "close_calls (os (after_close (?d @ ?p @ ?w) e3 s)) = close_calls (os s) @ ?d @ ?p @ ?w"
    by simp
  ultimately show ?thesis using facts(1,2)
    by (intro exI [of _ "(after_close (?d @ ?p @ ?w) e3 s)\<lparr>interface_identifier := 0\<rparr>"] conjI
          exI [of _ "?d @ ?p @ ?w"]) (simp_all del: after_close_os append_assoc set_append distinct_append)
qed


section \<open>Instances\<close>

text \<open>
  An interface with one connection, descriptor 7, on which request 1 is pending (or assigned), and
  a script of answers.
\<close>

definition example_interface :: "RequestStatus \<Rightarrow> script \<Rightarrow> interface" where
  "example_interface st as = \<lparr>
     listening_descriptor = 3, app_status_on_abort = 1, maximum_connection_count = 10,
     maximum_request_count_per_connection = 4, socket_domain = 2, valid_ip_address_set = [],
     application_overload = False, self_pipe_read_descriptor = 4,
     record_status_map = [(7, RecordStatus_new 7)], dummy_descriptor_set = [],
     request_buffer_on_throw = [],
     self_pipe_write_descriptor = 5, write_mutex_map = [(7, (False, False))],
     application_closure_request_set = [], request_count_map = [(7, 1)],
     request_map = [(FcgiRequestIdentifier 7 1,
       if st = kRequestAssigned
       then (RequestData_new FCGI_RESPONDER True)\<lparr>request_status := st,
              FCGI_PARAMS_complete := True, FCGI_STDIN_complete := True, FCGI_DATA_complete := True\<rparr>
       else RequestData_new FCGI_RESPONDER True)],
     bad_interface_state_detected = False, interface_identifier = 1,
     previous_interface_identifier = 1,
     os = \<lparr> open_fds = [3 \<mapsto> Listening_socket, 4 \<mapsto> Pipe_end, 5 \<mapsto> Pipe_end, 7 \<mapsto> Connected_socket],
            script = as, errno = 0, wire = (\<lambda>_. []), queue = (\<lambda>_. []),
            peer_address = (\<lambda>_. []), peer_gone = (\<lambda>_. False), readable = (\<lambda>c. c = 7),
            status_flags = (\<lambda>_. 0), close_calls = [] \<rparr> \<rparr>"

lemma keys_Cons [simp]: "keys ((k, v) # m) = insert k (keys m)"
  by (simp add: keys_def)

lemma example_interface_inv: "interface_inv (example_interface st as)"
proof -
  have "requests_of c (example_interface st as) = (if c = 7 then {FcgiRequestIdentifier 7 1} else {})" for c
    by (auto simp: requests_of_def example_interface_def)
  then show ?thesis
    by (simp add: interface_inv_def descriptors_inv_def counts_inv_def)
       (simp add: requests_inv_def statuses_inv_def closure_inv_def example_interface_def om_wf_def
          RequestData_new_def RecordStatus_new_def request_ok_def received_def)
qed

lemma example_fields [simp]:
  "bad_interface_state_detected (example_interface st as) = False"
  "record_status_map (example_interface st as) = [(7, RecordStatus_new 7)]"
  "write_mutex_map (example_interface st as) = [(7, (False, False))]"
  "request_map (example_interface st as) = [(FcgiRequestIdentifier 7 1,
       if st = kRequestAssigned
       then (RequestData_new FCGI_RESPONDER True)\<lparr>request_status := st,
              FCGI_PARAMS_complete := True, FCGI_STDIN_complete := True, FCGI_DATA_complete := True\<rparr>
       else RequestData_new FCGI_RESPONDER True)]"
  "dummy_descriptor_set (example_interface st as) = []"
  "script (os (example_interface st as)) = as"
  "self_pipe_read_descriptor (example_interface st as) = 4"
  "self_pipe_write_descriptor (example_interface st as) = 5"
  by (simp_all add: example_interface_def)

theorem AddRequest_correct_witness:
  "\<exists>s'. AddRequest (FcgiRequestIdentifier 7 2) FCGI_FILTER False (example_interface kRequestPending [])
      = (Ok (Some (FcgiRequestIdentifier 7 2)), s') \<and> interface_inv s'"
  using AddRequest_correct [OF example_interface_inv, of kRequestPending "[]" "FcgiRequestIdentifier 7 2"
      FCGI_FILTER False]
  by auto

theorem RemoveRequest_correct_witness:
  "\<exists>s'. RemoveRequest (FcgiRequestIdentifier 7 1) (example_interface kRequestPending [])
      = (Ok (), s') \<and> interface_inv s' \<and> request_map s' = []"
proof -
  let ?s = "example_interface kRequestPending []" and ?r = "FcgiRequestIdentifier 7 1"
  have nb: "\<not> bad_interface_state_detected ?s" and mem: "\<not> ?r \<notin> keys (request_map ?s)" by simp_all
  obtain counts reqs where r: "RemoveRequest ?r ?s
        = (Ok (), ?s\<lparr>request_count_map := counts, request_map := reqs\<rparr>)"
      "interface_inv (?s\<lparr>request_count_map := counts, request_map := reqs\<rparr>)"
      "\<forall>r'. om_find r' reqs = (if r' = ?r then None else om_find r' (request_map ?s))"
    using RemoveRequest_correct [OF example_interface_inv nb, of ?r, unfolded if_not_P [OF mem]]
    by blast
  then have "\<forall>r'. om_find r' reqs = None" by auto
  then have "reqs = []" by (cases reqs) (auto split: if_splits)
  then show ?thesis using r(1,2) by auto
qed

lemmas run_simps = on_throw_def try_catch_def bind_def gets_def modify_def ret_def throw_def
  when_then_def Let_def

lemma example_RemoveConnection:
  "fst (RemoveConnection 7 (example_interface kRequestPending [Count 0])) = Ok True"
  "fst (RemoveConnection 7 (example_interface kRequestAssigned [Errno EINTR, Count 0])) = Ok True"
  by (simp_all add: RemoveConnection_def RequestCleanupDuringConnectionClosure_def requests_from_def
        RemoveRequest_iter_def RemoveRequestHelper_def om_mem_def sys_close_def sys_dup2_retry_def
        EraseConnectionOrTerminate_def set_connection_closed_by_interface_def
        run_simps example_interface_def RequestData_new_def ex_bool_eq)

theorem RemoveConnection_correct_witness:
  "(\<exists>s'. RemoveConnection 7 (example_interface kRequestPending [Count 0]) = (Ok True, s')
      \<and> books_inv s' \<and> open_fds (os s') 7 = None)
   \<and> (\<exists>s'. RemoveConnection 7 (example_interface kRequestAssigned [Errno EINTR, Count 0]) = (Ok True, s')
      \<and> books_inv s' \<and> open_fds (os s') 7 = Some Listening_socket)"
proof -
  have w: "om_find 7 (write_mutex_map (example_interface st as)) = Some (False, False)" for st as
    by simp
  have nb: "\<not> bad_interface_state_detected (example_interface st as)" for st as by simp
  have req: "requests_of 7 (example_interface st as) = {FcgiRequestIdentifier 7 1}" for st as
    by (auto simp: requests_of_def)
  obtain s1 where s1: "RemoveConnection 7 (example_interface kRequestPending [Count 0]) = (Ok True, s1)"
    by (metis example_RemoveConnection(1) prod.collapse)
  obtain s2 where s2: "RemoveConnection 7 (example_interface kRequestAssigned [Errno EINTR, Count 0])
      = (Ok True, s2)"
    by (metis example_RemoveConnection(2) prod.collapse)
  show ?thesis
    using RemoveConnection_correct [OF example_interface_inv nb w, of kRequestPending "[Count 0]"]
      RemoveConnection_correct [OF example_interface_inv nb w, of kRequestAssigned "[Errno EINTR, Count 0]"]
    by (simp add: s1 s2 connection_removed_def req has_assigned_def RequestData_new_def Let_def)
qed

theorem destructor_closes_owned_once_witness:
  "\<exists>s'. FcgiServerInterface_destructor (example_interface kRequestAssigned [Count 0, Count 0, Errno EINTR])
      = (Ok (), s') \<and> open_fds (os s') 7 = None \<and> open_fds (os s') 3 = Some Listening_socket
      \<and> distinct (close_calls (os s')) \<and> set (close_calls (os s')) = {4, 5, 7} \<and> script (os s') = []"
proof -
  let ?s = "example_interface kRequestAssigned [Count 0, Count 0, Errno EINTR]"
  have o: "owned_fds ?s = {4, 5, 7}" by (auto simp: owned_fds_def)
  then have c: "card (owned_fds ?s) = 3" by simp
  have "card (owned_fds ?s) \<le> length (script (os ?s))" unfolding c by simp
  from destructor_closes_owned_once [OF example_interface_inv this] show ?thesis
    unfolding c o by (auto simp: example_interface_def restrict_map_def)
qed

end
