(* ===== verification/Server_Send.thy ===== *)
theory Server_Send
  imports Server_Requests Partition
begin

text \<open>
  The records that the interface itself sends: \<open>SendRecord\<close>, \<open>SendFcgiEndRequest\<close>,
  \<open>SendFcgiUnknownType\<close> and \<open>SendGetValuesResult\<close> of \<open>fcgi/src/fcgi_server_interface.cc\<close>.
\<close>

section \<open>Operations\<close>

text \<open>
  The write mutex of a connection is taken by the call; while a request holds it, the call does
  not go on.
\<close>

definition SendRecord :: "fd \<Rightarrow> bytes \<Rightarrow> int \<Rightarrow> bool iop" where
  "SendRecord c buffer cnt =
     (if cnt < 0 then throw LogicError
      else bind (gets (\<lambda>s. om_find c (write_mutex_map s))) (\<lambda>mutex_map_iter.
        case mutex_map_iter of
          None \<Rightarrow> and_then (modify set_bad) (throw LogicError)
        | Some (held, corrupt) \<Rightarrow>
            if held then blocked
            else if corrupt then ret False
            else bind (sys_WriteOnSelect c buffer (nat cnt)) (\<lambda>number_written.
              if number_written < nat cnt
              then and_then
                (when_then (number_written \<noteq> 0)
                   (modify (\<lambda>s. s\<lparr>write_mutex_map := om_set c (held, True) (write_mutex_map s)\<rparr>)))
                (and_then (modify (schedule_closure c))
                  (bind (gets (\<lambda>s. errno (os s))) (\<lambda>e.
                     if e = EPIPE \<or> e = 0 then ret False else throw (SystemError e))))
              else ret True)))"

text \<open>\<open>app_status\<close> is a 32 bit two's complement number; its bytes are stored in network order.\<close>

definition app_status_bytes :: "int \<Rightarrow> bytes" where
  "app_status_bytes app_status =
     map (\<lambda>i. word_of_int (drop_bit (24 - 8 * i) app_status)) [0, 1, 2, 3]"

definition end_request_record :: "FcgiRequestIdentifier \<Rightarrow> byte \<Rightarrow> int \<Rightarrow> bytes" where
  "end_request_record r protocol_status app_status =
     (let result = replicate 16 0;
          result = overwrite result 0
            (PopulateHeader kFCGI_END_REQUEST (Fcgi_id r) (of_nat FCGI_HEADER_LEN) 0);
          result = overwrite result (1 + kHeaderReservedByteIndex) (app_status_bytes app_status)
      in result[5 + kHeaderReservedByteIndex := protocol_status])"

definition SendFcgiEndRequest :: "fd \<Rightarrow> FcgiRequestIdentifier \<Rightarrow> byte \<Rightarrow> int \<Rightarrow> bool iop" where
  "SendFcgiEndRequest c r protocol_status app_status =
     (let result = end_request_record r protocol_status app_status
      in SendRecord c result (int (length result)))"

definition unknown_type_record :: "FcgiType \<Rightarrow> bytes" where
  "unknown_type_record type =
     (overwrite (replicate 16 0) 0
        (PopulateHeader kFCGI_UNKNOWN_TYPE FCGI_NULL_REQUEST_ID (of_nat FCGI_HEADER_LEN) 0))
     [1 + kHeaderReservedByteIndex := type]"

definition SendFcgiUnknownType :: "fd \<Rightarrow> FcgiType \<Rightarrow> bool iop" where
  "SendFcgiUnknownType c type =
     (let result = unknown_type_record type in SendRecord c result (int (length result)))"

text \<open>\<open>std::lower_bound\<close> for a name in the sorted list of pairs, compared with its name.\<close>

definition name_present :: "bytes \<Rightarrow> (bytes \<times> bytes) list \<Rightarrow> bool" where
  "name_present name pairs =
     (case dropWhile (\<lambda>p. fst p < name) pairs of [] \<Rightarrow> False | p # _ \<Rightarrow> fst p = name)"

text \<open>A length in the name-value pair format; the exception of the encoder ends the call.\<close>

definition encode_length :: "nat \<Rightarrow> exn + bytes" where
  "encode_length n =
     (if n \<le> kNameValuePairSingleByteLength then Inr [of_nat n] else EncodeFourByteLength (int n))"

fun encode_pairs :: "(bytes \<times> bytes) list \<Rightarrow> exn + bytes" where
  "encode_pairs [] = Inr []"
| "encode_pairs ((n, v) # ps) =
     (case encode_length (length n) of Inl e \<Rightarrow> Inl e
      | Inr en \<Rightarrow> (case encode_length (length v) of Inl e \<Rightarrow> Inl e
          | Inr ev \<Rightarrow> (case encode_pairs ps of Inl e \<Rightarrow> Inl e
              | Inr rest \<Rightarrow> Inr (en @ ev @ n @ v @ rest))))"

definition get_values_result_pairs ::
  "int \<Rightarrow> int \<Rightarrow> (bytes \<times> bytes) list \<Rightarrow> exn + (bytes \<times> bytes) list"
where
  "get_values_result_pairs max_conns max_reqs get_value_pairs =
     (let pairs = sort_key fst get_value_pairs;
          last = (if name_present FCGI_MPXS_CONNS pairs
                  then [(FCGI_MPXS_CONNS, [if max_reqs > 1 then 49 else 48])] else []) in
      case (if name_present FCGI_MAX_CONNS pairs
            then (case ToUnsignedCharacterVector max_conns of Inl e \<Rightarrow> Inl e
                  | Inr v \<Rightarrow> Inr [(FCGI_MAX_CONNS, v)])
            else Inr []) of
        Inl e \<Rightarrow> Inl e
      | Inr conns \<Rightarrow>
        (case (if name_present FCGI_MAX_REQS pairs
               then (case ToUnsignedCharacterVector max_reqs of Inl e \<Rightarrow> Inl e
                     | Inr v \<Rightarrow> Inr [(FCGI_MAX_REQS, v)])
               else Inr []) of
           Inl e \<Rightarrow> Inl e
         | Inr reqs \<Rightarrow> Inr (conns @ reqs @ last)))"

definition get_values_result_record :: "(bytes \<times> bytes) list \<Rightarrow> exn + bytes" where
  "get_values_result_record result_pairs =
     (case encode_pairs result_pairs of
        Inl e \<Rightarrow> Inl e
      | Inr content \<Rightarrow>
          (let result = replicate FCGI_HEADER_LEN 0 @ content;
               header_and_content_length = length result;
               content_length = header_and_content_length - FCGI_HEADER_LEN;
               remainder = header_and_content_length mod FCGI_HEADER_LEN;
               pad_length = (if remainder \<noteq> 0 then FCGI_HEADER_LEN - remainder else 0);
               result = result @ replicate pad_length 0
           in Inr (overwrite result 0
                (PopulateHeader kFCGI_GET_VALUES_RESULT FCGI_NULL_REQUEST_ID
                   (of_nat content_length) (of_nat pad_length)))))"

definition throw_or_ret :: "exn + 'a \<Rightarrow> 'a iop" where
  "throw_or_ret r = (case r of Inl e \<Rightarrow> throw e | Inr x \<Rightarrow> ret x)"

definition SendGetValuesResult :: "fd \<Rightarrow> bytes option \<Rightarrow> nat \<Rightarrow> bool iop" where
  "SendGetValuesResult c buffer_ptr cnt =
     bind (throw_or_ret (ExtractBinaryNameValuePairs buffer_ptr cnt)) (\<lambda>get_value_pairs.
     bind (gets (\<lambda>s. get_values_result_pairs (maximum_connection_count s)
                       (maximum_request_count_per_connection s) get_value_pairs)) (\<lambda>r.
     bind (throw_or_ret r) (\<lambda>result_pairs.
     bind (throw_or_ret (get_values_result_record result_pairs)) (\<lambda>result.
       SendRecord c result (int (length result))))))"


section \<open>Sending one record\<close>

text \<open>
  What a call of \<open>SendRecord\<close> on connection \<open>c\<close> may change: the corruption flag of \<open>c\<close>, the
  presence of \<open>c\<close> in the closure set, and what was sent on \<open>c\<close>.
\<close>

definition send_frame :: "fd \<Rightarrow> interface \<Rightarrow> interface \<Rightarrow> bool" where
  "send_frame c s s' \<longleftrightarrow> (\<exists>w cl k.
     s' = s\<lparr>write_mutex_map := w, application_closure_request_set := cl, os := k\<rparr>
     \<and> om_wf w \<and> keys w = keys (write_mutex_map s)
     \<and> (\<forall>d. map_option fst (om_find d w) = map_option fst (om_find d (write_mutex_map s)))
     \<and> (\<forall>d. d \<noteq> c \<longrightarrow> om_find d w = om_find d (write_mutex_map s) \<and> wire k d = wire (os s) d)
     \<and> om_wf cl \<and> keys (application_closure_request_set s) \<subseteq> keys cl
     \<and> keys cl \<subseteq> insert c (keys (application_closure_request_set s))
     \<and> (\<forall>held. om_find c w = Some (held, True) \<longrightarrow> c \<in> keys cl)
     \<and> open_fds k = open_fds (os s) \<and> queue k = queue (os s)
     \<and> peer_gone k = peer_gone (os s))"

lemma send_frame_inv:
  assumes "interface_inv s" and "\<not> bad_interface_state_detected s" and "send_frame c s s'"
      and "c \<in> keys (write_mutex_map s)"
  shows "interface_inv s' \<and> \<not> bad_interface_state_detected s'"
proof -
  obtain w cl k where s': "s' = s\<lparr>write_mutex_map := w, application_closure_request_set := cl, os := k\<rparr>"
      and w: "om_wf w" "keys w = keys (write_mutex_map s)"
        "\<forall>d. d \<noteq> c \<longrightarrow> om_find d w = om_find d (write_mutex_map s)"
      and cl: "om_wf cl" "keys (application_closure_request_set s) \<subseteq> keys cl"
        "keys cl \<subseteq> insert c (keys (application_closure_request_set s))"
        "\<forall>held. om_find c w = Some (held, True) \<longrightarrow> c \<in> keys cl"
      and k: "open_fds k = open_fds (os s)"
    using assms(3) unfolding send_frame_def by blast
  have di: "descriptors_inv s" and rest: "counts_inv s" "requests_inv s" "statuses_inv s"
      and clo: "closure_inv s"
    using assms(1,2) by (simp_all add: interface_inv_def)
  have "descriptors_inv s'" using di w(1,2) cl(1) k by (simp add: descriptors_inv_def s')
  moreover have "counts_inv s'" using rest(1) by (auto simp: counts_inv_def requests_of_def s')
  moreover have "requests_inv s'" "statuses_inv s'"
    using rest(2,3) by (simp_all add: requests_inv_def statuses_inv_def s')
  moreover have "closure_inv s'"
  proof -
    have "c \<in> keys (record_status_map s)" using di assms(4) by (simp add: descriptors_inv_def)
    moreover have "\<forall>d held. om_find d w = Some (held, True) \<longrightarrow> d \<in> keys cl"
    proof (intro allI impI)
      fix d held assume d: "om_find d w = Some (held, True)"
      show "d \<in> keys cl"
      proof (cases "d = c")
        case False
        then have "om_find d (write_mutex_map s) = Some (held, True)" using d w(3) by simp
        then show ?thesis using clo cl(2) unfolding closure_inv_def by blast
      qed (use d cl(4) in blast)
    qed
    moreover have "keys cl \<subseteq> keys (record_status_map s)"
      using calculation(1) cl(3) clo unfolding closure_inv_def by blast
    ultimately show ?thesis by (simp add: closure_inv_def s')
  qed
  ultimately show ?thesis using assms(2) by (simp add: interface_inv_def s')
qed

lemma send_frame_refl:
  assumes "descriptors_inv s" and "\<forall>held. om_find c (write_mutex_map s) = Some (held, True) \<longrightarrow>
      c \<in> keys (application_closure_request_set s)"
  shows "send_frame c s s"
  using assms unfolding send_frame_def
  by (intro exI [of _ "write_mutex_map s"] exI [of _ "application_closure_request_set s"]
        exI [of _ "os s"]) (auto simp: descriptors_inv_def)

lemma SendRecord_run:
  assumes "descriptors_inv s" and "closure_inv s"
      and "om_find c (write_mutex_map s) = Some (held, corrupt)"
  shows "case SendRecord c bs (int (length bs)) s of
       (Ok True, s') \<Rightarrow> \<not> corrupt \<and> send_frame c s s' \<and> wire (os s') c = wire (os s) c @ bs
          \<and> om_find c (write_mutex_map s') = Some (held, False)
     | (Ok False, s') \<Rightarrow> send_frame c s s' \<and> c \<in> keys (application_closure_request_set s')
          \<and> (om_find c (write_mutex_map s') = Some (held, False) \<longrightarrow> wire (os s') c = wire (os s) c)
     | (Throw e, s') \<Rightarrow> send_frame c s s' \<and> c \<in> keys (application_closure_request_set s')
          \<and> (\<exists>n. e = SystemError n \<and> n \<noteq> EPIPE \<and> n \<noteq> 0)
          \<and> (om_find c (write_mutex_map s') = Some (held, False) \<longrightarrow> wire (os s') c = wire (os s) c)
     | (Blocked, s') \<Rightarrow> True
     | _ \<Rightarrow> False"
proof (cases "held \<or> corrupt")
  case True
  have "send_frame c s s"
    using assms(1,2) by (intro send_frame_refl) (auto simp: closure_inv_def)
  moreover have "c \<in> keys (application_closure_request_set s)" if corrupt
    using assms(2,3) that by (auto simp: closure_inv_def)
  ultimately show ?thesis using True assms(3)
    by (auto simp: SendRecord_def bind_def gets_def ret_def blocked_def)
next
  case False
  show ?thesis
  proof (cases "WriteOnSelect bs (length bs) (errno (os s)) (script (os s))")
    case None
    then show ?thesis using assms False
      by (simp add: SendRecord_def bind_def gets_def sys_WriteOnSelect_def Let_def)
  next
    case (Some t)
    then obtain n e sent as where
      w: "WriteOnSelect bs (length bs) (errno (os s)) (script (os s)) = Some (n, e, sent, as)"
      by (cases t) auto
    have n: "n \<le> length bs" "sent = take n bs" using ws.sends_prefix [OF w] by simp_all
    let ?k = "os s\<lparr>errno := e, script := as, wire := (wire (os s))(c := wire (os s) c @ sent)\<rparr>"
    let ?cl = "om_insert c () (application_closure_request_set s)"
    have wf: "om_wf (write_mutex_map s)" "om_wf (application_closure_request_set s)"
      using assms(1) by (simp_all add: descriptors_inv_def)
    show ?thesis
    proof (cases "n < length bs")
      case full: False
      have "send_frame c s (s\<lparr>os := ?k\<rparr>)" unfolding send_frame_def using wf assms(2,3) False
        by (intro exI [of _ "write_mutex_map s"] exI [of _ "application_closure_request_set s"]
              exI [of _ ?k]) (auto simp: closure_inv_def)
      then show ?thesis using full assms(3) False w n
        by (simp add: SendRecord_def bind_def gets_def ret_def sys_WriteOnSelect_def Let_def)
    next
      case short: True
      let ?w = "if n \<noteq> 0 then om_set c (held, True) (write_mutex_map s) else write_mutex_map s"
      let ?s' = "s\<lparr>write_mutex_map := ?w, application_closure_request_set := ?cl, os := ?k\<rparr>"
      have "send_frame c s ?s'" unfolding send_frame_def using wf assms(3)
        by (intro exI [of _ ?w] exI [of _ ?cl] exI [of _ ?k])
           (auto simp: om_find_set om_wf_insert)
      moreover have run: "SendRecord c bs (int (length bs)) s =
          (if e = EPIPE \<or> e = 0 then (Ok False, ?s') else (Throw (SystemError e), ?s'))"
        using short assms(3) False w
        by (cases "n = 0")
           (simp_all add: SendRecord_def bind_def gets_def ret_def throw_def modify_def when_then_def
              sys_WriteOnSelect_def schedule_closure_def Let_def)
      moreover have "n = 0" if "om_find c ?w = Some (held, False)"
        using that assms(3) by (auto simp: om_find_set split: if_splits)
      then have "om_find c ?w = Some (held, False) \<longrightarrow> wire ?k c = wire (os s) c"
        using n(2) by auto
      ultimately show ?thesis by (cases "e = EPIPE \<or> e = 0") (simp_all add: run)
    qed
  qed
qed


section \<open>Framing\<close>

text \<open>
  A record: header, content, and padding of the announced lengths. The bytes sent on a connection
  are framed if they are a sequence of complete records.
\<close>

definition record_with :: "FcgiType \<Rightarrow> u16 \<Rightarrow> bytes \<Rightarrow> bytes \<Rightarrow> bool" where
  "record_with type i content bs \<longleftrightarrow> (\<exists>pad.
     bs = PopulateHeader type i (of_nat (length content)) (of_nat (length pad)) @ content @ pad
     \<and> length content \<le> kMaxRecordContentByteLength \<and> length pad < 256)"

definition framed :: "bytes \<Rightarrow> bool" where
  "framed w \<longleftrightarrow> (\<exists>rs. w = concat rs \<and> (\<forall>r \<in> set rs. \<exists>t i content. record_with t i content r))"

text \<open>
  Between two writes: what was sent on every connection whose write mutex is free and that is not
  marked as corrupt is framed, unless its peer is gone.
\<close>

definition framing_inv :: "interface \<Rightarrow> bool" where
  "framing_inv s \<longleftrightarrow> (\<forall>c. om_find c (write_mutex_map s) = Some (False, False) \<longrightarrow>
     \<not> peer_gone (os s) c \<longrightarrow> framed (wire (os s) c))"

lemma framed_append: "framed w \<Longrightarrow> record_with t i content r \<Longrightarrow> framed (w @ r)"
  unfolding framed_def
  by (elim exE conjE, rule_tac x = "rs @ [r]" in exI) auto

lemma record_bytes_is_record:
  "length c \<le> max_aligned_content_length \<Longrightarrow> record_with t i c (record_bytes t i c)"
  using padding_le [of "length c"] by (auto simp: record_with_def record_bytes_def)

lemma send_frame_other:
  "send_frame c s s' \<Longrightarrow> d \<noteq> c \<Longrightarrow>
     om_find d (write_mutex_map s') = om_find d (write_mutex_map s) \<and> wire (os s') d = wire (os s) d"
  by (auto simp: send_frame_def)

lemma send_frame_held:
  "send_frame c s s' \<Longrightarrow>
     map_option fst (om_find d (write_mutex_map s')) = map_option fst (om_find d (write_mutex_map s))"
  by (auto simp: send_frame_def)

lemma send_frame_gone: "send_frame c s s' \<Longrightarrow> peer_gone (os s') = peer_gone (os s)"
  by (auto simp: send_frame_def)

lemma framing_inv_step:
  assumes "framing_inv s" and "send_frame c s s'"
      and "om_find c (write_mutex_map s') = Some (False, False) \<Longrightarrow> \<not> peer_gone (os s) c \<Longrightarrow>
        framed (wire (os s') c)"
  shows "framing_inv s'"
  unfolding framing_inv_def
proof (intro allI impI)
  fix d assume d: "om_find d (write_mutex_map s') = Some (False, False)" "\<not> peer_gone (os s') d"
  show "framed (wire (os s') d)"
  proof (cases "d = c")
    case False
    then show ?thesis
      using d assms(1) send_frame_other [OF assms(2) False] send_frame_gone [OF assms(2)]
      by (auto simp: framing_inv_def)
  qed (use d assms(3) send_frame_gone [OF assms(2)] in auto)
qed

lemma SendRecord_frame:
  assumes "interface_inv s" and "\<not> bad_interface_state_detected s" and "framing_inv s"
      and "c \<in> keys (write_mutex_map s)" and "record_with t i content bs"
  shows "case SendRecord c bs (int (length bs)) s of
       (Ok b, s') \<Rightarrow> send_frame c s s' \<and> framing_inv s'
         \<and> (if b then wire (os s') c = wire (os s) c @ bs
            else c \<in> keys (application_closure_request_set s'))
     | (Throw e, s') \<Rightarrow> send_frame c s s' \<and> framing_inv s'
         \<and> (\<exists>n. e = SystemError n) \<and> c \<in> keys (application_closure_request_set s')
     | (Blocked, s') \<Rightarrow> True
     | _ \<Rightarrow> False"
proof -
  obtain held corrupt where c: "om_find c (write_mutex_map s) = Some (held, corrupt)"
    using assms(4) by (auto simp: keys_Some)
  have di: "descriptors_inv s" and cl: "closure_inv s"
    using assms(1,2) by (simp_all add: interface_inv_def)
  have refl: "send_frame c s s" using di cl c
    by (intro send_frame_refl) (auto simp: closure_inv_def)
  have same: "framing_inv s'" if f: "send_frame c s s'"
      and w: "om_find c (write_mutex_map s') = Some (held, False) \<longrightarrow> wire (os s') c = wire (os s) c"
      and nc: "\<not> corrupt \<or> om_find c (write_mutex_map s') = om_find c (write_mutex_map s)" for s'
  proof (rule framing_inv_step [OF assms(3) f])
    assume h: "om_find c (write_mutex_map s') = Some (False, False)" "\<not> peer_gone (os s) c"
    then have "\<not> held" using send_frame_held [OF f, of c] c by simp
    moreover have "\<not> corrupt" using nc h c by auto
    ultimately show "framed (wire (os s') c)" using h w assms(3) c by (auto simp: framing_inv_def)
  qed
  show ?thesis
  proof (cases corrupt)
    case True
    then show ?thesis
      using c assms(3) cl refl
      by (auto simp: SendRecord_def bind_def gets_def ret_def blocked_def closure_inv_def)
  next
    case False
    have full: "framing_inv s'" if f: "send_frame c s s'"
        and w: "wire (os s') c = wire (os s) c @ bs" for s'
    proof (rule framing_inv_step [OF assms(3) f])
      assume h: "om_find c (write_mutex_map s') = Some (False, False)" "\<not> peer_gone (os s) c"
      then have "\<not> held" using send_frame_held [OF f, of c] c by simp
      then show "framed (wire (os s') c)"
        using framed_append [OF _ assms(5)] c False assms(3) w h by (simp add: framing_inv_def)
    qed
    note run = SendRecord_run [OF di cl c, of bs]
    obtain out s' where o: "SendRecord c bs (int (length bs)) s = (out, s')"
      by (cases "SendRecord c bs (int (length bs)) s")
    show ?thesis
    proof (cases out)
      case (Ok b)
      then show ?thesis using run full [of s'] same [of s'] False
        by (cases b) (simp_all add: o)
    next
      case (Throw e)
      then show ?thesis using run same [of s'] False by (auto simp: o)
    qed (use run in \<open>simp_all add: o\<close>)
  qed
qed

text \<open>
  C10. \<open>SendRecord\<close> keeps the framing of the output. On a connection of the interface, whatever the
  system calls answer: if it returns \<open>true\<close> the record has been appended completely to what was
  sent; if it returns \<open>false\<close> or throws (a \<open>system_error\<close>), the connection is scheduled for closure;
  and in every case the output of each connection on which no write is in progress, that is not
  marked as corrupt and whose peer is not gone is a sequence of complete records, corrupt connections are scheduled for closure, and the invariant is kept.
\<close>

theorem SendRecord_correct:
  assumes "interface_inv s" and "\<not> bad_interface_state_detected s" and "framing_inv s"
      and "c \<in> keys (write_mutex_map s)" and "record_with t i content bs"
  shows "case SendRecord c bs (int (length bs)) s of
       (Ok b, s') \<Rightarrow> interface_inv s' \<and> \<not> bad_interface_state_detected s' \<and> framing_inv s'
         \<and> (if b then wire (os s') c = wire (os s) c @ bs
            else c \<in> keys (application_closure_request_set s'))
     | (Throw e, s') \<Rightarrow> interface_inv s' \<and> \<not> bad_interface_state_detected s' \<and> framing_inv s'
         \<and> (\<exists>n. e = SystemError n) \<and> c \<in> keys (application_closure_request_set s')
     | (Blocked, s') \<Rightarrow> True
     | _ \<Rightarrow> False"
proof -
  note inv = send_frame_inv [OF assms(1,2) _ assms(4)]
  obtain out s' where o: "SendRecord c bs (int (length bs)) s = (out, s')"
    by (cases "SendRecord c bs (int (length bs)) s")
  show ?thesis using SendRecord_frame [OF assms] inv [of s']
    by (cases out) (simp_all add: o)
qed

theorem SendRecord_correct_witness:
  "\<exists>s'. SendRecord 7 (record_bytes kFCGI_STDERR 1 []) 8 (example_interface kRequestPending [Count 1, Count 3, Count 1, Count 9])
      = (Ok True, s') \<and> interface_inv s' \<and> framing_inv s'
      \<and> wire (os s') 7 = [1, 7, 0, 1, 0, 0, 0, 0]"
proof -
  let ?s = "example_interface kRequestPending [Count 1, Count 3, Count 1, Count 9]"
  let ?bs = "record_bytes kFCGI_STDERR 1 []"
  have bs: "?bs = [1, 7, 0, 1, 0, 0, 0, 0]"
    by (simp add: record_bytes_def padding_for_def PopulateHeader_def hi8_def lo8_def)
  have fr: "framing_inv ?s"
    by (auto simp: framing_inv_def framed_def example_interface_def intro: exI [of _ "[]"])
  have nb: "\<not> bad_interface_state_detected ?s" and c: "7 \<in> keys (write_mutex_map ?s)" by simp_all
  have r: "record_with kFCGI_STDERR 1 [] ?bs" by (rule record_bytes_is_record) simp
  have "fst (SendRecord 7 ?bs (int (length ?bs)) ?s) = Ok True"
    by (simp add: bs SendRecord_def run_simps sys_WriteOnSelect_def WriteOnSelect_def
          WriteOnSelectLoop.simps example_interface_def numeral_eq_Suc)
  then obtain s' where "SendRecord 7 ?bs (int (length ?bs)) ?s = (Ok True, s')"
    by (metis prod.collapse)
  then show ?thesis
    using SendRecord_correct [OF example_interface_inv nb fr c r]
    by (simp add: bs) (simp add: example_interface_def)
qed

section \<open>The records of the interface\<close>

lemma end_request_record_eq:
  "end_request_record r ps a = PopulateHeader kFCGI_END_REQUEST (Fcgi_id r) 8 0
     @ app_status_bytes a @ [ps, 0, 0, 0]"
  by (simp add: end_request_record_def PopulateHeader_def overwrite_def app_status_bytes_def
        numeral_eq_Suc)

lemma unknown_type_record_eq:
  "unknown_type_record t = PopulateHeader kFCGI_UNKNOWN_TYPE 0 8 0 @ [t, 0, 0, 0, 0, 0, 0, 0]"
  by (simp add: unknown_type_record_def PopulateHeader_def overwrite_def numeral_eq_Suc)

definition big_endian :: "bytes \<Rightarrow> int" where
  "big_endian = foldl (\<lambda>v b. 256 * v + uint b) 0"

lemma app_status_value: "big_endian (app_status_bytes a) = a mod 2 ^ 32"
proof -
  have b: "uint (word_of_int (drop_bit k a) :: byte) = a div 2 ^ k mod 256" for k
    by (simp add: unsigned_of_int take_bit_eq_mod drop_bit_eq_div)
  have sum: "256 * (256 * (256 * x + y) + z) + w = 2 ^ 24 * x + (2 ^ 16 * y + (2 ^ 8 * z + w))"
    for x y z w :: int by simp
  have e1: "a mod 2 ^ 32 = 2 ^ 24 * (a div 2 ^ 24 mod 256) + a mod 2 ^ 24"
    using zmod_zmult2_eq [of "2 ^ 8" a "2 ^ 24"] by simp
  have e2: "a mod 2 ^ 24 = 2 ^ 16 * (a div 2 ^ 16 mod 256) + a mod 2 ^ 16"
    using zmod_zmult2_eq [of "2 ^ 8" a "2 ^ 16"] by simp
  have e3: "a mod 2 ^ 16 = 2 ^ 8 * (a div 2 ^ 8 mod 256) + a mod 2 ^ 8"
    using zmod_zmult2_eq [of "2 ^ 8" a "2 ^ 8"] by simp
  have e4: "big_endian (app_status_bytes a) = 256 * (256 * (256 * (a div 2 ^ 24 mod 256)
      + a div 2 ^ 16 mod 256) + a div 2 ^ 8 mod 256) + a mod 2 ^ 8"
  proof -
    have "app_status_bytes a = map (\<lambda>k. word_of_int (drop_bit k a)) [24, 16, 8, 0]"
      by (simp add: app_status_bytes_def)
    then show ?thesis by (simp only: big_endian_def list.map foldl.simps b) simp
  qed
  show ?thesis by (simp only: e1 e2 e3 e4 sum)
qed

text \<open>
  C34. \<open>SendFcgiEndRequest\<close> and \<open>SendFcgiUnknownType\<close> each send one well-formed record. The first is
  an \<open>FCGI_END_REQUEST\<close> record of the request whose content is the application status as a big
  endian 32 bit two's complement number, the protocol status and three zero bytes. The second is
  an \<open>FCGI_UNKNOWN_TYPE\<close> management record whose content is the type and seven zero bytes.
\<close>

theorem management_records_correct:
  "(\<exists>bs status. SendFcgiEndRequest c r ps a = SendRecord c bs (int (length bs))
      \<and> record_with kFCGI_END_REQUEST (Fcgi_id r) (status @ [ps, 0, 0, 0]) bs
      \<and> length bs = 16 \<and> length status = 4 \<and> big_endian status = a mod 2 ^ 32)
   \<and> (\<exists>bs. SendFcgiUnknownType c t = SendRecord c bs (int (length bs))
      \<and> record_with kFCGI_UNKNOWN_TYPE FCGI_NULL_REQUEST_ID [t, 0, 0, 0, 0, 0, 0, 0] bs
      \<and> length bs = 16)"
proof
  have len: "length (app_status_bytes a) = 4" by (simp add: app_status_bytes_def)
  show "\<exists>bs status. SendFcgiEndRequest c r ps a = SendRecord c bs (int (length bs))
      \<and> record_with kFCGI_END_REQUEST (Fcgi_id r) (status @ [ps, 0, 0, 0]) bs
      \<and> length bs = 16 \<and> length status = 4 \<and> big_endian status = a mod 2 ^ 32"
    by (intro exI [of _ "end_request_record r ps a"] exI [of _ "app_status_bytes a"])
       (simp add: SendFcgiEndRequest_def record_with_def end_request_record_eq len
          app_status_value [simplified])
  show "\<exists>bs. SendFcgiUnknownType c t = SendRecord c bs (int (length bs))
      \<and> record_with kFCGI_UNKNOWN_TYPE FCGI_NULL_REQUEST_ID [t, 0, 0, 0, 0, 0, 0, 0] bs
      \<and> length bs = 16"
    by (intro exI [of _ "unknown_type_record t"])
       (simp add: SendFcgiUnknownType_def record_with_def unknown_type_record_eq)
qed

lemma name_present_iff: "name_present n (sort_key fst ps) \<longleftrightarrow> n \<in> fst ` set ps"
proof -
  have "name_present n qs \<longleftrightarrow> n \<in> fst ` set qs" if "sorted (map fst qs)" for qs :: "(bytes \<times> bytes) list"
    using that
  proof (induction qs)
    case (Cons q qs)
    then show ?case by (cases "fst q < n") (force simp: name_present_def)+
  qed (simp add: name_present_def)
  from this [OF sorted_sort_key] show ?thesis by simp
qed

lemma length_decimal_digits: "0 < k \<Longrightarrow> n < 10 ^ k \<Longrightarrow> length (decimal_digits n) \<le> k"
proof (induction n arbitrary: k rule: decimal_digits.induct)
  case (1 n)
  show ?case
  proof (cases "n < 10")
    case True
    then show ?thesis using 1(2) by (subst decimal_digits.simps) simp
  next
    case False
    obtain j where k: "k = Suc j" "0 < j"
    proof (cases k)
      case (Suc j)
      then show thesis using False 1(3) by (cases j) (auto intro: that)
    qed (use 1(2) in simp)
    then have "n div 10 < 10 ^ j" using 1(3) by (simp add: less_mult_imp_div_less mult.commute)
    then show ?thesis using 1(1) [OF False k(2)] False k(1)
      by (subst decimal_digits.simps) simp
  qed
qed

lemma encode_length_short: "n < 128 \<Longrightarrow> encode_length n = Inr [of_nat n] \<and> len_enc n [of_nat n]"
  using len_short [of "of_nat n"] by (simp add: encode_length_def unsigned_of_nat take_bit_eq_mod)

lemma encode_pairs_short:
  "\<forall>(n, v) \<in> set ps. length n < 128 \<and> length v < 128 \<Longrightarrow>
     \<exists>bs. encode_pairs ps = Inr bs \<and> nv_stream bs ps
        \<and> length bs = sum_list (map (\<lambda>(n, v). 2 + length n + length v) ps)"
proof (induction ps)
  case Nil
  then show ?case by (simp add: nv_Nil)
next
  case (Cons p ps)
  obtain n v where p: "p = (n, v)" by (cases p)
  then obtain bs where bs: "encode_pairs ps = Inr bs" "nv_stream bs ps"
      "length bs = sum_list (map (\<lambda>(n, v). 2 + length n + length v) ps)"
    using Cons by auto
  have n: "encode_length (length n) = Inr [of_nat (length n)]" "len_enc (length n) [of_nat (length n)]"
      and v: "encode_length (length v) = Inr [of_nat (length v)]" "len_enc (length v) [of_nat (length v)]"
    using Cons.prems p encode_length_short by auto
  show ?case using bs n(1) v(1) nv_Cons [OF n(2) v(2) bs(2)] by (simp add: p)
qed

lemma get_values_result_record_correct:
  assumes "encode_pairs ps = Inr content" and "length content \<le> 65528"
  shows "\<exists>bs. get_values_result_record ps = Inr bs
     \<and> record_with kFCGI_GET_VALUES_RESULT FCGI_NULL_REQUEST_ID content bs"
proof -
  let ?r = "(8 + length content) mod 8"
  let ?pad = "if ?r \<noteq> 0 then 8 - ?r else 0"
  have "get_values_result_record ps = Inr (PopulateHeader kFCGI_GET_VALUES_RESULT 0
      (of_nat (length content)) (of_nat ?pad) @ content @ replicate ?pad 0)"
    using assms(1) by (simp add: get_values_result_record_def Let_def overwrite_def)
  moreover have "?pad < 256" by (simp add: less_imp_diff_less)
  moreover from this have "record_with kFCGI_GET_VALUES_RESULT 0 content
      (PopulateHeader kFCGI_GET_VALUES_RESULT 0 (of_nat (length content)) (of_nat ?pad)
        @ content @ replicate ?pad 0)"
    using assms(2) unfolding record_with_def by (intro exI [of _ "replicate ?pad 0"]) simp
  ultimately show ?thesis by blast
qed


definition asks_for :: "bytes \<Rightarrow> bytes \<Rightarrow> bool" where
  "asks_for name query \<longleftrightarrow> (\<exists>ps. nv_stream query ps \<and> name \<in> fst ` set ps)"


definition get_values_answers :: "interface \<Rightarrow> bytes \<Rightarrow> (bytes \<times> bytes) list" where
  "get_values_answers s query =
     (if asks_for FCGI_MAX_CONNS query
      then [(FCGI_MAX_CONNS, decimal_digits (nat (maximum_connection_count s)))] else [])
     @ (if asks_for FCGI_MAX_REQS query
        then [(FCGI_MAX_REQS, decimal_digits (nat (maximum_request_count_per_connection s)))] else [])
     @ (if asks_for FCGI_MPXS_CONNS query
        then [(FCGI_MPXS_CONNS, [if maximum_request_count_per_connection s > 1 then 49 else 48])]
        else [])"

lemma ExtractBinaryNameValuePairs_total:
  "\<exists>ps. ExtractBinaryNameValuePairs (Some query) (length query) = Inr ps
     \<and> (\<forall>n. n \<in> fst ` set ps \<longleftrightarrow> asks_for n query)"
proof (cases "\<exists>ps. nv_stream query ps")
  case True
  then obtain ps where ps: "nv_stream query ps" ..
  have "asks_for n query \<longleftrightarrow> n \<in> fst ` set ps" for n
    unfolding asks_for_def using ps by (metis nv_stream_unique)
  then show ?thesis
    using ExtractLoop_stream [OF ps, of 0 _ "[]" "[]"]
    by (simp add: ExtractBinaryNameValuePairs_def)
next
  case False
  then have "\<not> asks_for n query" for n by (auto simp: asks_for_def)
  then show ?thesis
    using ExtractLoop_malformed [OF False, of 0 _ "[]" "[]"]
    by (simp add: ExtractBinaryNameValuePairs_def)
qed

lemma get_values_reply:
  assumes "0 \<le> maximum_connection_count s" and "maximum_connection_count s \<le> int int_MAX"
      and "0 \<le> maximum_request_count_per_connection s"
      and "maximum_request_count_per_connection s \<le> int int_MAX"
  shows "\<exists>ps bs content. ExtractBinaryNameValuePairs (Some query) (length query) = Inr ps
       \<and> get_values_result_pairs (maximum_connection_count s)
            (maximum_request_count_per_connection s) ps = Inr (get_values_answers s query)
       \<and> get_values_result_record (get_values_answers s query) = Inr bs
       \<and> record_with kFCGI_GET_VALUES_RESULT FCGI_NULL_REQUEST_ID content bs
       \<and> nv_stream content (get_values_answers s query)"
proof -
  obtain ps where ps: "ExtractBinaryNameValuePairs (Some query) (length query) = Inr ps"
      "\<And>n. n \<in> fst ` set ps \<longleftrightarrow> asks_for n query"
    using ExtractBinaryNameValuePairs_total by blast
  have pairs: "get_values_result_pairs (maximum_connection_count s)
      (maximum_request_count_per_connection s) ps = Inr (get_values_answers s query)"
    using assms(1,3)
    by (simp add: get_values_result_pairs_def name_present_iff ps(2) ToUnsignedCharacterVector_def
          get_values_answers_def Let_def)
  have dig: "length (decimal_digits (nat m)) \<le> 10" if "m \<le> int int_MAX" for m
    using that by (intro length_decimal_digits) auto
  have names: "length FCGI_MAX_CONNS = 14" "length FCGI_MAX_REQS = 13" "length FCGI_MPXS_CONNS = 15"
    by (simp_all add: FCGI_MAX_CONNS_def FCGI_MAX_REQS_def FCGI_MPXS_CONNS_def)
  have "\<forall>(n, v) \<in> set (get_values_answers s query). length n < 128 \<and> length v < 128"
    using dig [OF assms(2)] dig [OF assms(4)] by (auto simp: get_values_answers_def names)
  then obtain content where content: "encode_pairs (get_values_answers s query) = Inr content"
      "nv_stream content (get_values_answers s query)"
      "length content = sum_list (map (\<lambda>(n, v). 2 + length n + length v) (get_values_answers s query))"
    using encode_pairs_short by blast
  then have "length content \<le> 65528"
    using dig [OF assms(2)] dig [OF assms(4)] by (auto simp: get_values_answers_def names)
  then obtain bs where bs: "get_values_result_record (get_values_answers s query) = Inr bs"
      "record_with kFCGI_GET_VALUES_RESULT FCGI_NULL_REQUEST_ID content bs"
    using get_values_result_record_correct [OF content(1)] by blast
  then show ?thesis using ps(1) pairs content(2) by blast
qed

lemma SendGetValuesResult_run:
  "ExtractBinaryNameValuePairs (Some query) (length query) = Inr ps \<Longrightarrow>
   get_values_result_pairs (maximum_connection_count s) (maximum_request_count_per_connection s) ps
     = Inr answers \<Longrightarrow>
   get_values_result_record answers = Inr bs \<Longrightarrow>
   SendGetValuesResult c (Some query) (length query) s = SendRecord c bs (int (length bs)) s"
  by (simp add: SendGetValuesResult_def throw_or_ret_def)

text \<open>
  C25. \<open>SendGetValuesResult\<close>, for limits that are \<open>int\<close> values and not negative, sends one
  well-formed \<open>FCGI_GET_VALUES_RESULT\<close> management record. Its content is the name-value stream of
  the answers: for each of the names \<open>FCGI_MAX_CONNS\<close>, \<open>FCGI_MAX_REQS\<close> and \<open>FCGI_MPXS_CONNS\<close> that
  occurs in a well-formed query, in this order, once, the value of the interface in decimal digits;
  a malformed query is answered by an empty record.
\<close>

theorem SendGetValuesResult_correct:
  assumes "0 \<le> maximum_connection_count s" and "maximum_connection_count s \<le> int int_MAX"
      and "0 \<le> maximum_request_count_per_connection s"
      and "maximum_request_count_per_connection s \<le> int int_MAX"
  shows "\<exists>bs content. SendGetValuesResult c (Some query) (length query) s
            = SendRecord c bs (int (length bs)) s
       \<and> record_with kFCGI_GET_VALUES_RESULT FCGI_NULL_REQUEST_ID content bs
       \<and> nv_stream content (get_values_answers s query)"
  using get_values_reply [OF assms, of query]
  by (elim exE conjE, intro exI conjI) (rule SendGetValuesResult_run)

theorem SendGetValuesResult_correct_witness:
  "\<exists>bs content. SendGetValuesResult 7 (Some []) 0 (example_interface kRequestPending [])
            = SendRecord 7 bs (int (length bs)) (example_interface kRequestPending [])
       \<and> record_with kFCGI_GET_VALUES_RESULT FCGI_NULL_REQUEST_ID content bs"
  using SendGetValuesResult_correct [of "example_interface kRequestPending []" 7 "[]"]
  by (auto simp: example_interface_def)

end
