(* ===== verification/Record_Status.thy ===== *)
theory Record_Status
  imports Server_Send
begin

text \<open>
  The methods of \<open>FcgiServerInterface::RecordStatus\<close> (\<open>fcgi/src/record_status.cc\<close>): how the bytes
  received on a connection become records and records become requests.

  The object is the entry of its connection in \<open>record_status_map\<close>. An iterator of \<open>request_map\<close>
  is used only after a check that its entry is still there; using an iterator whose entry has been
  erased is undefined behaviour.
\<close>

section \<open>Access\<close>

definition get_status :: "fd \<Rightarrow> RecordStatus iop" where
  "get_status c = bind (gets (\<lambda>s. om_find c (record_status_map s)))
     (\<lambda>found. case found of None \<Rightarrow> undefined_behaviour | Some rs \<Rightarrow> ret rs)"

definition set_status :: "fd \<Rightarrow> RecordStatus \<Rightarrow> unit iop" where
  "set_status c rs = modify (\<lambda>s. s\<lparr>record_status_map := om_set c rs (record_status_map s)\<rparr>)"

text \<open>The cached iterator if it is for the request, and else the result of \<open>find\<close>.\<close>

definition cached_or_find :: "request_iterator \<Rightarrow> FcgiRequestIdentifier \<Rightarrow> request_iterator iop" where
  "cached_or_find iter r =
     (case iter of
        None \<Rightarrow> find_request r
      | Some k \<Rightarrow> bind (request_data k) (\<lambda>_.
          if Fcgi_id k \<noteq> Fcgi_id r then find_request r else ret (Some k)))"

text \<open>
  The handler of most \<open>catch(...)\<close> blocks: unless the interface is corrupt, the connection is
  scheduled for closure and the exception is rethrown.
\<close>

definition closure_handler :: "fd \<Rightarrow> exn \<Rightarrow> 'a iop" where
  "closure_handler c e =
     and_then InterfaceCheck (and_then (modify (schedule_closure c)) (throw e))"

section \<open>Completion of a header\<close>

definition decode_header :: "RecordStatus \<Rightarrow> RecordStatus" where
  "decode_header rs = rs\<lparr>
     content_bytes_expected := join16 (header rs ! kHeaderContentLengthB1Index)
                                      (header rs ! kHeaderContentLengthB0Index),
     padding_bytes_expected := header rs ! kHeaderPaddingLengthIndex,
     record_type := header rs ! kHeaderTypeIndex,
     request_id := FcgiRequestIdentifier (connection rs)
       (join16 (header rs ! kHeaderRequestIDB1Index) (header rs ! kHeaderRequestIDB0Index))\<rparr>"

text \<open>The check that needs only the header.\<close>

definition invalid_length :: "RecordStatus \<Rightarrow> bool" where
  "invalid_length rs =
     (if record_type rs = kFCGI_BEGIN_REQUEST
      then (if content_bytes_expected rs \<noteq> 8 then True else invalidated_by_header rs)
      else if record_type rs = kFCGI_ABORT_REQUEST
      then (if content_bytes_expected rs \<noteq> 0 then True else invalidated_by_header rs)
      else if record_type rs = kFCGI_PARAMS \<or> record_type rs = kFCGI_STDIN
           \<or> record_type rs = kFCGI_DATA
      then invalidated_by_header rs
      else True)"

text \<open>The check against the request of the record, if it is present.\<close>

definition invalid_for_request :: "FcgiType \<Rightarrow> RequestData option \<Rightarrow> bool" where
  "invalid_for_request type found =
     (if type = kFCGI_BEGIN_REQUEST then found \<noteq> None
      else if type = kFCGI_ABORT_REQUEST
      then (case found of None \<Rightarrow> True | Some rd \<Rightarrow> client_set_abort rd)
      else if type = kFCGI_PARAMS
      then (case found of None \<Rightarrow> True | Some rd \<Rightarrow> FCGI_PARAMS_complete rd)
      else if type = kFCGI_STDIN
      then (case found of None \<Rightarrow> True | Some rd \<Rightarrow> FCGI_STDIN_complete rd)
      else if type = kFCGI_DATA
      then (case found of None \<Rightarrow> True | Some rd \<Rightarrow> FCGI_DATA_complete rd)
      else True)"

definition UpdateAfterHeaderCompletion :: "fd \<Rightarrow> request_iterator \<Rightarrow> request_iterator iop" where
  "UpdateAfterHeaderCompletion c iter =
     bind (get_status c) (\<lambda>rs0.
       let rs = decode_header rs0 in
       if Fcgi_id (request_id rs) = FCGI_NULL_REQUEST_ID
       then and_then (set_status c rs) (ret iter)
       else let rs1 = rs\<lparr>invalidated_by_header := invalid_length rs\<rparr> in
         and_then (set_status c rs1)
           (if invalidated_by_header rs1 then ret iter
            else and_then InterfaceCheck
              (bind (cached_or_find iter (request_id rs1)) (\<lambda>request_map_iter.
               bind (gets (\<lambda>s. case request_map_iter of None \<Rightarrow> None
                               | Some r \<Rightarrow> om_find r (request_map s))) (\<lambda>found.
                 and_then
                   (set_status c (rs1\<lparr>invalidated_by_header :=
                      invalid_for_request (record_type rs1) found\<rparr>))
                   (ret (if request_map_iter \<noteq> None then request_map_iter else iter)))))))"

section \<open>Processing of a complete record\<close>

text \<open>
  The results of \<open>ProcessCompleteRecord\<close>: its return value, the list of completed requests and
  the cached iterator, which it may both change.
\<close>

type_synonym process_result =
  "request_iterator \<times> FcgiRequestIdentifier list \<times> request_iterator"

definition ProcessManagementRecord :: "fd \<Rightarrow> RecordStatus \<Rightarrow> unit iop" where
  "ProcessManagementRecord c rs =
     (if record_type rs = kFCGI_GET_VALUES
      then bind (SendGetValuesResult c (Some (local_record_content_buffer rs))
                   (length (local_record_content_buffer rs))) (\<lambda>_. ret ())
      else bind (SendFcgiUnknownType c (record_type rs)) (\<lambda>_. ret ()))"

abbreviation (input) EXIT_FAILURE :: int where "EXIT_FAILURE \<equiv> 1"

definition ProcessBeginRequest ::
  "fd \<Rightarrow> RecordStatus \<Rightarrow> FcgiRequestIdentifier list \<Rightarrow> request_iterator \<Rightarrow> process_result iop"
where
  "ProcessBeginRequest c rs request_iterators iter =
     (let buffer = local_record_content_buffer rs in
      bind (vector_at buffer kBeginRequestRoleB1Index) (\<lambda>role_B1.
      bind (vector_at buffer kBeginRequestRoleB0Index) (\<lambda>role_B0.
      and_then InterfaceCheck
        (bind (gets (\<lambda>s. om_find c (request_count_map s))) (\<lambda>request_count_it.
          case request_count_it of
            None \<Rightarrow> and_then (modify set_bad) (throw LogicError)
          | Some n \<Rightarrow>
            bind (gets (\<lambda>s. (n \<ge> maximum_request_count_per_connection s,
                            maximum_request_count_per_connection s = 1,
                            application_overload s))) (\<lambda>(limit_reached, single, overload).
              if limit_reached
              then bind (SendFcgiEndRequest c (request_id rs)
                           (if single then FCGI_CANT_MPX_CONN else FCGI_OVERLOADED) EXIT_FAILURE)
                     (\<lambda>_. ret (None, request_iterators, iter))
              else if overload
              then bind (SendFcgiEndRequest c (request_id rs) FCGI_OVERLOADED EXIT_FAILURE)
                     (\<lambda>_. ret (None, request_iterators, iter))
              else bind (vector_at buffer kBeginRequestFlagsIndex) (\<lambda>flags.
                and_then InterfaceCheck
                (bind (AddRequest (request_id rs) (join16 role_B1 role_B0)
                         (flags AND FCGI_KEEP_CONN = 0)) (\<lambda>added.
                   ret (None, request_iterators, added))))))))))"

definition ProcessAbortRequest ::
  "fd \<Rightarrow> RecordStatus \<Rightarrow> FcgiRequestIdentifier list \<Rightarrow> request_iterator \<Rightarrow> process_result iop"
where
  "ProcessAbortRequest c rs request_iterators iter =
     and_then InterfaceCheck
       (bind (cached_or_find iter (request_id rs)) (\<lambda>local_request_iter.
          case local_request_iter of
            None \<Rightarrow> ret (None, request_iterators, iter)
          | Some r \<Rightarrow>
            (let iter' = (if local_request_iter = iter then None else iter) in
             bind (request_data r) (\<lambda>rd.
               if request_status rd = kRequestAssigned
               then and_then (set_request_data r (set_abort rd))
                      (ret (None, request_iterators, iter'))
               else and_then (when_then (close_connection rd) (modify (schedule_closure c)))
                 (if FCGI_STDIN_complete rd \<and> FCGI_DATA_complete rd \<and> FCGI_PARAMS_complete rd
                     \<and> r \<notin> set request_iterators
                  then throw LogicError
                  else let request_iterators' =
                         (if FCGI_STDIN_complete rd \<and> FCGI_DATA_complete rd
                             \<and> FCGI_PARAMS_complete rd
                          then remove1 r request_iterators else request_iterators)
                    in and_then (RemoveRequest_iter local_request_iter)
                      (bind (gets app_status_on_abort) (\<lambda>app_status.
                       bind (SendFcgiEndRequest c (request_id rs) FCGI_REQUEST_COMPLETE app_status)
                         (\<lambda>_. ret (None, request_iterators', iter')))))))))"

definition complete_stream :: "FcgiType \<Rightarrow> RequestData \<Rightarrow> RequestData" where
  "complete_stream type rd =
     (if type = kFCGI_PARAMS then CompletePARAMS rd
      else if type = kFCGI_STDIN then CompleteSTDIN rd else CompleteDATA rd)"

definition ProcessStreamRecord ::
  "fd \<Rightarrow> RecordStatus \<Rightarrow> FcgiRequestIdentifier list \<Rightarrow> request_iterator \<Rightarrow> process_result iop"
where
  "ProcessStreamRecord c rs request_iterators iter =
     (if content_bytes_expected rs \<noteq> 0 then ret (None, request_iterators, iter)
      else and_then InterfaceCheck
        (bind (cached_or_find iter (request_id rs)) (\<lambda>local_request_iter.
           case local_request_iter of
             None \<Rightarrow> throw LogicError
           | Some r \<Rightarrow>
             bind (request_data r) (\<lambda>rd0.
               let (completed, rd) = CheckRequestCompletionWithConditionalUpdate
                     (complete_stream (record_type rs) rd0) in
               and_then (set_request_data r rd)
                 (if \<not> completed then ret (None, request_iterators, iter)
                  else let iter' = (if local_request_iter = iter then None else iter);
                           (ok, rd') = ProcessFCGI_PARAMS rd in
                    and_then (set_request_data r rd')
                      (if ok then ret (local_request_iter, request_iterators, iter')
                       else and_then InterfaceCheck
                         (and_then (when_then (close_connection rd') (modify (schedule_closure c)))
                           (and_then (RemoveRequest_iter local_request_iter)
                             (bind (SendFcgiEndRequest c (request_id rs) FCGI_REQUEST_COMPLETE
                                      EXIT_FAILURE)
                               (\<lambda>_. ret (None, request_iterators, iter')))))))))))"

definition ProcessCompleteRecord ::
  "fd \<Rightarrow> FcgiRequestIdentifier list \<Rightarrow> request_iterator \<Rightarrow> process_result iop"
where
  "ProcessCompleteRecord c request_iterators iter =
     bind (get_status c) (\<lambda>rs.
       try_catch
         (if Fcgi_id (request_id rs) = FCGI_NULL_REQUEST_ID
          then and_then (ProcessManagementRecord c rs) (ret (None, request_iterators, iter))
          else if invalidated_by_header rs then ret (None, request_iterators, iter)
          else if record_type rs = kFCGI_BEGIN_REQUEST
          then ProcessBeginRequest c rs request_iterators iter
          else if record_type rs = kFCGI_ABORT_REQUEST
          then ProcessAbortRequest c rs request_iterators iter
          else if record_type rs = kFCGI_PARAMS \<or> record_type rs = kFCGI_STDIN
               \<or> record_type rs = kFCGI_DATA
          then ProcessStreamRecord c rs request_iterators iter
          else throw LogicError)
         (closure_handler c))"


section \<open>Reading\<close>

abbreviation (input) kBufferSize :: nat where "kBufferSize \<equiv> 512"

text \<open>
  One turn of the loop over the received bytes. The first part takes a segment from them: a part
  of the header, of the content or of the padding. It returns how many bytes it took and the
  cached iterator.
\<close>

definition TakeHeader :: "fd \<Rightarrow> bytes \<Rightarrow> request_iterator \<Rightarrow> (nat \<times> request_iterator) iop" where
  "TakeHeader c buf iter =
     bind (get_status c) (\<lambda>rs.
       let remaining_header = FCGI_HEADER_LEN - bytes_received rs;
           header_can_be_completed = remaining_header \<le> length buf;
           number_to_write = (if header_can_be_completed then remaining_header else length buf)
       in and_then
         (set_status c (rs\<lparr>header := overwrite (header rs) (bytes_received rs) (take number_to_write buf),
                           bytes_received := bytes_received rs + number_to_write\<rparr>))
         (if header_can_be_completed
          then bind (try_catch (UpdateAfterHeaderCompletion c iter) (closure_handler c))
                 (\<lambda>iter'. ret (number_to_write, iter'))
          else ret (number_to_write, iter)))"

definition append_content :: "FcgiType \<Rightarrow> bytes \<Rightarrow> RequestData \<Rightarrow> RequestData option" where
  "append_content type bs rd =
     (if type = kFCGI_PARAMS then Some (AppendToPARAMS bs rd)
      else if type = kFCGI_STDIN then Some (AppendToSTDIN bs rd)
      else if type = kFCGI_DATA then Some (AppendToDATA bs rd)
      else None)"

definition AppendToRequest :: "fd \<Rightarrow> RecordStatus \<Rightarrow> bytes \<Rightarrow> request_iterator \<Rightarrow> request_iterator iop" where
  "AppendToRequest c rs bs iter =
     and_then InterfaceCheck
       (try_catch
          (bind (cached_or_find iter (request_id rs)) (\<lambda>local_request_iter.
             case local_request_iter of
               None \<Rightarrow> and_then (modify set_bad) (throw LogicError)
             | Some r \<Rightarrow>
                 bind (request_data r) (\<lambda>rd.
                   case append_content (record_type rs) bs rd of
                     None \<Rightarrow> and_then (modify set_bad) (throw LogicError)
                   | Some rd' \<Rightarrow> and_then (set_request_data r rd') (ret local_request_iter))))
          (\<lambda>e. bind (gets bad_interface_state_detected) (\<lambda>bad.
             and_then (unless_then bad (modify (schedule_closure c))) (throw e))))"

definition TakeContent :: "fd \<Rightarrow> bytes \<Rightarrow> request_iterator \<Rightarrow> (nat \<times> request_iterator) iop" where
  "TakeContent c buf iter =
     bind (get_status c) (\<lambda>rs.
       let remaining_content =
             unat (content_bytes_expected rs) + FCGI_HEADER_LEN - bytes_received rs;
           number_to_write = (if remaining_content \<le> length buf then remaining_content else length buf);
           bs = take number_to_write buf
       in bind
         (if \<not> invalidated_by_header rs
          then if Fcgi_id (request_id rs) = FCGI_NULL_REQUEST_ID
                  \<or> record_type rs = kFCGI_BEGIN_REQUEST \<or> record_type rs = kFCGI_ABORT_REQUEST
               then and_then
                 (set_status c (rs\<lparr>local_record_content_buffer :=
                    local_record_content_buffer rs @ bs\<rparr>)) (ret iter)
               else AppendToRequest c rs bs iter
          else ret iter)
         (\<lambda>iter'. bind (get_status c) (\<lambda>rs'.
            and_then
              (set_status c (rs'\<lparr>bytes_received := bytes_received rs' + number_to_write\<rparr>))
              (ret (number_to_write, iter')))))"

definition TakePadding :: "fd \<Rightarrow> bytes \<Rightarrow> request_iterator \<Rightarrow> (nat \<times> request_iterator) iop" where
  "TakePadding c buf iter =
     bind (get_status c) (\<lambda>rs.
       let remaining_padding = unat (content_bytes_expected rs) + FCGI_HEADER_LEN
             + unat (padding_bytes_expected rs) - bytes_received rs;
           number_to_write = (if remaining_padding \<le> length buf then remaining_padding else length buf)
       in and_then (set_status c (rs\<lparr>bytes_received := bytes_received rs + number_to_write\<rparr>))
            (ret (number_to_write, iter)))"

definition TakeSegment :: "fd \<Rightarrow> bytes \<Rightarrow> request_iterator \<Rightarrow> (nat \<times> request_iterator) iop" where
  "TakeSegment c buf iter =
     bind (get_status c) (\<lambda>rs.
       if \<not> IsHeaderComplete rs then TakeHeader c buf iter
       else if bytes_received rs < unat (content_bytes_expected rs) + FCGI_HEADER_LEN
       then TakeContent c buf iter
       else TakePadding c buf iter)"

text \<open>The second part: processing the record if it is complete.\<close>

definition FinishRecord ::
  "fd \<Rightarrow> FcgiRequestIdentifier list \<Rightarrow> request_iterator \<Rightarrow>
     (FcgiRequestIdentifier list \<times> request_iterator) iop"
where
  "FinishRecord c request_iterators iter =
     bind (get_status c) (\<lambda>rs.
       if IsRecordComplete rs
       then try_catch
         (bind (ProcessCompleteRecord c request_iterators iter)
            (\<lambda>(result_iter, request_iterators', iter').
              bind (get_status c) (\<lambda>rs'.
                and_then (set_status c (ClearRecord rs'))
                  (ret (case result_iter of
                          None \<Rightarrow> (request_iterators', iter')
                        | Some r \<Rightarrow> (request_iterators' @ [r], iter'))))))
         (closure_handler c)
       else ret (request_iterators, iter))"

text \<open>
  The loop over the received bytes: \<open>buf\<close> are the bytes not yet processed. Each turn takes at least
  one byte (shown in \<open>Record_Safety\<close>), so that the number of bytes is enough fuel.
\<close>

fun ProcessBytes ::
  "nat \<Rightarrow> fd \<Rightarrow> bytes \<Rightarrow> FcgiRequestIdentifier list \<Rightarrow> request_iterator \<Rightarrow>
     (FcgiRequestIdentifier list \<times> request_iterator) iop"
where
  "ProcessBytes fuel c [] request_iterators iter = ret (request_iterators, iter)"
| "ProcessBytes 0 c buf request_iterators iter = diverge"
| "ProcessBytes (Suc fuel) c buf request_iterators iter =
     bind (TakeSegment c buf iter) (\<lambda>(number_to_write, iter').
     bind (FinishRecord c request_iterators iter') (\<lambda>(request_iterators', iter'').
       ProcessBytes fuel c (drop number_to_write buf) request_iterators' iter''))"

text \<open>
  The outer loop. A turn that is not the last takes a full buffer from the receive queue.
\<close>

fun ReadLoop ::
  "nat \<Rightarrow> fd \<Rightarrow> FcgiRequestIdentifier list \<Rightarrow> request_iterator \<Rightarrow> FcgiRequestIdentifier list iop"
where
  "ReadLoop 0 c request_iterators iter = diverge"
| "ReadLoop (Suc fuel) c request_iterators iter =
     bind (sys_SocketRead c kBufferSize) (\<lambda>buf.
     bind (gets (\<lambda>s. errno (os s))) (\<lambda>e.
       if length buf < kBufferSize \<and> \<not> (e = EAGAIN \<or> e = EWOULDBLOCK)
       then and_then InterfaceCheck
         (and_then (modify (schedule_closure c))
           (if e = 0 \<or> e = ECONNRESET then ret [] else throw (SystemError e)))
       else bind (ProcessBytes (length buf) c buf request_iterators iter)
         (\<lambda>(request_iterators', iter').
            if length buf < kBufferSize then ret request_iterators'
            else ReadLoop fuel c request_iterators' iter')))"

definition ReadRecords :: "fd \<Rightarrow> FcgiRequestIdentifier list iop" where
  "ReadRecords c =
     bind (gets (\<lambda>s. Suc (length (queue (os s) c) div kBufferSize))) (\<lambda>fuel. ReadLoop fuel c [] None)"

end
