(* ===== verification/Record_Invariants.thy ===== *)
theory Record_Invariants
  imports Record_Status
begin

text \<open>
  The invariants of the record statuses and of the request list while \<open>ReadRecords\<close> works, the
  isolation of connections from each other, and that each elementary step keeps them.
\<close>

section \<open>Invariants of a record in progress\<close>

definition stream_complete :: "FcgiType \<Rightarrow> RequestData \<Rightarrow> bool" where
  "stream_complete type rd =
     (if type = kFCGI_PARAMS then FCGI_PARAMS_complete rd
      else if type = kFCGI_STDIN then FCGI_STDIN_complete rd else FCGI_DATA_complete rd)"

abbreviation (input) is_stream :: "FcgiType \<Rightarrow> bool" where
  "is_stream t \<equiv> t = kFCGI_PARAMS \<or> t = kFCGI_STDIN \<or> t = kFCGI_DATA"

text \<open>
  What the header of an accepted application record guarantees until the record is complete: the
  type and the length fit, a begin record is for a request that is not present, and a stream
  record is for a request whose stream is still open.
\<close>

definition accepted_ok ::
  "(FcgiRequestIdentifier, RequestData) std_map \<Rightarrow> RecordStatus \<Rightarrow> bool"
where
  "accepted_ok m rs \<longleftrightarrow>
     (record_type rs = kFCGI_BEGIN_REQUEST \<and> content_bytes_expected rs = 8
        \<and> request_id rs \<notin> keys m)
     \<or> (record_type rs = kFCGI_ABORT_REQUEST \<and> content_bytes_expected rs = 0)
     \<or> (is_stream (record_type rs)
        \<and> (\<exists>rd. om_find (request_id rs) m = Some rd \<and> \<not> stream_complete (record_type rs) rd))"

definition local_content :: "RecordStatus \<Rightarrow> bool" where
  "local_content rs \<longleftrightarrow> Fcgi_id (request_id rs) = FCGI_NULL_REQUEST_ID
     \<or> record_type rs = kFCGI_BEGIN_REQUEST \<or> record_type rs = kFCGI_ABORT_REQUEST"

definition status_ok ::
  "fd \<Rightarrow> (FcgiRequestIdentifier, RequestData) std_map \<Rightarrow> RecordStatus \<Rightarrow> bool"
where
  "status_ok c m rs \<longleftrightarrow> connection rs = c \<and> length (header rs) = FCGI_HEADER_LEN
     \<and> (\<not> IsHeaderComplete rs \<longrightarrow>
          content_bytes_expected rs = 0 \<and> padding_bytes_expected rs = 0
          \<and> \<not> invalidated_by_header rs \<and> local_record_content_buffer rs = [])
     \<and> (IsHeaderComplete rs \<longrightarrow>
          descriptor (request_id rs) = c \<and> bytes_received rs \<le> ExpectedBytes rs
          \<and> (Fcgi_id (request_id rs) = FCGI_NULL_REQUEST_ID \<longrightarrow> \<not> invalidated_by_header rs)
          \<and> (\<not> invalidated_by_header rs \<and> local_content rs \<longrightarrow>
               length (local_record_content_buffer rs)
               = min (unat (content_bytes_expected rs)) (bytes_received rs - FCGI_HEADER_LEN))
          \<and> (Fcgi_id (request_id rs) \<noteq> FCGI_NULL_REQUEST_ID \<and> \<not> invalidated_by_header rs \<longrightarrow>
               accepted_ok m rs))"

text \<open>
  The invariant of the record status of every connection that is not going to be closed: its
  record is not complete, between two calls of \<open>ReadRecords\<close>.
\<close>

definition reading_inv :: "interface \<Rightarrow> bool" where
  "reading_inv s \<longleftrightarrow> (\<forall>c rs. om_find c (record_status_map s) = Some rs \<longrightarrow>
     c \<notin> keys (application_closure_request_set s) \<longrightarrow>
     status_ok c (request_map s) rs \<and> \<not> IsRecordComplete rs)"

text \<open>The limits accepted by the constructor.\<close>

definition limits_inv :: "interface \<Rightarrow> bool" where
  "limits_inv s \<longleftrightarrow> 0 < maximum_connection_count s \<and> maximum_connection_count s \<le> int int_MAX
     \<and> 0 < maximum_request_count_per_connection s
     \<and> maximum_request_count_per_connection s \<le> int int_MAX"

text \<open>A completed request that waits to be given to the application.\<close>

definition ready :: "fd \<Rightarrow> (FcgiRequestIdentifier, RequestData) std_map \<Rightarrow> FcgiRequestIdentifier \<Rightarrow> bool"
where
  "ready c m r \<longleftrightarrow> descriptor r = c
     \<and> (\<exists>rd. om_find r m = Some rd \<and> request_status rd = kRequestPending \<and> received rd)"

text \<open>
  The list of completed requests: each such request once, and its environment is the map of its
  \<open>FCGI_PARAMS\<close> stream.
\<close>

definition environment_ok :: "RequestData \<Rightarrow> bool" where
  "environment_ok rd \<longleftrightarrow> (\<exists>ps. nv_stream (FCGI_PARAMS rd) ps
     \<and> (\<forall>n v. om_find n (environment_map rd) = Some v \<longleftrightarrow> (n, v) \<in> set ps))"

definition ready_list ::
  "fd \<Rightarrow> (FcgiRequestIdentifier, RequestData) std_map \<Rightarrow> FcgiRequestIdentifier list \<Rightarrow> bool"
where
  "ready_list c m its \<longleftrightarrow> distinct its \<and> (\<forall>r. r \<in> set its \<longleftrightarrow> ready c m r)
     \<and> (\<forall>r \<in> set its. \<forall>rd. om_find r m = Some rd \<longrightarrow> environment_ok rd)"

definition cached_ok ::
  "fd \<Rightarrow> (FcgiRequestIdentifier, RequestData) std_map \<Rightarrow> request_iterator \<Rightarrow> bool"
where
  "cached_ok c m iter \<longleftrightarrow> (\<forall>r. iter = Some r \<longrightarrow> r \<in> keys m \<and> descriptor r = c)"

text \<open>
  What an operation on connection \<open>c\<close> leaves alone: other connections and their requests, and
  which requests have been given to the application.
\<close>

definition isolated :: "fd \<Rightarrow> interface \<Rightarrow> interface \<Rightarrow> bool" where
  "isolated c s0 s \<longleftrightarrow>
     (\<forall>d. d \<noteq> c \<longrightarrow> om_find d (record_status_map s) = om_find d (record_status_map s0)
        \<and> om_find d (write_mutex_map s) = om_find d (write_mutex_map s0)
        \<and> om_find d (request_count_map s) = om_find d (request_count_map s0)
        \<and> (d \<in> keys (application_closure_request_set s)
             \<longleftrightarrow> d \<in> keys (application_closure_request_set s0))
        \<and> wire (os s) d = wire (os s0) d \<and> queue (os s) d = queue (os s0) d)
     \<and> (\<forall>r. descriptor r \<noteq> c \<longrightarrow> om_find r (request_map s) = om_find r (request_map s0))
     \<and> keys (application_closure_request_set s0) \<subseteq> keys (application_closure_request_set s)
     \<and> dummy_descriptor_set s = dummy_descriptor_set s0
     \<and> request_buffer_on_throw s = request_buffer_on_throw s0
     \<and> keys (record_status_map s) = keys (record_status_map s0)
     \<and> same_config s0 s \<and> (\<forall>r. assigned s r \<longleftrightarrow> assigned s0 r)
     \<and> open_fds (os s) = open_fds (os s0) \<and> peer_gone (os s) = peer_gone (os s0)
     \<and> length (queue (os s) c) \<le> length (queue (os s0) c)"

text \<open>
  The state while \<open>ReadRecords\<close>, called in state \<open>s0\<close>, works on connection \<open>c\<close>, with the record
  status \<open>rs\<close> and the request map \<open>m\<close>.
\<close>

definition working :: "interface \<Rightarrow> fd \<Rightarrow> interface \<Rightarrow> bool" where
  "working s0 c s \<longleftrightarrow> interface_inv s \<and> \<not> bad_interface_state_detected s \<and> framing_inv s
     \<and> limits_inv s \<and> c \<in> keys (record_status_map s) \<and> isolated c s0 s"

definition at ::
  "interface \<Rightarrow> fd \<Rightarrow> RecordStatus \<Rightarrow> (FcgiRequestIdentifier, RequestData) std_map \<Rightarrow> interface \<Rightarrow> bool"
where
  "at s0 c rs m s \<longleftrightarrow> working s0 c s \<and> om_find c (record_status_map s) = Some rs \<and> request_map s = m"

text \<open>An exception before and after the handler that schedules the connection for closure.\<close>

definition thrown :: "interface \<Rightarrow> fd \<Rightarrow> exn \<Rightarrow> interface \<Rightarrow> bool" where
  "thrown s0 c e s \<longleftrightarrow> working s0 c s \<and> (\<exists>n. e = SystemError n)"

definition failed :: "interface \<Rightarrow> fd \<Rightarrow> exn \<Rightarrow> interface \<Rightarrow> bool" where
  "failed s0 c e s \<longleftrightarrow> thrown s0 c e s \<and> c \<in> keys (application_closure_request_set s)"

lemma status_ok_cong:
  assumes "status_ok d m rs" and "\<And>r. descriptor r = d \<Longrightarrow> om_find r m' = om_find r m"
  shows "status_ok d m' rs"
proof -
  have "accepted_ok m' rs" if "IsHeaderComplete rs" "accepted_ok m rs"
  proof -
    have "descriptor (request_id rs) = d" using assms(1) that(1) by (simp add: status_ok_def)
    then have "om_find (request_id rs) m' = om_find (request_id rs) m" by (rule assms(2))
    then show ?thesis using that(2) by (auto simp: accepted_ok_def keys_iff)
  qed
  then show ?thesis using assms(1) by (auto simp: status_ok_def)
qed

lemma reading_inv_others:
  assumes "reading_inv s0" and "isolated c s0 s" and "d \<noteq> c"
      and "om_find d (record_status_map s) = Some rs"
      and "d \<notin> keys (application_closure_request_set s)"
  shows "status_ok d (request_map s) rs \<and> \<not> IsRecordComplete rs"
proof -
  have "status_ok d (request_map s0) rs \<and> \<not> IsRecordComplete rs"
    using assms by (auto simp: reading_inv_def isolated_def)
  moreover have "\<And>r. descriptor r = d \<Longrightarrow> om_find r (request_map s) = om_find r (request_map s0)"
    using assms(2,3) by (auto simp: isolated_def)
  ultimately show ?thesis using status_ok_cong by blast
qed

section \<open>Steps that keep working\<close>

lemma working_inv:
  assumes "working s0 c s"
  shows "descriptors_inv s" "counts_inv s" "requests_inv s" "statuses_inv s" "closure_inv s"
    "interface_inv s" "\<not> bad_interface_state_detected s" "framing_inv s"
    "c \<in> keys (record_status_map s)" "c \<in> keys (write_mutex_map s)" "isolated c s0 s"
    "c \<notin> keys (dummy_descriptor_set s)" "om_wf (request_map s)" "limits_inv s"
  using assms by (auto simp: working_def interface_inv_def descriptors_inv_def)

lemma working_set_status:
  assumes "working s0 c s" and "connection rs = c" and "length (header rs) = FCGI_HEADER_LEN"
  shows "working s0 c (s\<lparr>record_status_map := om_set c rs (record_status_map s)\<rparr>)"
    (is "working s0 c ?s'")
proof -
  note inv = working_inv [OF assms(1)]
  have "descriptors_inv ?s'" using inv(1) by (simp add: descriptors_inv_def)
  moreover have "counts_inv ?s'" using inv(2) by (auto simp: counts_inv_def requests_of_def)
  moreover have "requests_inv ?s'" using inv(3) by (simp add: requests_inv_def)
  moreover have "statuses_inv ?s'"
    using inv(4) assms(2,3) by (auto simp: statuses_inv_def om_find_set)
  moreover have "closure_inv ?s'" using inv(5) by (simp add: closure_inv_def)
  moreover have "isolated c s0 ?s'" using inv(11) by (simp add: isolated_def om_find_set same_config_def assigned_def)
  moreover have "framing_inv ?s'" "limits_inv ?s'"
    using inv(8,14) by (simp_all add: framing_inv_def limits_inv_def)
  ultimately show ?thesis using inv(7,9) by (simp add: working_def interface_inv_def)
qed

lemma working_schedule:
  assumes "working s0 c s"
  shows "working s0 c (schedule_closure c s)"
proof -
  note inv = working_inv [OF assms]
  let ?s' = "schedule_closure c s"
  have "descriptors_inv ?s'" using inv(1) by (simp add: descriptors_inv_def schedule_closure_def om_wf_insert)
  moreover have "counts_inv ?s'"
    using inv(2) by (auto simp: counts_inv_def requests_of_def schedule_closure_def)
  moreover have "requests_inv ?s'" "statuses_inv ?s'" "framing_inv ?s'" "limits_inv ?s'"
    using inv(3,4,8,14)
    by (simp_all add: requests_inv_def statuses_inv_def framing_inv_def limits_inv_def
          schedule_closure_def)
  moreover have "closure_inv ?s'" using inv(5,9) by (auto simp: closure_inv_def schedule_closure_def)
  moreover have "isolated c s0 ?s'" using inv(11) by (auto simp: isolated_def schedule_closure_def same_config_def assigned_def)
  ultimately show ?thesis using inv(7,9)
    by (simp add: working_def interface_inv_def schedule_closure_def)
qed

lemma working_set_request:
  assumes "working s0 c s" and "r \<in> keys (request_map s)" and "descriptor r = c"
      and "request_ok False rd'"
      and "\<And>rd. om_find r (request_map s) = Some rd \<Longrightarrow> request_status rd' = request_status rd"
  shows "working s0 c (s\<lparr>request_map := om_set r rd' (request_map s)\<rparr>)" (is "working s0 c ?s'")
proof -
  note inv = working_inv [OF assms(1)]
  have "descriptors_inv ?s'" using inv(1) by (simp add: descriptors_inv_def)
  moreover have "counts_inv ?s'" using inv(2) by (rule counts_inv_same_keys) simp_all
  moreover have "requests_inv ?s'"
    using inv(3,12) assms(2-4) by (auto simp: requests_inv_def om_find_set)
  moreover have "statuses_inv ?s'" "closure_inv ?s'" "framing_inv ?s'" "limits_inv ?s'"
    using inv(4,5,8,14)
    by (simp_all add: statuses_inv_def closure_inv_def framing_inv_def limits_inv_def)
  moreover have "isolated c s0 ?s'"
  proof -
    obtain rd where "om_find r (request_map s) = Some rd" using assms(2) by (auto simp: keys_Some)
    then have "assigned ?s' r' \<longleftrightarrow> assigned s r'" for r'
      using assms(5) by (auto simp: assigned_def om_find_set)
    then show ?thesis using inv(11) assms(3) by (auto simp: isolated_def om_find_set same_config_def)
  qed
  ultimately show ?thesis using inv(7,9) by (simp add: working_def interface_inv_def)
qed

lemma working_books:
  assumes "working s0 c s"
      and "interface_inv (s\<lparr>request_count_map := counts, request_map := reqs\<rparr>)"
      and "\<And>d. d \<noteq> c \<Longrightarrow> om_find d counts = om_find d (request_count_map s)"
      and "\<And>r. descriptor r \<noteq> c \<Longrightarrow> om_find r reqs = om_find r (request_map s)"
      and "\<And>r. assigned (s\<lparr>request_count_map := counts, request_map := reqs\<rparr>) r \<longleftrightarrow> assigned s r"
  shows "working s0 c (s\<lparr>request_count_map := counts, request_map := reqs\<rparr>)"
proof -
  note inv = working_inv [OF assms(1)]
  have "isolated c s0 (s\<lparr>request_count_map := counts, request_map := reqs\<rparr>)"
    using inv(11) assms(3-5) by (simp add: isolated_def same_config_def)
  then show ?thesis using assms(2) inv(7,8,9,14)
    by (simp add: working_def framing_inv_def limits_inv_def)
qed

lemma working_add:
  assumes "working s0 c s" and "r \<notin> keys (request_map s)" and "descriptor r = c" and "Fcgi_id r \<noteq> 0"
  shows "\<exists>s'. AddRequest r ro cl s = (Ok (Some r), s') \<and> working s0 c s'
     \<and> record_status_map s' = record_status_map s
     \<and> request_map s' = om_insert r (RequestData_new ro cl) (request_map s)"
proof -
  note inv = working_inv [OF assms(1)]
  have "descriptor r \<in> keys (record_status_map s)" using inv(9) assms(3) by simp
  from AddRequest_adds [OF inv(6,7) this assms(4,2), of ro cl]
  obtain counts reqs where a: "AddRequest r ro cl s
            = (Ok (Some r), s\<lparr>request_count_map := counts, request_map := reqs\<rparr>)"
      "interface_inv (s\<lparr>request_count_map := counts, request_map := reqs\<rparr>)"
      "\<forall>r'. om_find r' reqs = (if r' = r then Some (RequestData_new ro cl)
                                  else om_find r' (request_map s))"
      "\<forall>d. om_find d counts = (if d = descriptor r
                 then map_option (\<lambda>n. n + 1) (om_find d (request_count_map s))
                 else om_find d (request_count_map s))" by blast
  have "working s0 c (s\<lparr>request_count_map := counts, request_map := reqs\<rparr>)"
    by (rule working_books [OF assms(1) a(2)])
       (use a(3,4) assms(2,3) in \<open>auto simp: assigned_def RequestData_new_def keys_iff\<close>)
  moreover have "reqs = om_insert r (RequestData_new ro cl) (request_map s)"
    using a(1) by (auto simp: AddRequest_run split: option.splits if_splits dest!: arg_cong [where f = request_map])
  ultimately show ?thesis using a(1) by simp
qed

lemma working_remove:
  assumes "working s0 c s" and "r \<in> keys (request_map s)" and "descriptor r = c"
      and "\<not> assigned s r"
  shows "\<exists>s'. RemoveRequest_iter (Some r) s = (Ok (), s') \<and> working s0 c s'
     \<and> record_status_map s' = record_status_map s
     \<and> request_map s' = om_erase r (request_map s)"
proof -
  note inv = working_inv [OF assms(1)]
  from RemoveRequestHelper_removes [OF inv(6,7) assms(2)]
  obtain counts reqs where a: "RemoveRequestHelper (Some r) s
            = (Ok (), s\<lparr>request_count_map := counts, request_map := reqs\<rparr>)"
      "interface_inv (s\<lparr>request_count_map := counts, request_map := reqs\<rparr>)"
      "\<forall>r'. om_find r' reqs = (if r' = r then None else om_find r' (request_map s))"
      "\<forall>d. om_find d counts = (if d = descriptor r
                 then map_option (\<lambda>n. n - 1) (om_find d (request_count_map s))
                 else om_find d (request_count_map s))" by blast
  have "working s0 c (s\<lparr>request_count_map := counts, request_map := reqs\<rparr>)"
    by (rule working_books [OF assms(1) a(2)]) (use a(3,4) assms(3,4) in \<open>auto simp: assigned_def\<close>)
  moreover have "reqs = om_erase r (request_map s)"
    using a(1) by (auto simp: RemoveRequestHelper_run split: option.splits if_splits dest!: arg_cong [where f = request_map])
  ultimately show ?thesis using a(1) by (simp add: RemoveRequest_iter_def)
qed

lemma working_send:
  assumes "working s0 c s" and "send_frame c s s'" and "framing_inv s'"
  shows "working s0 c s' \<and> record_status_map s' = record_status_map s \<and> request_map s' = request_map s"
proof -
  note inv = working_inv [OF assms(1)]
  have "interface_inv s' \<and> \<not> bad_interface_state_detected s'"
    by (rule send_frame_inv [OF inv(6,7) assms(2) inv(10)])
  moreover obtain w cl k where
      s': "s' = s\<lparr>write_mutex_map := w, application_closure_request_set := cl, os := k\<rparr>"
      and w: "\<forall>d. d \<noteq> c \<longrightarrow> om_find d w = om_find d (write_mutex_map s) \<and> wire k d = wire (os s) d"
      and cl: "keys (application_closure_request_set s) \<subseteq> keys cl"
        "keys cl \<subseteq> insert c (keys (application_closure_request_set s))"
      and k: "open_fds k = open_fds (os s)" "queue k = queue (os s)" "peer_gone k = peer_gone (os s)"
    using assms(2) unfolding send_frame_def by blast
  have "isolated c s0 s'" using inv(11) w cl k by (auto simp: s' isolated_def same_config_def assigned_def)
  ultimately show ?thesis using assms(3) inv(9,14) by (simp add: working_def s' limits_inv_def)
qed

end
