(* ===== verification/Record_Rules.thy ===== *)
theory Record_Rules
  imports Record_Invariants
begin

text \<open>
  Rules of the Hoare logic for the elementary operations of \<open>RecordStatus\<close>, and facts about the list
  of completed requests.
\<close>

section \<open>Rules for the operations\<close>

lemma at_working: "at s0 c rs m s \<Longrightarrow> working s0 c s"
  by (simp add: at_def)

lemma step_get_status [step]:
  "hoare (at s0 c rs m) (f rs) Q E \<Longrightarrow> hoare (at s0 c rs m) (bind (get_status c) f) Q E"
  by (simp add: hoare_def get_status_def at_def)

lemma step_set_status [step]:
  assumes "connection rs' = c" "length (header rs') = FCGI_HEADER_LEN"
      and "hoare (at s0 c rs' m) k Q E"
  shows "hoare (at s0 c rs m) (and_then (set_status c rs') k) Q E"
proof (rule hoare_first [where P' = "\<lambda>_. at s0 c rs' m"])
  fix s assume "at s0 c rs m s"
  then show "\<exists>x s'. set_status c rs' s = (Ok x, s') \<and> at s0 c rs' m s'"
    using working_set_status [OF _ assms(1,2)] by (simp add: at_def set_status_def om_find_set keys_Some)
qed (rule assms(3))

lemma step_check [step]:
  "hoare (at s0 c rs m) k Q E \<Longrightarrow> hoare (at s0 c rs m) (and_then InterfaceCheck k) Q E"
  by (rule hoare_first [where P' = "\<lambda>_. at s0 c rs m"])
     (auto simp: InterfaceCheck_def at_def working_def)

lemma step_request_data:
  assumes "om_find r m = Some rd" and "hoare (at s0 c rs m) (f rd) Q E"
  shows "hoare (at s0 c rs m) (bind (request_data r) f) Q E"
  using assms by (simp add: hoare_def request_data_def at_def)

lemma step_set_request [step]:
  assumes "r \<in> keys m" "descriptor r = c" "request_ok False rd'"
      and "\<And>rd. om_find r m = Some rd \<Longrightarrow> request_status rd' = request_status rd"
      and "hoare (at s0 c rs (om_set r rd' m)) k Q E"
  shows "hoare (at s0 c rs m) (and_then (set_request_data r rd') k) Q E"
proof (rule hoare_first [where P' = "\<lambda>_. at s0 c rs (om_set r rd' m)"])
  fix s assume "at s0 c rs m s"
  then show "\<exists>x s'. set_request_data r rd' s = (Ok x, s') \<and> at s0 c rs (om_set r rd' m) s'"
    using working_set_request [OF _ _ assms(2,3)] assms(1,4) by (auto simp: at_def set_request_data_def)
qed (rule assms(5))

lemma step_cached_or_find:
  assumes "cached_ok c m iter" "descriptor r = c"
      and "hoare (at s0 c rs m) (f (if r \<in> keys m then Some r else None)) Q E"
  shows "hoare (at s0 c rs m) (bind (cached_or_find iter r) f) Q E"
proof (rule hoare_first [where P' = "\<lambda>x s. x = (if r \<in> keys m then Some r else None) \<and> at s0 c rs m s"])
  fix s assume s: "at s0 c rs m s"
  show "\<exists>x s'. cached_or_find iter r s = (Ok x, s')
      \<and> x = (if r \<in> keys m then Some r else None) \<and> at s0 c rs m s'"
  proof (cases iter)
    case None
    then show ?thesis using s by (simp add: cached_or_find_def find_request_def om_mem_keys at_def)
  next
    case (Some k)
    then have k: "k \<in> keys m" "descriptor k = c" using assms(1) by (auto simp: cached_ok_def)
    have "k = r" if "Fcgi_id k = Fcgi_id r" using that k(2) assms(2) by (cases k, cases r) simp
    then show ?thesis using s Some k(1)
      by (auto simp: cached_or_find_def find_request_def om_mem_keys request_data_def at_def
            keys_Some)
  qed
qed (use assms(3) in \<open>auto simp: hoare_def\<close>)

lemma step_cached_present:
  "cached_ok c m iter \<Longrightarrow> descriptor r = c \<Longrightarrow> r \<in> keys m \<Longrightarrow> hoare (at s0 c rs m) (f (Some r)) Q E \<Longrightarrow>
     hoare (at s0 c rs m) (bind (cached_or_find iter r) f) Q E"
  by (rule step_cached_or_find) simp_all

lemma step_cached_absent:
  "cached_ok c m iter \<Longrightarrow> descriptor r = c \<Longrightarrow> r \<notin> keys m \<Longrightarrow> hoare (at s0 c rs m) (f None) Q E \<Longrightarrow>
     hoare (at s0 c rs m) (bind (cached_or_find iter r) f) Q E"
  by (rule step_cached_or_find) simp_all

lemma step_schedule [step]:
  assumes "hoare (at s0 c rs m) k Q E"
  shows "hoare (at s0 c rs m) (and_then (modify (schedule_closure c)) k) Q E"
proof (rule hoare_first [where P' = "\<lambda>_. at s0 c rs m"])
  fix s assume "at s0 c rs m s"
  then show "\<exists>x s'. modify (schedule_closure c) s = (Ok x, s') \<and> at s0 c rs m s'"
    using working_schedule by (simp add: at_def) (simp add: schedule_closure_def)
qed (rule assms)

lemma step_when_schedule [step]:
  "hoare (at s0 c rs m) k Q E \<Longrightarrow>
     hoare (at s0 c rs m) (and_then (when_then b (modify (schedule_closure c))) k) Q E"
  by (cases b) (simp_all add: when_then_def step_schedule)

lemma step_add [step]:
  assumes "r \<notin> keys m" "descriptor r = c" "Fcgi_id r \<noteq> 0"
      and "hoare (at s0 c rs (om_insert r (RequestData_new ro cl) m)) (f (Some r)) Q E"
  shows "hoare (at s0 c rs m) (bind (AddRequest r ro cl) f) Q E"
proof (rule hoare_first [where P' = "\<lambda>x s. x = Some r \<and> at s0 c rs (om_insert r (RequestData_new ro cl) m) s"])
  fix s assume "at s0 c rs m s"
  then show "\<exists>x s'. AddRequest r ro cl s = (Ok x, s') \<and> x = Some r
      \<and> at s0 c rs (om_insert r (RequestData_new ro cl) m) s'"
    using working_add [OF _ _ assms(2,3), of s0 s ro cl] assms(1) by (auto simp: at_def)
qed (use assms(4) in \<open>auto simp: hoare_def\<close>)

lemma step_remove [step]:
  assumes "r \<in> keys m" "descriptor r = c"
      and "\<And>rd. om_find r m = Some rd \<Longrightarrow> request_status rd \<noteq> kRequestAssigned"
      and "hoare (at s0 c rs (om_erase r m)) k Q E"
  shows "hoare (at s0 c rs m) (and_then (RemoveRequest_iter (Some r)) k) Q E"
proof (rule hoare_first [where P' = "\<lambda>_. at s0 c rs (om_erase r m)"])
  fix s assume "at s0 c rs m s"
  then show "\<exists>x s'. RemoveRequest_iter (Some r) s = (Ok x, s') \<and> at s0 c rs (om_erase r m) s'"
    using working_remove [OF _ _ assms(2), of s0 s] assms(1,3) by (auto simp: at_def assigned_def)
qed (rule assms(4))

lemma step_send_record:
  assumes "record_with t i content bs" and "\<And>b. hoare (at s0 c rs m) (f b) Q (thrown s0 c)"
  shows "hoare (at s0 c rs m) (bind (SendRecord c bs (int (length bs))) f) Q (thrown s0 c)"
proof (rule hoare_bind [OF assms(2)], rule hoareI)
  fix s assume s: "at s0 c rs m s"
  then have w: "working s0 c s" by (rule at_working)
  note inv = working_inv [OF w]
  obtain out s' where o: "SendRecord c bs (int (length bs)) s = (out, s')"
    by (cases "SendRecord c bs (int (length bs)) s")
  show "case SendRecord c bs (int (length bs)) s of
       (Ok x, s') \<Rightarrow> at s0 c rs m s' | (Throw e, s') \<Rightarrow> thrown s0 c e s' | (Blocked, s') \<Rightarrow> True
     | (Terminate, s') \<Rightarrow> False | (Diverge, s') \<Rightarrow> False | (Undefined, s') \<Rightarrow> False"
    using SendRecord_frame [OF inv(6,7,8,10) assms(1)] working_send [OF w, of s'] s
    by (cases out) (auto simp: o at_def thrown_def)
qed

lemma step_send_end [step]:
  assumes "\<And>b. hoare (at s0 c rs m) (f b) Q (thrown s0 c)"
  shows "hoare (at s0 c rs m) (bind (SendFcgiEndRequest c r ps a) f) Q (thrown s0 c)"
proof -
  have "record_with kFCGI_END_REQUEST (Fcgi_id r) (app_status_bytes a @ [ps, 0, 0, 0])
      (end_request_record r ps a)"
    by (simp add: record_with_def end_request_record_eq) (simp add: app_status_bytes_def)
  then show ?thesis
    unfolding SendFcgiEndRequest_def Let_def by (rule step_send_record) (rule assms)
qed

lemma step_send_unknown [step]:
  assumes "\<And>b. hoare (at s0 c rs m) (f b) Q (thrown s0 c)"
  shows "hoare (at s0 c rs m) (bind (SendFcgiUnknownType c t) f) Q (thrown s0 c)"
proof -
  have "record_with kFCGI_UNKNOWN_TYPE 0 [t, 0, 0, 0, 0, 0, 0, 0] (unknown_type_record t)"
    by (simp add: record_with_def unknown_type_record_eq)
  then show ?thesis
    unfolding SendFcgiUnknownType_def Let_def by (rule step_send_record) (rule assms)
qed

lemma step_send_values [step]:
  assumes "n = length query" and "\<And>b. hoare (at s0 c rs m) (f b) Q (thrown s0 c)"
  shows "hoare (at s0 c rs m) (bind (SendGetValuesResult c (Some query) n) f) Q (thrown s0 c)"
proof (rule hoare_know)
  fix s assume s: "at s0 c rs m s"
  then have "0 \<le> maximum_connection_count s" "maximum_connection_count s \<le> int int_MAX"
      "0 \<le> maximum_request_count_per_connection s"
      "maximum_request_count_per_connection s \<le> int int_MAX"
    by (simp_all add: at_def working_def limits_inv_def)
  from get_values_reply [OF this, of query] obtain content bs where
      "SendGetValuesResult c (Some query) (length query) s = SendRecord c bs (int (length bs)) s"
      and r: "record_with kFCGI_GET_VALUES_RESULT FCGI_NULL_REQUEST_ID content bs"
    by (elim exE conjE) (metis SendGetValuesResult_run)
  then have "bind (SendGetValuesResult c (Some query) n) f s
      = bind (SendRecord c bs (int (length bs))) f s"
    by (simp add: bind_def assms(1))
  then show "hoare (\<lambda>t. t = s) (bind (SendGetValuesResult c (Some query) n) f) Q (thrown s0 c)"
    using step_send_record [OF r assms(2)] s by (simp add: hoare_def)
qed

text \<open>The handlers.\<close>

lemma step_handler: "hoare (thrown s0 c e) (closure_handler c e) Q (failed s0 c)"
proof (rule hoareI)
  fix s assume s: "thrown s0 c e s"
  then have "working s0 c (schedule_closure c s)" "\<not> bad_interface_state_detected s"
    using working_schedule by (auto simp: thrown_def working_def)
  moreover have "c \<in> keys (application_closure_request_set (schedule_closure c s))"
    by (simp add: schedule_closure_def)
  ultimately show "case closure_handler c e s of
       (Ok x, s') \<Rightarrow> Q x s' | (Throw e, s') \<Rightarrow> failed s0 c e s' | (Blocked, s') \<Rightarrow> True
     | (Terminate, s') \<Rightarrow> False | (Diverge, s') \<Rightarrow> False | (Undefined, s') \<Rightarrow> False"
    using s by (simp add: closure_handler_def InterfaceCheck_def failed_def thrown_def)
qed

lemma step_try: "hoare P m Q (thrown s0 c) \<Longrightarrow> hoare P (try_catch m (closure_handler c)) Q (failed s0 c)"
  by (rule hoare_try [OF _ step_handler])

lemma failed_thrown: "hoare P m Q (failed s0 c) \<Longrightarrow> hoare P m Q (thrown s0 c)"
  by (erule hoare_weaken) (simp_all add: failed_def)

section \<open>Requests of a connection\<close>

definition map_ok :: "fd \<Rightarrow> (FcgiRequestIdentifier, RequestData) std_map \<Rightarrow> bool" where
  "map_ok c m \<longleftrightarrow> om_wf m
     \<and> (\<forall>r rd. descriptor r = c \<longrightarrow> om_find r m = Some rd \<longrightarrow> request_ok False rd)"

lemma at_map_ok: "at s0 c rs m s \<Longrightarrow> map_ok c m"
  using working_inv(3,12,13) [of s0 c s]
  by (fastforce simp: at_def map_ok_def requests_inv_def)

lemma step_map_ok: "(map_ok c m \<Longrightarrow> hoare (at s0 c rs m) k Q E) \<Longrightarrow> hoare (at s0 c rs m) k Q E"
  by (rule hoare_facts) (simp add: at_map_ok)

lemma step_count [step]:
  assumes "\<And>n. hoare (at s0 c rs m) (f (Some n)) Q E"
  shows "hoare (at s0 c rs m) (bind (gets (\<lambda>s. om_find c (request_count_map s))) f) Q E"
proof (rule hoare_first [where P' = "\<lambda>x s. (\<exists>n. x = Some n) \<and> at s0 c rs m s"])
  fix s assume s: "at s0 c rs m s"
  then have "c \<in> keys (request_count_map s)"
    using working_inv(2,9) [of s0 c s] by (auto simp: at_def counts_inv_def)
  then show "\<exists>x s'. gets (\<lambda>s. om_find c (request_count_map s)) s = (Ok x, s')
      \<and> (\<exists>n. x = Some n) \<and> at s0 c rs m s'"
    using s by (simp add: keys_Some)
next
  fix x
  show "hoare (\<lambda>s. (\<exists>n. x = Some n) \<and> at s0 c rs m s) (f x) Q E"
    using assms by (cases x) (simp_all add: hoare_def)
qed

lemma step_app_status [step]:
  "(\<And>x. hoare P (f x) Q E) \<Longrightarrow> hoare P (bind (gets app_status_on_abort) f) Q E"
  by (simp add: hoare_def)

lemma ready_list_cong:
  assumes "ready_list c m its"
      and "\<And>r. descriptor r = c \<Longrightarrow> r \<in> set its \<Longrightarrow> om_find r m' = om_find r m"
      and "\<And>r. descriptor r = c \<Longrightarrow> r \<notin> set its \<Longrightarrow> \<not> ready c m' r"
  shows "ready_list c m' its"
proof -
  have c: "descriptor r = c" if "r \<in> set its" for r
    using assms(1) that by (auto simp: ready_list_def ready_def)
  have "ready c m' r \<longleftrightarrow> r \<in> set its" for r
  proof (cases "r \<in> set its")
    case True
    then show ?thesis using assms(1) assms(2) [OF c [OF True] True]
      by (simp add: ready_list_def ready_def)
  qed (use assms(3) in \<open>auto simp: ready_def\<close>)
  then show ?thesis using assms(1) assms(2) c by (simp add: ready_list_def)
qed

lemma ready_list_add:
  assumes "ready_list c m its" and "om_wf m" and "r \<notin> keys m"
  shows "ready_list c (om_insert r (RequestData_new ro cl) m) its"
  using assms(1)
proof (rule ready_list_cong)
  fix r' assume "r' \<in> set its"
  then have "r' \<in> keys m" using assms(1) by (auto simp: ready_list_def ready_def keys_Some)
  then show "om_find r' (om_insert r (RequestData_new ro cl) m) = om_find r' m"
    using assms(2,3) by (auto simp: om_find_insert)
next
  fix r' assume r': "descriptor r' = c" "r' \<notin> set its"
  then have "\<not> ready c m r'" using assms(1) by (simp add: ready_list_def)
  then show "\<not> ready c (om_insert r (RequestData_new ro cl) m) r'"
    using assms(2,3) by (auto simp: ready_def om_find_insert om_find_None_keys [symmetric]
          RequestData_new_def received_def split: if_splits)
qed

text \<open>A change of a request that is not in the list and does not become completed.\<close>

lemma ready_list_set:
  assumes "ready_list c m its" and "r \<notin> set its"
      and "request_status rd = kRequestAssigned \<or> \<not> received rd"
  shows "ready_list c (om_set r rd m) its"
  using assms(1)
proof (rule ready_list_cong)
  fix r' assume "r' \<in> set its"
  then show "om_find r' (om_set r rd m) = om_find r' m" using assms(2) by (auto simp: om_find_set)
next
  fix r' assume "r' \<notin> set its"
  then have "\<not> ready c m r'" using assms(1) by (simp add: ready_list_def)
  then show "\<not> ready c (om_set r rd m) r'"
    using assms(3) by (auto simp: ready_def om_find_set split: if_splits)
qed

lemma ready_list_erase:
  assumes "ready_list c m its" and "om_wf m"
  shows "ready_list c (om_erase r m) (remove1 r its)"
  using assms
  by (auto simp: ready_list_def ready_def om_find_erase set_remove1_eq split: if_splits)

lemma ready_list_complete:
  assumes "ready_list c m its" and "r \<notin> set its" and "r \<in> keys m" and "descriptor r = c"
      and "request_status rd = kRequestPending" and "received rd" and "environment_ok rd"
  shows "ready_list c (om_set r rd m) (its @ [r])"
  using assms by (auto simp: ready_list_def ready_def om_find_set keys_Some split: if_splits)

lemma not_ready: "ready_list c m its \<Longrightarrow> om_find r m = Some rd \<Longrightarrow>
    request_status rd = kRequestAssigned \<or> \<not> received rd \<Longrightarrow> r \<notin> set its"
  by (auto simp: ready_list_def ready_def)

lemma cached_ok_mono:
  "cached_ok c m iter \<Longrightarrow> keys m \<subseteq> keys m' \<Longrightarrow> cached_ok c m' iter"
  by (auto simp: cached_ok_def)

lemma cached_ok_erase:
  "cached_ok c m iter \<Longrightarrow> om_wf m \<Longrightarrow> iter \<noteq> Some r \<Longrightarrow> cached_ok c (om_erase r m) iter"
  by (auto simp: cached_ok_def keys_erase)

lemma cached_ok_None [simp]: "cached_ok c m None"
  by (simp add: cached_ok_def)

lemma om_set_twice [simp]: "om_set k v (om_set k w m) = om_set k v m"
  by (induction k w m rule: om_set.induct) simp_all

lemma om_erase_set [simp]: "om_erase k (om_set k v m) = om_erase k m"
  by (induction k v m rule: om_set.induct) simp_all

end
