(* ===== verification/Record_Safety.thy ===== *)
theory Record_Safety
  imports Record_Rules
begin

text \<open>
  The safety of \<open>ReadRecords\<close>: whatever bytes arrive in whatever pieces and whatever the system
  calls answer, the invariants of the interface are kept, no invalid iterator is used, the other
  connections are not affected, and every exception leaves the connection scheduled for closure.
\<close>

section \<open>The methods\<close>

lemma step_found:
  assumes "hoare (at s0 c rs m) (f (case it of None \<Rightarrow> None | Some r \<Rightarrow> om_find r m)) Q E"
  shows "hoare (at s0 c rs m)
     (bind (gets (\<lambda>s. case it of None \<Rightarrow> None | Some r \<Rightarrow> om_find r (request_map s))) f) Q E"
  using assms by (auto simp: hoare_def at_def)

lemma decode_header_fields [simp]:
  "connection (decode_header rs) = connection rs" "header (decode_header rs) = header rs"
  "bytes_received (decode_header rs) = bytes_received rs"
  "local_record_content_buffer (decode_header rs) = local_record_content_buffer rs"
  "invalidated_by_header (decode_header rs) = invalidated_by_header rs"
  "descriptor (request_id (decode_header rs)) = connection rs"
  by (simp_all add: decode_header_def)

lemma accepted_after_header:
  assumes "\<not> invalid_length rs" and "\<not> invalid_for_request (record_type rs) (om_find (request_id rs) m)"
  shows "accepted_ok m rs"
  using assms by (auto simp: invalid_length_def invalid_for_request_def accepted_ok_def
      stream_complete_def om_find_None_keys split: if_splits option.splits)

lemma header_step:
  assumes "connection rs0 = c" "length (header rs0) = FCGI_HEADER_LEN"
      and "bytes_received rs0 = FCGI_HEADER_LEN" "local_record_content_buffer rs0 = []"
      and "\<not> invalidated_by_header rs0" and "cached_ok c m iter"
  shows "hoare (at s0 c rs0 m) (UpdateAfterHeaderCompletion c iter)
     (\<lambda>iter' s. \<exists>rs. at s0 c rs m s \<and> status_ok c m rs \<and> cached_ok c m iter'
        \<and> bytes_received rs = FCGI_HEADER_LEN) E"
proof -
  let ?rs = "decode_header rs0"
  let ?rs1 = "?rs\<lparr>invalidated_by_header := invalid_length ?rs\<rparr>"
  let ?found = "om_find (request_id ?rs) m"
  have ok: "status_ok c m (?rs\<lparr>invalidated_by_header := b\<rparr>)"
    if "if Fcgi_id (request_id ?rs) = FCGI_NULL_REQUEST_ID then \<not> b else \<not> b \<longrightarrow> accepted_ok m ?rs" for b
  proof -
    have "accepted_ok m (?rs\<lparr>invalidated_by_header := b\<rparr>) = accepted_ok m ?rs"
      by (simp add: accepted_ok_def)
    then show ?thesis using that assms
      by (auto simp: status_ok_def IsHeaderComplete_def ExpectedBytes_def split: if_splits)
  qed
  have same: "?rs\<lparr>invalidated_by_header := False\<rparr> = ?rs" using assms(5) by (cases rs0) (simp add: decode_header_def)
  show ?thesis
    unfolding UpdateAfterHeaderCompletion_def Let_def
  proof (intro step step_found step_cached_or_find)
    assume "Fcgi_id (request_id ?rs) = FCGI_NULL_REQUEST_ID"
    then show "\<And>s. at s0 c ?rs m s \<Longrightarrow> \<exists>rs. at s0 c rs m s \<and> status_ok c m rs \<and> cached_ok c m iter
        \<and> bytes_received rs = FCGI_HEADER_LEN"
      using ok [of False] assms(3,6) by (auto simp: same)
  next
    assume "Fcgi_id (request_id ?rs) \<noteq> FCGI_NULL_REQUEST_ID" "invalidated_by_header ?rs1"
    then show "\<And>s. at s0 c ?rs1 m s \<Longrightarrow> \<exists>rs. at s0 c rs m s \<and> status_ok c m rs \<and> cached_ok c m iter
        \<and> bytes_received rs = FCGI_HEADER_LEN"
      using ok [of True] assms(3,6) by (intro exI [of _ ?rs1]) simp
  next
    fix s
    let ?found = "if request_id ?rs1 \<in> keys m then Some (request_id ?rs1) else None"
    let ?rs2 = "?rs1\<lparr>invalidated_by_header := invalid_for_request (record_type ?rs1)
        (case ?found of None \<Rightarrow> None | Some r \<Rightarrow> om_find r m)\<rparr>"
    assume "\<not> invalidated_by_header ?rs1" "at s0 c ?rs2 m s"
        "Fcgi_id (request_id ?rs) \<noteq> FCGI_NULL_REQUEST_ID"
    then show "\<exists>rs. at s0 c rs m s \<and> status_ok c m rs
        \<and> cached_ok c m (if ?found \<noteq> None then ?found else iter) \<and> bytes_received rs = FCGI_HEADER_LEN"
      using ok [of "invalid_for_request (record_type ?rs) (om_find (request_id ?rs) m)"]
        accepted_after_header [of ?rs m] assms(1,3,6)
      by (intro exI [of _ ?rs2], cases "request_id ?rs \<in> keys m")
         (simp_all add: cached_ok_def keys_iff)
  qed (simp_all add: assms)
qed

text \<open>
  After a record has been processed the list of completed requests, with the one returned, and the
  cached iterator are valid.
\<close>

definition processed ::
  "interface \<Rightarrow> fd \<Rightarrow> RecordStatus \<Rightarrow> process_result \<Rightarrow> interface \<Rightarrow> bool"
where
  "processed s0 c rs = (\<lambda>(result, its, iter) s. \<exists>m. at s0 c rs m s
     \<and> ready_list c m (its @ (case result of None \<Rightarrow> [] | Some r \<Rightarrow> [r])) \<and> cached_ok c m iter)"

lemma processed_same:
  "ready_list c m its \<Longrightarrow> cached_ok c m iter \<Longrightarrow> at s0 c rs m s \<Longrightarrow>
     processed s0 c rs (None, its, iter) s"
  by (auto simp: processed_def)

lemma step_vector [step]:
  "i < length buffer \<Longrightarrow> hoare P (f (buffer ! i)) Q E \<Longrightarrow> hoare P (bind (vector_at buffer i) f) Q E"
  by (simp add: vector_at_def)

lemma management_step:
  assumes "ready_list c m its" and "cached_ok c m iter"
  shows "hoare (at s0 c rs m)
     (and_then (ProcessManagementRecord c rs) (ret (None, its, iter)))
     (processed s0 c rs) (thrown s0 c)"
  unfolding ProcessManagementRecord_def if_distrib [of "\<lambda>m. and_then m _"] op_simps
  by (intro step) (simp_all add: processed_same [OF assms])

lemma begin_step:
  assumes "ready_list c m its" and "cached_ok c m iter"
      and "request_id rs \<notin> keys m" and "descriptor (request_id rs) = c"
      and "Fcgi_id (request_id rs) \<noteq> 0" and "length (local_record_content_buffer rs) = 8"
  shows "hoare (at s0 c rs m) (ProcessBeginRequest c rs its iter) (processed s0 c rs) (thrown s0 c)"
proof (rule step_map_ok)
  assume m: "map_ok c m"
  have added: "processed s0 c rs (None, its, Some (request_id rs)) s"
    if "at s0 c rs (om_insert (request_id rs) (RequestData_new ro cl) m) s" for s ro cl
    using that m assms ready_list_add [OF assms(1) _ assms(3)]
    by (auto simp: processed_def map_ok_def cached_ok_def)
  show ?thesis
    unfolding ProcessBeginRequest_def Let_def
    using processed_same [OF assms(1,2)] added m
    by (intro step) (simp_all add: assms)
qed


lemma set_abort_status: "request_status (set_abort rd) = request_status rd"
  by (simp add: set_abort_def)

lemma abort_step:
  assumes its: "ready_list c m its" and iter: "cached_ok c m iter"
      and r: "descriptor (request_id rs) = c"
  shows "hoare (at s0 c rs m) (ProcessAbortRequest c rs its iter) (processed s0 c rs) (thrown s0 c)"
proof (rule step_map_ok)
  assume m: "map_ok c m"
  let ?r = "request_id rs"
  note same = processed_same [OF its iter]
  show ?thesis
  proof (cases "?r \<in> keys m")
    case False
    then show ?thesis unfolding ProcessAbortRequest_def Let_def
      using same by (intro step_cached_absent step) (simp_all add: iter r)
  next
    case True
    then obtain rd where rd: "om_find ?r m = Some rd" by (auto simp: keys_Some)
    have ok: "request_ok False rd" using m rd r by (auto simp: map_ok_def)
    define iter' where "iter' = (if Some ?r = iter then None else iter)"
    have iter': "cached_ok c m iter'" "iter' \<noteq> Some ?r" using iter by (auto simp: iter'_def)
    have aborted: "processed s0 c rs (None, its, iter') s"
      if "at s0 c rs (om_set ?r (set_abort rd) m) s" "request_status rd = kRequestAssigned" for s
    proof -
      have "ready_list c (om_set ?r (set_abort rd) m) its"
        using that(2) not_ready [OF its rd] by (intro ready_list_set its) (simp_all add: set_abort_def)
      then show ?thesis using that(1) cached_ok_mono [OF iter'(1), of "om_set ?r (set_abort rd) m"]
        by (auto simp: processed_def)
    qed
    have removed: "processed s0 c rs (None, its', iter') s"
      if "at s0 c rs (om_erase ?r m) s" "its' = remove1 ?r its" for s its'
      using that ready_list_erase [OF its, of ?r] cached_ok_erase [OF iter'(1) _ iter'(2)] m
      by (auto simp: processed_def map_ok_def)
    have its': "(if FCGI_STDIN_complete rd \<and> FCGI_DATA_complete rd \<and> FCGI_PARAMS_complete rd
        then remove1 ?r its else its) = remove1 ?r its"
      using not_ready [OF its rd] by (auto simp: received_def remove1_idem)
    have member: "?r \<in> set its" if "request_status rd \<noteq> kRequestAssigned" "FCGI_STDIN_complete rd"
        "FCGI_DATA_complete rd" "FCGI_PARAMS_complete rd"
    proof -
      have "request_status rd = kRequestPending" using that(1) by (cases "request_status rd") simp_all
      then have "ready c m ?r" using that rd r by (simp add: ready_def received_def)
      then show ?thesis using its by (simp add: ready_list_def)
    qed
    have ok': "request_ok False (set_abort rd)"
      using ok by (simp add: request_ok_def received_def set_abort_def)
    show ?thesis
      unfolding ProcessAbortRequest_def Let_def iter'_def [symmetric] 
      using aborted removed member
      by (intro step_cached_present step_request_data [OF rd] step)
         (simp_all add: iter r True ok' its' iter'_def [symmetric] rd set_abort_status)
  qed
qed


lemma complete_stream_fields [simp]:
  "role (complete_stream t rd) = role rd" "request_status (complete_stream t rd) = request_status rd"
  "environment_map (complete_stream t rd) = environment_map rd"
  "FCGI_PARAMS (complete_stream t rd) = FCGI_PARAMS rd"
  "FCGI_STDIN (complete_stream t rd) = FCGI_STDIN rd" "FCGI_DATA (complete_stream t rd) = FCGI_DATA rd"
  "connection_closed_by_interface (complete_stream t rd) = connection_closed_by_interface rd"
  "close_connection (complete_stream t rd) = close_connection rd"
  "client_set_abort (complete_stream t rd) = client_set_abort rd"
  by (simp_all add: complete_stream_def CompletePARAMS_def CompleteSTDIN_def CompleteDATA_def)

text \<open>A request whose stream is open is pending, not completed and has no environment yet.\<close>

lemma open_stream:
  assumes "request_ok False rd" and "\<not> stream_complete t rd"
  shows "\<not> received rd" "request_status rd = kRequestPending" "environment_map rd = []"
    "\<not> connection_closed_by_interface rd"
proof -
  show nr: "\<not> received rd" using assms(2) by (auto simp: stream_complete_def received_def split: if_splits)
  then show "environment_map rd = []" "\<not> connection_closed_by_interface rd"
    using assms(1) by (simp_all add: request_ok_def)
  have "request_status rd \<noteq> kRequestAssigned" using assms(1) nr by (auto simp: request_ok_def)
  then show "request_status rd = kRequestPending" by (cases "request_status rd") simp_all
qed

lemma not_role_complete: "\<not> role_complete rd \<Longrightarrow> \<not> received rd"
  by (auto simp: role_complete_def received_def)

lemma stream_step:
  assumes its: "ready_list c m its" and iter: "cached_ok c m iter"
      and r: "descriptor (request_id rs) = c"
      and rd0: "om_find (request_id rs) m = Some rd0" "\<not> stream_complete (record_type rs) rd0"
  shows "hoare (at s0 c rs m) (ProcessStreamRecord c rs its iter) (processed s0 c rs) (thrown s0 c)"
proof (rule step_map_ok)
  assume m: "map_ok c m"
  let ?r = "request_id rs" and ?x = "complete_stream (record_type rs) rd0"
  have mem: "?r \<in> keys m" using rd0(1) by (rule om_find_Some_keys)
  have ok0: "request_ok False rd0" using m rd0(1) r by (auto simp: map_ok_def)
  note open0 = open_stream [OF ok0 rd0(2)]
  have nmem: "?r \<notin> set its" using not_ready [OF its rd0(1)] open0(1) by simp
  note same = processed_same [OF its iter]
  define iter' where "iter' = (if Some ?r = iter then None else iter)"
  have iter': "cached_ok c m iter'" "iter' \<noteq> Some ?r" using iter by (auto simp: iter'_def)
  show ?thesis
  proof (cases "role_complete ?x")
    case False
    then have x: "request_ok False ?x" "\<not> received ?x"
      using not_role_complete open0 by (simp_all add: request_ok_def)
    have "processed s0 c rs (None, its, iter) s" if "at s0 c rs (om_set ?r ?x m) s" for s
      using that ready_list_set [OF its nmem, of ?x] x(2) cached_ok_mono [OF iter, of "om_set ?r ?x m"]
      by (auto simp: processed_def)
    then show ?thesis
      unfolding ProcessStreamRecord_def Let_def CheckRequestCompletion_eq split_conv
      using same False x(1)
      by (intro step_cached_present step_request_data [OF rd0(1)] step) (simp_all add: iter r mem rd0(1))
  next
    case True
    let ?y = "?x\<lparr>FCGI_PARAMS_complete := True, FCGI_STDIN_complete := True, FCGI_DATA_complete := True\<rparr>"
    have y: "request_ok False ?y" using open0 by (simp add: request_ok_def received_def)
    obtain ok env where p: "ProcessFCGI_PARAMS ?y = (ok, ?y\<lparr>environment_map := env\<rparr>)"
        "ok \<Longrightarrow> environment_ok (?y\<lparr>environment_map := env\<rparr>)"
      using ProcessFCGI_PARAMS_cases [of ?y] open0(3) by (force simp: environment_ok_def)
    let ?z = "?y\<lparr>environment_map := env\<rparr>"
    have z: "request_ok False ?z" "request_status ?z = kRequestPending" "received ?z"
      using open0 by (simp_all add: request_ok_def received_def)
    have completed: "processed s0 c rs (Some ?r, its, iter') s"
      if "at s0 c rs (om_set ?r ?z m) s" ok for s
      using that ready_list_complete [OF its nmem mem r z(2,3)] p(2)
        cached_ok_mono [OF iter'(1), of "om_set ?r ?z m"]
      by (auto simp: processed_def)
    have removed: "processed s0 c rs (None, its, iter') s" if "at s0 c rs (om_erase ?r m) s" for s
      using that ready_list_erase [OF its, of ?r] cached_ok_erase [OF iter'(1) _ iter'(2)] m nmem
      by (auto simp: processed_def map_ok_def remove1_idem)
    show ?thesis
      unfolding ProcessStreamRecord_def Let_def CheckRequestCompletion_eq split_conv
        if_P [OF True] p(1) simp_thms iter'_def [symmetric]
      using same completed removed y z(1)
      by (intro step_cached_present step_request_data [OF rd0(1)] step)
         (simp_all add: iter r mem True p(1) iter'_def [symmetric] rd0(1) open0(2) om_find_set)
  qed
qed


lemma complete_step:
  assumes "status_ok c m rs" and "IsRecordComplete rs" and "ready_list c m its" and "cached_ok c m iter"
  shows "hoare (at s0 c rs m) (ProcessCompleteRecord c its iter) (processed s0 c rs) (failed s0 c)"
proof -
  have hc: "IsHeaderComplete rs" using assms(2)
    by (simp add: IsRecordComplete_def IsHeaderComplete_def ExpectedBytes_def)
  then have r: "descriptor (request_id rs) = c" using assms(1) by (simp add: status_ok_def)
  note same = processed_same [OF assms(3,4)]
  show ?thesis
    unfolding ProcessCompleteRecord_def
  proof (intro step_get_status step_try step management_step begin_step abort_step assms(3,4) r)
    assume app: "Fcgi_id (request_id rs) \<noteq> FCGI_NULL_REQUEST_ID" and valid: "\<not> invalidated_by_header rs"
    have ok: "accepted_ok m rs" using assms(1) hc app valid by (simp add: status_ok_def)
    {
      assume t: "record_type rs = kFCGI_BEGIN_REQUEST"
      with ok show "request_id rs \<notin> keys m" by (simp add: accepted_ok_def)
      show "Fcgi_id (request_id rs) \<noteq> 0" using app by simp
      have "content_bytes_expected rs = 8" using t ok by (simp add: accepted_ok_def)
      then show "length (local_record_content_buffer rs) = 8"
        using assms(1,2) hc valid t
        by (simp add: status_ok_def local_content_def IsRecordComplete_def ExpectedBytes_def)
    next
      assume "record_type rs \<noteq> kFCGI_BEGIN_REQUEST" "record_type rs \<noteq> kFCGI_ABORT_REQUEST"
      then obtain rd where st: "is_stream (record_type rs)" "om_find (request_id rs) m = Some rd"
          "\<not> stream_complete (record_type rs) rd" using ok by (auto simp: accepted_ok_def)
      show "hoare (at s0 c rs m) (ProcessStreamRecord c rs its iter) (processed s0 c rs) (thrown s0 c)"
        by (rule stream_step [OF assms(3,4) r st(2,3)])
      {
        assume "\<not> is_stream (record_type rs)"
        then show "\<And>s. at s0 c rs m s \<Longrightarrow> thrown s0 c LogicError s" using st(1) by blast
      }
    }
  qed (simp_all add: same)
qed

text \<open>The state between two turns of the loop.\<close>

definition reading ::
  "interface \<Rightarrow> fd \<Rightarrow> FcgiRequestIdentifier list \<Rightarrow> request_iterator \<Rightarrow> interface \<Rightarrow> bool"
where
  "reading s0 c its iter s \<longleftrightarrow> (\<exists>rs m. at s0 c rs m s \<and> status_ok c m rs \<and> \<not> IsRecordComplete rs
     \<and> ready_list c m its \<and> cached_ok c m iter)"

lemma status_ok_new: "status_ok c m (RecordStatus_new c)" "\<not> IsRecordComplete (RecordStatus_new c)"
  by (simp_all add: status_ok_def RecordStatus_new_def IsHeaderComplete_def IsRecordComplete_def
        ExpectedBytes_def)

lemma finish_step:
  assumes "status_ok c m rs" and "ready_list c m its" and "cached_ok c m iter"
  shows "hoare (at s0 c rs m) (FinishRecord c its iter)
     (\<lambda>(its', iter'). reading s0 c its' iter') (failed s0 c)"
  unfolding FinishRecord_def
proof (intro step_get_status step_try step)
  assume c: "IsRecordComplete rs"
  have conn: "connection rs = c" using assms(1) by (simp add: status_ok_def)
  show "hoare (at s0 c rs m) (bind (ProcessCompleteRecord c its iter)
      (\<lambda>(result_iter, its', iter'). bind (get_status c) (\<lambda>rs'. and_then (set_status c (ClearRecord rs'))
         (ret (case result_iter of None \<Rightarrow> (its', iter') | Some r \<Rightarrow> (its' @ [r], iter'))))))
      (\<lambda>(its', iter'). reading s0 c its' iter') (thrown s0 c)"
  proof (rule hoare_bind [OF _ failed_thrown [OF complete_step [OF assms(1) c assms(2,3)]]])
    fix x :: process_result
    obtain res its' iter' where x: "x = (res, its', iter')" by (cases x) auto
    show "hoare (processed s0 c rs x) (case x of (result_iter, its', iter') \<Rightarrow>
        bind (get_status c) (\<lambda>rs'. and_then (set_status c (ClearRecord rs'))
         (ret (case result_iter of None \<Rightarrow> (its', iter') | Some r \<Rightarrow> (its' @ [r], iter')))))
      (\<lambda>(its', iter'). reading s0 c its' iter') (thrown s0 c)"
      unfolding x processed_def split_conv conj_assoc [symmetric]
      by (intro hoare_ex hoare_with step_get_status step)
         (use status_ok_new [of c] in \<open>auto simp: ClearRecord_is_new conn reading_def RecordStatus_new_def
            split: option.splits\<close>)
  qed
qed (use assms in \<open>auto simp: reading_def\<close>)

text \<open>A segment of the received bytes has been taken: at least one byte, at most all.\<close>

definition taken ::
  "interface \<Rightarrow> fd \<Rightarrow> FcgiRequestIdentifier list \<Rightarrow> bytes \<Rightarrow> nat \<times> request_iterator \<Rightarrow> interface \<Rightarrow> bool"
where
  "taken s0 c its buf = (\<lambda>(n, iter) s. (\<exists>rs m. at s0 c rs m s \<and> status_ok c m rs
     \<and> ready_list c m its \<and> cached_ok c m iter) \<and> 0 < n \<and> n \<le> length buf)"

lemma takenI:
  "at s0 c rs m s \<Longrightarrow> status_ok c m rs \<Longrightarrow> ready_list c m its \<Longrightarrow> cached_ok c m iter \<Longrightarrow>
     0 < n \<Longrightarrow> n \<le> length buf \<Longrightarrow> taken s0 c its buf (n, iter) s"
  by (auto simp: taken_def)

lemma take_header_step:
  assumes ok: "status_ok c m rs" and "\<not> IsHeaderComplete rs" and "buf \<noteq> []"
      and its: "ready_list c m its" and iter: "cached_ok c m iter"
  shows "hoare (at s0 c rs m) (TakeHeader c buf iter) (taken s0 c its buf) (failed s0 c)"
proof -
  let ?rem = "FCGI_HEADER_LEN - bytes_received rs"
  let ?n = "if ?rem \<le> length buf then ?rem else length buf"
  let ?rs = "rs\<lparr>header := overwrite (header rs) (bytes_received rs) (take ?n buf),
                bytes_received := bytes_received rs + ?n\<rparr>"
  have b: "bytes_received rs < FCGI_HEADER_LEN" using assms(2) by (simp add: IsHeaderComplete_def)
  have n: "0 < ?n" "?n \<le> length buf" "bytes_received rs + ?n \<le> FCGI_HEADER_LEN"
    using b assms(3) by auto
  have fields: "connection ?rs = c" "length (header ?rs) = FCGI_HEADER_LEN"
      "local_record_content_buffer ?rs = []" "\<not> invalidated_by_header ?rs"
    using ok assms(2) n(2,3) by (simp_all add: status_ok_def min_absorb2 del: if_split split del: if_split)
  have partial: "status_ok c m ?rs" if "\<not> ?rem \<le> length buf"
    using ok assms(2) that fields by (auto simp: status_ok_def IsHeaderComplete_def)
  have complete: "bytes_received ?rs = FCGI_HEADER_LEN" if "?rem \<le> length buf"
    using that b by simp
  have header: "hoare (at s0 c ?rs m) (bind (try_catch (UpdateAfterHeaderCompletion c iter) (closure_handler c))
      (\<lambda>iter'. ret (?n, iter'))) (taken s0 c its buf) (failed s0 c)" if "?rem \<le> length buf"
  proof (rule hoare_bind [OF _ step_try [OF header_step [OF fields(1,2) complete [OF that] fields(3,4) iter]]])
    show "hoare (\<lambda>s. \<exists>rs. at s0 c rs m s \<and> status_ok c m rs \<and> cached_ok c m iter'
        \<and> bytes_received rs = FCGI_HEADER_LEN)
        (ret (?n, iter')) (taken s0 c its buf) (failed s0 c)" for iter'
      using takenI [OF _ _ its] n(1,2) by (intro step_ret) blast
  qed
  show ?thesis
    unfolding TakeHeader_def Let_def
    using fields(1,2) header takenI [OF _ partial its iter n(1,2)]
    by (intro step_get_status step_set_status step) (simp_all only: if_True if_False simp_thms)
qed

lemma append_content_stream:
  assumes "is_stream t"
  shows "\<exists>rd'. append_content t bs rd = Some rd' \<and> request_status rd' = request_status rd
     \<and> received rd' = received rd \<and> environment_map rd' = environment_map rd
     \<and> connection_closed_by_interface rd' = connection_closed_by_interface rd
     \<and> (\<forall>t. stream_complete t rd' = stream_complete t rd)"
  using assms by (auto simp: append_content_def AppendToPARAMS_def AppendToSTDIN_def AppendToDATA_def
      received_def stream_complete_def)

lemma append_step:
  assumes ok: "accepted_ok m rs" "\<not> local_content rs" "descriptor (request_id rs) = c"
      and its: "ready_list c m its" and iter: "cached_ok c m iter"
  shows "hoare (at s0 c rs m) (AppendToRequest c rs bs iter)
     (\<lambda>iter' s. \<exists>m'. at s0 c rs m' s \<and> accepted_ok m' rs \<and> ready_list c m' its \<and> cached_ok c m' iter')
     E"
proof (rule step_map_ok)
  assume m: "map_ok c m"
  let ?r = "request_id rs"
  obtain rd where st: "is_stream (record_type rs)" "om_find ?r m = Some rd"
      "\<not> stream_complete (record_type rs) rd"
    using ok by (auto simp: accepted_ok_def local_content_def)
  have mem: "?r \<in> keys m" using st(2) by (rule om_find_Some_keys)
  have "request_ok False rd" using m st(2) ok(3) by (auto simp: map_ok_def)
  note op = open_stream [OF this st(3)]
  obtain rd' where rd': "append_content (record_type rs) bs rd = Some rd'"
      "request_status rd' = kRequestPending" "\<not> received rd'" "environment_map rd' = []"
      "\<not> connection_closed_by_interface rd'" "\<not> stream_complete (record_type rs) rd'"
    using append_content_stream [OF st(1), of bs rd] op st(3) by auto
  let ?m = "om_set ?r rd' m"
  have "accepted_ok ?m rs" using st(1,2) rd'(6) by (simp add: accepted_ok_def om_find_set)
  moreover have "ready_list c ?m its"
    using not_ready [OF its st(2)] op(1) rd'(3) by (intro ready_list_set its) auto
  moreover have "cached_ok c ?m (Some ?r)" using mem ok(3) by (simp add: cached_ok_def)
  ultimately have appended: "\<exists>m'. at s0 c rs m' s \<and> accepted_ok m' rs \<and> ready_list c m' its
      \<and> cached_ok c m' (Some ?r)" if "at s0 c rs ?m s" for s
    using that by blast
  have same: "request_status rd' = request_status x" if "om_find ?r m = Some x" for x
    using that st(2) rd'(2) op(2) by simp
  have "request_ok False rd'" using rd' by (simp add: request_ok_def)
  then show ?thesis
    unfolding AppendToRequest_def
    using appended
    by (intro step_check hoare_try [where R = "\<lambda>_ _. False"] step_cached_present
          step_request_data [OF st(2)] step_case_Some [OF rd'(1)] step)
       (simp_all add: iter mem ok(3) hoare_def same)
qed

text \<open>Counting received bytes after the header.\<close>

lemma status_ok_received:
  assumes "status_ok c m rs" and "IsHeaderComplete rs"
      and "bytes_received rs + n \<le> ExpectedBytes rs" and "accepted_ok m rs \<longrightarrow> accepted_ok m' rs"
      and "\<not> invalidated_by_header rs \<and> local_content rs \<Longrightarrow> length buffer
            = min (unat (content_bytes_expected rs)) (bytes_received rs + n - FCGI_HEADER_LEN)"
  shows "status_ok c m' (rs\<lparr>local_record_content_buffer := buffer, bytes_received := bytes_received rs + n\<rparr>)"
  using assms by (auto simp: status_ok_def IsHeaderComplete_def ExpectedBytes_def accepted_ok_def
      local_content_def)

lemma take_content_step:
  assumes ok: "status_ok c m rs" and hc: "IsHeaderComplete rs" and ne: "buf \<noteq> []"
      and open_content: "bytes_received rs < unat (content_bytes_expected rs) + FCGI_HEADER_LEN"
      and its: "ready_list c m its" and iter: "cached_ok c m iter"
  shows "hoare (at s0 c rs m) (TakeContent c buf iter) (taken s0 c its buf) (failed s0 c)"
proof -
  let ?rem = "unat (content_bytes_expected rs) + FCGI_HEADER_LEN - bytes_received rs"
  define n where "n = (if ?rem \<le> length buf then ?rem else length buf)"
  let ?bs = "take n buf" and ?local = "local_record_content_buffer rs"
  let ?rs' = "rs\<lparr>local_record_content_buffer := ?local @ ?bs\<rparr>"
  let ?done = "\<lambda>rs. rs\<lparr>bytes_received := bytes_received rs + n\<rparr>"
  have n: "0 < n" "n \<le> length buf" "n \<le> ?rem" using open_content ne by (auto simp: n_def)
  have exp: "bytes_received rs + n \<le> ExpectedBytes rs"
    using n(3) open_content by (simp add: ExpectedBytes_def)
  have conn: "connection rs = c" "length (header rs) = FCGI_HEADER_LEN"
      and r: "descriptor (request_id rs) = c" using ok hc by (simp_all add: status_ok_def)
  have b8: "FCGI_HEADER_LEN \<le> bytes_received rs" using hc by (simp add: IsHeaderComplete_def)
  have keep: "rs\<lparr>local_record_content_buffer := ?local, bytes_received := bytes_received rs + n\<rparr> = ?done rs"
    by simp
  have same: "status_ok c m' (?done rs)"
    if "invalidated_by_header rs \<or> \<not> local_content rs" "accepted_ok m rs \<longrightarrow> accepted_ok m' rs" for m'
    using status_ok_received [OF ok hc exp that(2), of ?local] that(1) unfolding keep by blast
  have buffered: "status_ok c m (?done ?rs')" if "\<not> invalidated_by_header rs" "local_content rs"
  proof -
    have "length ?local = min (unat (content_bytes_expected rs)) (bytes_received rs - FCGI_HEADER_LEN)"
      using ok hc that by (simp add: status_ok_def)
    then have "length (?local @ ?bs)
        = min (unat (content_bytes_expected rs)) (bytes_received rs + n - FCGI_HEADER_LEN)"
      using n(2,3) b8 open_content by simp
    from status_ok_received [OF ok hc exp _ this, of m] show ?thesis by simp
  qed
  note taken = takenI [OF _ _ _ _ n(1,2)]
  let ?rest = "\<lambda>iter'. bind (get_status c) (\<lambda>rs'. and_then (set_status c (?done rs')) (ret (n, iter')))"
  have rest: "hoare (at s0 c rs'' m') (?rest iter') (taken s0 c its buf) (failed s0 c)"
    if "connection rs'' = c" "length (header rs'') = FCGI_HEADER_LEN" "status_ok c m' (?done rs'')"
      "ready_list c m' its" "cached_ok c m' iter'" for rs'' m' iter'
    using taken that by (intro step_get_status step) simp_all
  have append: "hoare (at s0 c rs m) (bind (AppendToRequest c rs ?bs iter) ?rest)
      (taken s0 c its buf) (failed s0 c)"
    if "\<not> invalidated_by_header rs" "\<not> local_content rs"
  proof (rule hoare_bind [OF _ append_step [OF _ that(2) r its iter]])
    show "accepted_ok m rs" using ok hc that by (simp add: status_ok_def local_content_def)
    show "hoare (\<lambda>s. \<exists>m'. at s0 c rs m' s \<and> accepted_ok m' rs \<and> ready_list c m' its \<and> cached_ok c m' iter')
        (?rest iter') (taken s0 c its buf) (failed s0 c)" for iter'
      unfolding conj_assoc [symmetric]
      by (intro hoare_ex hoare_with rest same) (use conn that in auto)
  qed
  have loc: "local_content rs \<longleftrightarrow> Fcgi_id (request_id rs) = FCGI_NULL_REQUEST_ID
      \<or> record_type rs = kFCGI_BEGIN_REQUEST \<or> record_type rs = kFCGI_ABORT_REQUEST"
    by (simp add: local_content_def)
  show ?thesis
    unfolding TakeContent_def Let_def
  proof (rule step_get_status, fold n_def loc)
    show "hoare (at s0 c rs m)
       (bind (if \<not> invalidated_by_header rs
              then if local_content rs
                   then and_then (set_status c ?rs') (ret iter)
                   else AppendToRequest c rs ?bs iter
              else ret iter) ?rest) (taken s0 c its buf) (failed s0 c)"
      using append rest [OF conn same its iter] conn
        rest [of ?rs' m iter, OF _ _ buffered its iter]
      by (cases "invalidated_by_header rs"; cases "local_content rs") (auto intro: step)
  qed
qed

lemma take_padding_step:
  assumes ok: "status_ok c m rs" and hc: "IsHeaderComplete rs" and ne: "buf \<noteq> []"
      and open_padding: "\<not> bytes_received rs < unat (content_bytes_expected rs) + FCGI_HEADER_LEN"
        "\<not> IsRecordComplete rs"
      and its: "ready_list c m its" and iter: "cached_ok c m iter"
  shows "hoare (at s0 c rs m) (TakePadding c buf iter) (taken s0 c its buf) (failed s0 c)"
proof -
  let ?rem = "unat (content_bytes_expected rs) + FCGI_HEADER_LEN + unat (padding_bytes_expected rs)
    - bytes_received rs"
  define n where "n = (if ?rem \<le> length buf then ?rem else length buf)"
  have "0 < ?rem" using ok hc open_padding(2)
    by (simp add: status_ok_def IsRecordComplete_def ExpectedBytes_def)
  then have n: "0 < n" "n \<le> length buf" "bytes_received rs + n \<le> ExpectedBytes rs"
    using ne by (auto simp: n_def ExpectedBytes_def)
  have "status_ok c m (rs\<lparr>local_record_content_buffer := local_record_content_buffer rs,
      bytes_received := bytes_received rs + n\<rparr>)"
    using ok hc n(3) open_padding(1)
    by (intro status_ok_received [of c m]) (simp_all add: status_ok_def)
  then have "status_ok c m (rs\<lparr>bytes_received := bytes_received rs + n\<rparr>)" by simp
  then show ?thesis
    unfolding TakePadding_def Let_def
    using takenI [OF _ _ its iter n(1,2)] ok
    by (intro step_get_status step; fold n_def) (simp_all add: status_ok_def)
qed

lemma segment_step:
  assumes "status_ok c m rs" and "\<not> IsRecordComplete rs" and "buf \<noteq> []"
      and "ready_list c m its" and "cached_ok c m iter"
  shows "hoare (at s0 c rs m) (TakeSegment c buf iter) (taken s0 c its buf) (failed s0 c)"
  unfolding TakeSegment_def
  by (intro step_get_status step take_header_step take_content_step take_padding_step assms) simp_all

section \<open>The loops\<close>

lemma reading_ops:
  "(\<And>rs m. status_ok c m rs \<Longrightarrow> \<not> IsRecordComplete rs \<Longrightarrow> ready_list c m its \<Longrightarrow> cached_ok c m iter \<Longrightarrow>
      hoare (at s0 c rs m) k Q E) \<Longrightarrow> hoare (reading s0 c its iter) k Q E"
  unfolding reading_def by (rule hoare_ex2, rule hoare_with) blast

lemma turn_step:
  assumes "buf \<noteq> []"
      and "\<And>n its' iter'. 0 < n \<Longrightarrow> n \<le> length buf \<Longrightarrow>
             hoare (reading s0 c its' iter') (f n its' iter') Q (failed s0 c)"
  shows "hoare (reading s0 c its iter)
     (bind (TakeSegment c buf iter) (\<lambda>(n, iter').
      bind (FinishRecord c its iter') (\<lambda>(its', iter''). f n its' iter''))) Q (failed s0 c)"
proof (intro reading_ops hoare_bind [OF _ segment_step [OF _ _ assms(1)]])
  fix x :: "nat \<times> request_iterator"
  obtain n iter' where x: "x = (n, iter')" by (cases x)
  have "hoare (at s0 c rs m) (bind (FinishRecord c its iter') (\<lambda>(its', iter''). f n its' iter'')) Q (failed s0 c)"
    if "status_ok c m rs" "ready_list c m its" "cached_ok c m iter'" "0 < n" "n \<le> length buf" for rs m
    by (rule hoare_bind [OF _ finish_step [OF that(1-3)]])
       (use assms(2) that(4,5) in \<open>auto split: prod.splits\<close>)
  then show "hoare (taken s0 c its buf x) (case x of (n, iter') \<Rightarrow>
      bind (FinishRecord c its iter') (\<lambda>(its', iter''). f n its' iter'')) Q (failed s0 c)"
    unfolding x taken_def split_conv by (intro hoare_with hoare_ex2) blast
qed

text \<open>With one turn for each byte the inner loop comes to its end.\<close>

lemma bytes_step:
  "length buf \<le> fuel \<Longrightarrow> hoare (reading s0 c its iter) (ProcessBytes fuel c buf its iter)
     (\<lambda>(its', iter'). reading s0 c its' iter') (failed s0 c)"
proof (induction fuel c buf its iter rule: ProcessBytes.induct)
  case (3 fuel c b bs its iter)
  show ?case unfolding ProcessBytes.simps
    by (rule turn_step) (use 3 in \<open>auto intro: hoare_pre\<close>)
qed (simp_all only: ProcessBytes.simps list.size, rule step_ret, simp_all)

lemma reading_rebase: "reading s0 c its iter s \<Longrightarrow> reading s c its iter s"
  by (auto simp: reading_def at_def working_def isolated_def)

lemma bytes_queue:
  assumes "length buf \<le> fuel"
  shows "hoare (\<lambda>s. reading s0 c its iter s \<and> length (queue (os s) c) \<le> n) (ProcessBytes fuel c buf its iter)
     (\<lambda>(its', iter') s. reading s0 c its' iter' s \<and> length (queue (os s) c) \<le> n) (failed s0 c)"
proof (rule hoare_know)
  fix s assume s: "reading s0 c its iter s \<and> length (queue (os s) c) \<le> n"
  have "isolated c s s'" if "reading s c its' iter' s'" for its' iter' s'
    using that by (auto simp: reading_def at_def working_def)
  then show "hoare (\<lambda>t. t = s) (ProcessBytes fuel c buf its iter)
      (\<lambda>(its', iter') s. reading s0 c its' iter' s \<and> length (queue (os s) c) \<le> n) (failed s0 c)"
    using s reading_rebase
    by (intro hoare_weaken [OF hoare_conj [OF bytes_step [OF assms, of s0 c its iter]
            bytes_step [OF assms, of s c its iter]]])
       (fastforce simp: isolated_def)+
qed

text \<open>A read takes what it returns from the receive queue.\<close>

lemma step_read:
  assumes "\<And>buf. length buf \<le> n \<Longrightarrow>
      hoare (\<lambda>s. at s0 c rs m s \<and> length buf + length (queue (os s) c) = k) (f buf) Q E"
  shows "hoare (\<lambda>s. at s0 c rs m s \<and> length (queue (os s) c) = k) (bind (sys_SocketRead c n) f) Q E"
    (is "hoare ?P _ _ _")
proof (rule hoare_bind [where R = "\<lambda>buf s. at s0 c rs m s \<and> length buf \<le> n \<and> length buf + length (queue (os s) c) = k"])
  show "hoare ?P (sys_SocketRead c n)
      (\<lambda>buf s. at s0 c rs m s \<and> length buf \<le> n \<and> length buf + length (queue (os s) c) = k) E"
  proof (rule hoareI)
    fix s assume "?P s"
    then have s: "at s0 c rs m s" and k: "length (queue (os s) c) = k" by simp_all
    have w: "working s0 c s" by (rule at_working [OF s])
    note inv = working_inv [OF w]
    show "case sys_SocketRead c n s of
       (Ok x, s') \<Rightarrow> at s0 c rs m s' \<and> length x \<le> n \<and> length x + length (queue (os s') c) = k | (Throw e, s') \<Rightarrow> E e s'
     | (Blocked, s') \<Rightarrow> True | (Terminate, s') \<Rightarrow> False | (Diverge, s') \<Rightarrow> False | (Undefined, s') \<Rightarrow> False"
    proof (cases "SocketReadLoop n [] (errno (os s)) (queue (os s) c) (script (os s))")
      case (Some t)
      then obtain r e b q as where
        t: "SocketReadLoop n [] (errno (os s)) (queue (os s) c) (script (os s)) = Some (r, e, b, q, as)"
        by (cases t) auto
      let ?s' = "s\<lparr>os := (os s)\<lparr>errno := e, script := as, queue := (queue (os s))(c := q)\<rparr>\<rparr>"
      have q: "length b \<le> n" "length q \<le> length (queue (os s) c)" "length b + length q = k"
        using SocketReadLoop_inv [OF t] k by auto
      have "interface_inv ?s'" using inv(6)
        by (auto simp: interface_inv_def descriptors_inv_def counts_inv_def requests_of_def
              requests_inv_def statuses_inv_def closure_inv_def)
      moreover have "isolated c s0 ?s'" using inv(11) q(2)
        by (auto simp: isolated_def same_config_def assigned_def)
      ultimately have "at s0 c rs m ?s'" using s inv(7,8,9,14)
        by (simp add: at_def working_def framing_inv_def limits_inv_def)
      then show ?thesis using q(1,3) by (simp add: sys_SocketRead_def SocketRead_def t Let_def)
    qed (simp add: sys_SocketRead_def SocketRead_def Let_def)
  qed
next
  show "hoare (\<lambda>s. at s0 c rs m s \<and> length buf \<le> n \<and> length buf + length (queue (os s) c) = k) (f buf) Q E" for buf
    using assms by (auto simp: hoare_def)
qed

text \<open>The result of reading: the completed requests, or nothing when the connection is at its end.\<close>

definition read_result :: "interface \<Rightarrow> fd \<Rightarrow> FcgiRequestIdentifier list \<Rightarrow> interface \<Rightarrow> bool" where
  "read_result s0 c its s \<longleftrightarrow> (\<exists>iter. reading s0 c its iter s)
     \<or> (its = [] \<and> working s0 c s \<and> c \<in> keys (application_closure_request_set s))"

lemma closed_step:
  "hoare (at s0 c rs m)
     (and_then InterfaceCheck (and_then (modify (schedule_closure c))
        (if b then ret [] else throw (SystemError e)))) (read_result s0 c) (failed s0 c)"
proof (rule step_check, rule hoare_bind [where R = "\<lambda>_ s. working s0 c s \<and> c \<in> keys (application_closure_request_set s)"])
  show "hoare (at s0 c rs m) (modify (schedule_closure c))
      (\<lambda>_ s. working s0 c s \<and> c \<in> keys (application_closure_request_set s)) (failed s0 c)"
    using working_schedule by (simp add: hoare_def at_def) (simp add: schedule_closure_def)
qed (auto simp: hoare_def read_result_def failed_def thrown_def)

text \<open>
  With one turn more than there are full buffers in the receive queue the outer loop comes to its end.
\<close>

lemma read_loop_step:
  "hoare (\<lambda>s. reading s0 c its iter s \<and> length (queue (os s) c) div kBufferSize < fuel)
     (ReadLoop fuel c its iter) (read_result s0 c) (failed s0 c)"
proof (induction fuel arbitrary: its iter)
  case (Suc fuel)
  have last_turn: "hoare (\<lambda>s. reading s0 c its' iter' s \<and> length (queue (os s) c) \<le> k - length buf)
      (if length buf < kBufferSize then ret its' else ReadLoop fuel c its' iter') (read_result s0 c) (failed s0 c)"
    if "k div kBufferSize < Suc fuel" "length buf \<le> kBufferSize" "length buf \<le> k" for its' iter' k and buf :: bytes
  proof (cases "length buf < kBufferSize")
    case True
    then show ?thesis by (simp only: if_True) (rule step_ret, auto simp: read_result_def)
  next
    case False
    then have buf: "length buf = kBufferSize" using that(2) by simp
    then have "k div kBufferSize = Suc ((k - kBufferSize) div kBufferSize)"
      using that(3) by (simp add: le_div_geq)
    then have "n div kBufferSize < fuel" if "n \<le> k - length buf" for n
      using div_le_mono [OF that, of kBufferSize] \<open>k div kBufferSize < Suc fuel\<close> buf by simp
    then show ?thesis using False by (simp only: if_False) (rule hoare_pre [OF Suc.IH], blast)
  qed
  have turn: "hoare (\<lambda>s. at s0 c rs m s \<and> length buf + length (queue (os s) c) = k)
      (bind (ProcessBytes (length buf) c buf its iter)
        (\<lambda>(its', iter'). if length buf < kBufferSize then ret its' else ReadLoop fuel c its' iter'))
      (read_result s0 c) (failed s0 c)"
    if "status_ok c m rs" "\<not> IsRecordComplete rs" "ready_list c m its" "cached_ok c m iter"
      "k div kBufferSize < Suc fuel" "length buf \<le> kBufferSize" for rs m k and buf :: bytes
  proof (cases "length buf \<le> k")
    case True
    show ?thesis
      by (rule hoare_bind [OF _ hoare_pre [OF bytes_queue [OF order_refl, of s0 c its iter "k - length buf"]]])
         (use last_turn [OF that(5,6) True] that in \<open>auto simp: reading_def split: prod.splits\<close>)
  qed (auto simp: hoare_def)
  have closed: "hoare (\<lambda>s. at s0 c rs m s \<and> length buf + length (queue (os s) c) = k)
      (and_then InterfaceCheck (and_then (modify (schedule_closure c))
        (if b then ret [] else throw (SystemError e)))) (read_result s0 c) (failed s0 c)" for rs m k b e and buf :: bytes
    by (rule hoare_pre [OF closed_step [of s0 c rs m]]) simp
  show ?case unfolding ReadLoop.simps
  proof (rule hoare_know)
    fix s assume s: "reading s0 c its iter s \<and> length (queue (os s) c) div kBufferSize < Suc fuel"
    then obtain rs m where a: "at s0 c rs m s" "status_ok c m rs" "\<not> IsRecordComplete rs"
        "ready_list c m its" "cached_ok c m iter" by (auto simp: reading_def)
    have "hoare (\<lambda>t. at s0 c rs m t \<and> length (queue (os t) c) = length (queue (os s) c))
      (bind (sys_SocketRead c kBufferSize) (\<lambda>buf. bind (gets (\<lambda>s. errno (os s))) (\<lambda>e.
         if length buf < kBufferSize \<and> \<not> (e = EAGAIN \<or> e = EWOULDBLOCK)
         then and_then InterfaceCheck (and_then (modify (schedule_closure c))
             (if e = 0 \<or> e = ECONNRESET then ret [] else throw (SystemError e)))
         else bind (ProcessBytes (length buf) c buf its iter) (\<lambda>(its', iter').
             if length buf < kBufferSize then ret its' else ReadLoop fuel c its' iter'))))
      (read_result s0 c) (failed s0 c)"
      by (intro step_read step_gets step_if closed turn a) (use s in simp_all)
    then show "hoare (\<lambda>t. t = s)
      (bind (sys_SocketRead c kBufferSize) (\<lambda>buf. bind (gets (\<lambda>s. errno (os s))) (\<lambda>e.
         if length buf < kBufferSize \<and> \<not> (e = EAGAIN \<or> e = EWOULDBLOCK)
         then and_then InterfaceCheck (and_then (modify (schedule_closure c))
             (if e = 0 \<or> e = ECONNRESET then ret [] else throw (SystemError e)))
         else bind (ProcessBytes (length buf) c buf its iter) (\<lambda>(its', iter').
             if length buf < kBufferSize then ret its' else ReadLoop fuel c its' iter'))))
      (read_result s0 c) (failed s0 c)"
      by (rule hoare_pre) (simp add: a(1))
  qed
qed (simp add: hoare_def)

section \<open>The theorem\<close>

text \<open>The invariant of a server whose interface is not corrupt.\<close>

definition server_inv :: "interface \<Rightarrow> bool" where
  "server_inv s \<longleftrightarrow> interface_inv s \<and> \<not> bad_interface_state_detected s \<and> framing_inv s
     \<and> limits_inv s \<and> reading_inv s"

lemma isolated_refl: "isolated c s s"
  by (simp add: isolated_def)

text \<open>The record status of \<open>c\<close> is in order; a connection that is not going to be closed has such a one.\<close>

definition between_calls :: "fd \<Rightarrow> interface \<Rightarrow> bool" where
  "between_calls c s \<longleftrightarrow> (\<exists>rs. om_find c (record_status_map s) = Some rs
     \<and> status_ok c (request_map s) rs \<and> \<not> IsRecordComplete rs)"

lemma between_calls_open:
  "reading_inv s \<Longrightarrow> c \<in> keys (record_status_map s) \<Longrightarrow>
     c \<notin> keys (application_closure_request_set s) \<Longrightarrow> between_calls c s"
  by (auto simp: reading_inv_def between_calls_def keys_Some)

lemma reading_start:
  assumes "server_inv s" and "between_calls c s" and "\<forall>r. \<not> ready c (request_map s) r"
  shows "reading s c [] None s"
  using assms by (auto simp: server_inv_def reading_def at_def working_def isolated_refl keys_Some
      between_calls_def ready_list_def)

lemma server_inv_reading: "reading s0 c its iter s \<Longrightarrow> reading_inv s0 \<Longrightarrow> server_inv s"
proof -
  assume r: "reading s0 c its iter s" and inv: "reading_inv s0"
  then obtain rs m where a: "at s0 c rs m s" "status_ok c m rs" "\<not> IsRecordComplete rs"
    by (auto simp: reading_def)
  then have w: "working s0 c s" by (simp add: at_def)
  have "status_ok d (request_map s) rs' \<and> \<not> IsRecordComplete rs'"
    if "om_find d (record_status_map s) = Some rs'" "d \<notin> keys (application_closure_request_set s)" for d rs'
    using that a reading_inv_others [OF inv working_inv(11) [OF w]]
    by (cases "d = c") (auto simp: at_def)
  then have "reading_inv s" by (simp add: reading_inv_def)
  then show "server_inv s" using w by (simp add: server_inv_def working_def)
qed

lemma server_inv_closing:
  assumes w: "working s0 c s" and "c \<in> keys (application_closure_request_set s)" and inv: "reading_inv s0"
  shows "server_inv s"
proof -
  have "status_ok d (request_map s) rs \<and> \<not> IsRecordComplete rs"
    if "om_find d (record_status_map s) = Some rs" "d \<notin> keys (application_closure_request_set s)" for d rs
    using that assms(2) by (intro reading_inv_others [OF inv working_inv(11) [OF w]]) auto
  then have "reading_inv s" by (simp add: reading_inv_def)
  then show ?thesis using w by (simp add: server_inv_def working_def)
qed

lemma ReadRecords_step:
  assumes "server_inv s" and "between_calls c s" and "\<forall>r. \<not> ready c (request_map s) r"
  shows "case ReadRecords c s of
       (Ok its, s') \<Rightarrow> server_inv s' \<and> isolated c s s'
         \<and> (ready_list c (request_map s') its
            \<or> its = [] \<and> c \<in> keys (application_closure_request_set s'))
     | (Throw e, s') \<Rightarrow> server_inv s' \<and> isolated c s s' \<and> (\<exists>n. e = SystemError n)
         \<and> c \<in> keys (application_closure_request_set s')
     | (Blocked, s') \<Rightarrow> True
     | _ \<Rightarrow> False"
proof -
  have inv: "reading_inv s" using assms(1) by (simp add: server_inv_def)
  have h: "hoare (\<lambda>t. t = s) (ReadRecords c) (read_result s c) (failed s c)"
    using hoareD [OF read_loop_step [of s c "[]" None "Suc (length (queue (os s) c) div kBufferSize)"], of s]
      reading_start [OF assms]
    by (simp add: hoare_def ReadRecords_def del: ReadLoop.simps)
  have res: "server_inv s' \<and> isolated c s s' \<and> (ready_list c (request_map s') its
      \<or> its = [] \<and> c \<in> keys (application_closure_request_set s'))" if "read_result s c its s'" for its s'
    using that server_inv_reading [OF _ inv] server_inv_closing [OF _ _ inv] working_inv(11)
    by (auto simp: read_result_def) (auto simp: reading_def at_def dest: working_inv(11))
  have fail: "server_inv s' \<and> isolated c s s' \<and> (\<exists>n. e = SystemError n)
      \<and> c \<in> keys (application_closure_request_set s')" if "failed s c e s'" for e s'
    using that server_inv_closing [OF _ _ inv] working_inv(11) by (auto simp: failed_def thrown_def)
  show ?thesis
    using hoareD [OF h refl] res fail by (auto split: prod.splits outcome.splits)
qed

text \<open>
  C3. \<open>ReadRecords\<close>, for a connection whose record status is in order (that of a connection that is
  not going to be closed is), in a state that satisfies the invariant and without a completed
  request that waits. Whatever bytes have arrived, in whatever
  portions, and whatever the system calls answer, it never uses an invalid iterator, never ends the
  program, never loops without end and never marks the interface as corrupt. The invariant is kept, all records sent are
  complete, nothing of another connection is changed, and no request is given to the application
  or taken from it. If it returns, the list holds exactly the
  pending requests of the connection that have been received completely, each once and with the
  environment that its \<open>FCGI_PARAMS\<close> stream describes; or the list is empty because the peer has
  closed the connection, which is then scheduled for closure. An exception is a \<open>system_error\<close> and
  leaves the connection scheduled for closure.
\<close>

theorem ReadRecords_correct:
  assumes "server_inv s" and "between_calls c s" and "\<forall>r. \<not> ready c (request_map s) r"
  shows "case ReadRecords c s of
       (Ok its, s') \<Rightarrow> server_inv s' \<and> isolated c s s'
         \<and> (ready_list c (request_map s') its
            \<or> its = [] \<and> c \<in> keys (application_closure_request_set s'))
     | (Throw e, s') \<Rightarrow> server_inv s' \<and> isolated c s s' \<and> (\<exists>n. e = SystemError n)
         \<and> c \<in> keys (application_closure_request_set s')
     | (Blocked, s') \<Rightarrow> True
     | _ \<Rightarrow> False"
  by (rule ReadRecords_step [OF assms])

definition example_read :: interface where
  "example_read = (example_interface kRequestPending [Count 11, Errno EINTR, Count 9, Errno EAGAIN])
     \<lparr>os := (os (example_interface kRequestPending [Count 11, Errno EINTR, Count 9, Errno EAGAIN]))
        \<lparr>queue := (\<lambda>_. [1, 4, 0, 1, 0, 0, 0, 0, 1, 5, 0, 1, 0, 0, 0, 0])\<rparr>\<rparr>"

lemma example_read_inv: "server_inv example_read"
proof -
  have "interface_inv example_read"
    using example_interface_inv [of kRequestPending "[Count 11, Errno EINTR, Count 9, Errno EAGAIN]"]
    by (simp add: example_read_def interface_inv_def descriptors_inv_def)
       (auto simp: counts_inv_def requests_of_def requests_inv_def statuses_inv_def closure_inv_def)
  moreover have "framing_inv example_read"
    by (auto simp: example_read_def framing_inv_def framed_def example_interface_def intro: exI [of _ "[]"])
  ultimately show ?thesis
    by (simp add: server_inv_def example_read_def limits_inv_def reading_inv_def status_ok_new)
       (simp add: example_interface_def)
qed

lemma example_read_run: "fst (ReadRecords 7 example_read) = Ok [FcgiRequestIdentifier 7 1]"
  by code_simp

theorem ReadRecords_correct_witness:
  "\<exists>s'. ReadRecords 7 example_read = (Ok [FcgiRequestIdentifier 7 1], s') \<and> server_inv s'
     \<and> ready 7 (request_map s') (FcgiRequestIdentifier 7 1)"
proof -
  obtain s' where s': "ReadRecords 7 example_read = (Ok [FcgiRequestIdentifier 7 1], s')"
    using example_read_run by (metis prod.collapse)
  have pre: "between_calls 7 example_read" "\<forall>r. \<not> ready 7 (request_map example_read) r"
    by (simp_all add: example_read_def between_calls_def status_ok_new ready_def received_def
          RequestData_new_def)
  show ?thesis using ReadRecords_correct [OF example_read_inv pre] s'
    by (auto simp: ready_list_def)
qed

section \<open>Enough fuel\<close>

lemma bind_cong_Ok:
  "(\<And>x s'. m s = (Ok x, s') \<Longrightarrow> f x s' = g x s') \<Longrightarrow> bind m f s = bind m g s"
  by (auto simp: bind_def split: prod.splits outcome.splits)

lemma bytes_fuel:
  "reading s0 c its iter s \<Longrightarrow> length buf \<le> f1 \<Longrightarrow> length buf \<le> f2 \<Longrightarrow>
     ProcessBytes f1 c buf its iter s = ProcessBytes f2 c buf its iter s"
proof (induction "length buf" arbitrary: buf f1 f2 its iter s rule: less_induct)
  case less
  show ?case
  proof (cases buf)
    case Nil
    then show ?thesis by (cases f1; cases f2) simp_all
  next
    case (Cons b bs)
    then obtain k1 k2 where f: "f1 = Suc k1" "f2 = Suc k2" using less.prems by (cases f1; cases f2) auto
    obtain rs m where a: "at s0 c rs m s" "status_ok c m rs" "\<not> IsRecordComplete rs"
        "ready_list c m its" "cached_ok c m iter"
      using less.prems(1) by (auto simp: reading_def)
    show ?thesis unfolding f Cons ProcessBytes.simps
    proof (rule bind_cong_Ok, clarify, rule bind_cong_Ok, clarify)
      fix n iter' s1 its' iter'' s2
      assume t: "TakeSegment c (b # bs) iter s = (Ok (n, iter'), s1)"
        and r: "FinishRecord c its iter' s1 = (Ok (its', iter''), s2)"
      have "taken s0 c its (b # bs) (n, iter') s1"
        by (rule hoare_Ok [OF segment_step [OF a(2,3) _ a(4,5)] a(1) t]) simp
      then obtain rs m where a': "at s0 c rs m s1" "status_ok c m rs" "ready_list c m its"
          "cached_ok c m iter'" and n: "0 < n" "n \<le> length (b # bs)"
        by (auto simp: taken_def)
      have "reading s0 c its' iter'' s2"
        using hoare_Ok [OF finish_step [OF a'(2-4)] a'(1) r] by simp
      then show "ProcessBytes k1 c (drop n (b # bs)) its' iter'' s2
          = ProcessBytes k2 c (drop n (b # bs)) its' iter'' s2"
        by (rule less.hyps [rotated]) (use less.prems n Cons f in auto)
    qed
  qed
qed

lemma SocketRead_queue:
  assumes "sys_SocketRead c n s = (Ok buf, s')"
  shows "length (queue (os s) c) = length buf + length (queue (os s') c)"
proof -
  obtain r e q as where
    t: "SocketReadLoop n [] (errno (os s)) (queue (os s) c) (script (os s)) = Some (r, e, buf, q, as)"
      and q: "queue (os s') c = q"
    using assms by (auto simp: sys_SocketRead_def SocketRead_def Let_def split: option.splits)
  then show ?thesis using SocketReadLoop_inv [OF t] by auto
qed

lemma loop_fuel:
  "reading s0 c its iter s \<Longrightarrow> length (queue (os s) c) div kBufferSize < f1 \<Longrightarrow>
     length (queue (os s) c) div kBufferSize < f2 \<Longrightarrow>
     ReadLoop f1 c its iter s = ReadLoop f2 c its iter s"
proof (induction f1 arbitrary: f2 its iter s)
  case (Suc k1)
  then obtain k2 where f2: "f2 = Suc k2" by (cases f2) auto
  show ?case unfolding f2 ReadLoop.simps
  proof (rule bind_cong_Ok)
    fix buf s1 assume r: "sys_SocketRead c kBufferSize s = (Ok buf, s1)"
    have rd: "reading s0 c its iter s1 \<and> length buf \<le> kBufferSize"
    proof -
      obtain rs m where a: "at s0 c rs m s" "status_ok c m rs" "\<not> IsRecordComplete rs"
          "ready_list c m its" "cached_ok c m iter"
        using Suc.prems(1) by (auto simp: reading_def)
      have "hoare (\<lambda>t. at s0 c rs m t \<and> length (queue (os t) c) = length (queue (os s) c))
          (bind (sys_SocketRead c kBufferSize) ret)
          (\<lambda>buf s. reading s0 c its iter s \<and> length buf \<le> kBufferSize) (\<lambda>_ _. True)"
        by (intro step_read step_ret) (use a in \<open>auto simp: reading_def\<close>)
      from hoare_Ok [OF this, of s buf s1] show ?thesis using r a(1) by simp
    qed
    have "bind (ProcessBytes (length buf) c buf its iter) (\<lambda>(its', iter').
            if length buf < kBufferSize then ret its' else ReadLoop k1 c its' iter') s1
        = bind (ProcessBytes (length buf) c buf its iter) (\<lambda>(its', iter').
            if length buf < kBufferSize then ret its' else ReadLoop k2 c its' iter') s1"
    proof (rule bind_cong_Ok, clarify)
      fix its' iter' s2 assume p: "ProcessBytes (length buf) c buf its iter s1 = (Ok (its', iter'), s2)"
      have "reading s1 c its iter s1" using rd reading_rebase by blast
      from hoare_Ok [OF bytes_step this p] have rd2: "reading s1 c its' iter' s2" by simp
      then have "isolated c s1 s2" by (auto simp: reading_def at_def working_def)
      then have q: "length (queue (os s2) c) \<le> length (queue (os s1) c)" by (simp add: isolated_def)
      show "(if length buf < kBufferSize then ret its' else ReadLoop k1 c its' iter') s2
          = (if length buf < kBufferSize then ret its' else ReadLoop k2 c its' iter') s2"
      proof (cases "length buf < kBufferSize")
        case False
        then have "length (queue (os s) c) = kBufferSize + length (queue (os s1) c)"
          using SocketRead_queue [OF r] rd by simp
        then have "length (queue (os s) c) div kBufferSize = Suc (length (queue (os s1) c) div kBufferSize)"
          by simp
        moreover have "length (queue (os s2) c) div kBufferSize \<le> length (queue (os s1) c) div kBufferSize"
          using q by (rule div_le_mono)
        ultimately have "length (queue (os s2) c) div kBufferSize < k1"
            "length (queue (os s2) c) div kBufferSize < k2"
          using Suc.prems(2,3) unfolding f2 by simp_all
        moreover have "reading s0 c its' iter' s2"
          using hoare_Ok [OF bytes_step _ p] rd by simp
        ultimately have "ReadLoop k1 c its' iter' s2 = ReadLoop k2 c its' iter' s2"
          by (intro Suc.IH)
        then show ?thesis using False by (simp only: if_False)
      qed (simp only: if_True)
    qed
    then show "bind (gets (\<lambda>s. errno (os s))) (\<lambda>e.
         if length buf < kBufferSize \<and> \<not> (e = EAGAIN \<or> e = EWOULDBLOCK)
         then and_then InterfaceCheck (and_then (modify (schedule_closure c))
             (if e = 0 \<or> e = ECONNRESET then ret [] else throw (SystemError e)))
         else bind (ProcessBytes (length buf) c buf its iter) (\<lambda>(its', iter').
             if length buf < kBufferSize then ret its' else ReadLoop k1 c its' iter')) s1
       = bind (gets (\<lambda>s. errno (os s))) (\<lambda>e.
         if length buf < kBufferSize \<and> \<not> (e = EAGAIN \<or> e = EWOULDBLOCK)
         then and_then InterfaceCheck (and_then (modify (schedule_closure c))
             (if e = 0 \<or> e = ECONNRESET then ret [] else throw (SystemError e)))
         else bind (ProcessBytes (length buf) c buf its iter) (\<lambda>(its', iter').
             if length buf < kBufferSize then ret its' else ReadLoop k2 c its' iter')) s1"
      by simp
  qed
qed simp

text \<open>
  C35. The loops of \<open>ReadRecords\<close> end. Each turn of the inner loop takes at least one of the bytes
  received, and each turn of the outer loop but the last takes a full buffer from the receive queue:
  with one turn for each byte, and one more turn than there are full buffers in the queue, neither loop
  is cut off (the outcome is not \<open>Diverge\<close>), whatever has been received and whatever the system calls
  answer, and every larger number of turns gives the same result.
\<close>

theorem ReadRecords_loops_end:
  assumes "server_inv s" and "between_calls c s" and "\<forall>r. \<not> ready c (request_map s) r"
      and "length (queue (os s) c) div kBufferSize < turns" and "length buf \<le> fuel"
  shows "fst (ReadRecords c s) \<noteq> Diverge \<and> ReadLoop turns c [] None s = ReadRecords c s
    \<and> fst (ProcessBytes fuel c buf [] None s) \<noteq> Diverge"
proof -
  note start = reading_start [OF assms(1-3)]
  let ?n = "Suc (length (queue (os s) c) div kBufferSize)"
  have "ReadLoop turns c [] None s = ReadLoop ?n c [] None s"
    by (rule loop_fuel [OF start assms(4)]) simp
  moreover have "fst (ReadLoop ?n c [] None s) \<notin> {Undefined, Terminate, Diverge}"
    by (rule hoare_never [OF read_loop_step [of s]]) (simp add: start)
  moreover have "fst (ProcessBytes fuel c buf [] None s) \<noteq> Diverge"
    using hoare_never [OF bytes_step [OF assms(5)] start] by simp
  ultimately show ?thesis unfolding ReadRecords_def op_apply by simp
qed

theorem ReadRecords_loops_end_witness:
  "fst (ReadRecords 7 example_read) \<noteq> Diverge \<and> ReadLoop 9 7 [] None example_read = ReadRecords 7 example_read
     \<and> fst (ProcessBytes 3 7 [1, 4, 0] [] None example_read) \<noteq> Diverge"
proof -
  have pre: "between_calls 7 example_read" "\<forall>r. \<not> ready 7 (request_map example_read) r"
    by (simp_all add: example_read_def between_calls_def status_ok_new ready_def received_def
          RequestData_new_def)
  have "length (queue (os example_read) 7) div kBufferSize < 9"
    by (simp add: example_read_def)
  then show ?thesis
    using ReadRecords_loops_end [OF example_read_inv pre, of 9 "[1, 4, 0]" 3] by simp
qed

end
