(* ===== verification/Request_Write.thy ===== *)
theory Request_Write
  imports Socket_Functions
begin

text \<open>
  The write loop of \<open>FcgiRequest::ScatterGatherWriteHelper\<close> (\<open>fcgi/src/fcgi_request.cc\<close>): the part of
  the function that holds only the write mutex. Writes that would block wait in \<open>select\<close>.
\<close>

section \<open>The loop\<close>

datatype select_end = Writable | Timeout | Select_error

fun WaitWritable :: "int \<Rightarrow> script \<Rightarrow> (select_end \<times> int \<times> script) option" where
  "WaitWritable errno [] = None"
| "WaitWritable errno (Errno e # as) =
     (if e = EINTR then WaitWritable e as else Some (Select_error, e, as))"
| "WaitWritable errno (Count n # as) =
     (if n = 0 then Some (Timeout, errno, as) else Some (Writable, errno, as))"

text \<open>
  How the loop ends; the number is that of the bytes not written. A result also has \<open>errno\<close>, the
  bytes sent and the rest of the script.
\<close>

datatype write_end =
  All_written | Timed_out nat | Select_failed nat | Peer_closed nat | Write_failed nat

datatype write_result =
  WR_out_of_bounds | WR_no_return | WR_end write_end int bytes script

definition peer_closed :: "write_end \<Rightarrow> bool" where
  "peer_closed w = (case w of Peer_closed n \<Rightarrow> True | _ \<Rightarrow> False)"

lemma peer_closed_simps [simp]:
  "\<not> peer_closed All_written" "\<not> peer_closed (Timed_out n)" "\<not> peer_closed (Select_failed n)"
  "peer_closed (Peer_closed n)" "\<not> peer_closed (Write_failed n)"
  by (simp_all add: peer_closed_def)

lemma WaitWritable_shorter: "WaitWritable e as = Some (w, e', as') \<Longrightarrow> length as' < length as"
  by (induction e as rule: WaitWritable.induct) (auto split: if_splits)

lemma ScatterGatherLoop_script:
  "ScatterGatherLoop w vs n r e sent as = SG_return vs' n' r' e' sent' as' \<Longrightarrow> length as' \<le> length as"
proof (induction w vs n r e sent as rule: ScatterGatherLoop.induct)
  case (1 w vs n r e sent as)
  note run = 1(5) [unfolded ScatterGatherLoop.simps [of w vs n r e sent as]]
  show ?case
  proof (cases "r > 0 \<and> as \<noteq> []")
    case True
    then obtain a as1 where as: "as = a # as1" by (cases as) auto
    show ?thesis
    proof (cases a)
      case (Count k)
      then show ?thesis
        using run True 1(1) [OF _ as Count refl refl refl refl _ _ prod.collapse]
          1(2) [OF _ as Count refl refl refl refl]
        by (fastforce simp: as Let_def split: if_splits option.splits intro: le_SucI)
    next
      case (Errno x)
      show ?thesis
      proof (cases "SelectForWrite x as1")
        case None
        then show ?thesis using run True 1(3) [OF _ as Errno]
          by (auto simp: as Errno split: if_splits)
      next
        case (Some t)
        obtain b e2 as2 where t: "t = (b, e2, as2)" by (cases t) auto
        show ?thesis using run True 1(3) [OF _ as Errno] Some SelectForWrite_shorter [of x as1 b e2 as2]
            1(4) [OF _ as Errno _ _ Some [unfolded t] refl refl]
          by (auto simp: as Errno t split: if_splits)
      qed
    qed
  qed (use run in \<open>auto split: list.splits if_splits\<close>)
qed

function WriteRecordsLoop ::
  "iov list \<Rightarrow> int \<Rightarrow> nat \<Rightarrow> int \<Rightarrow> bytes \<Rightarrow> script \<Rightarrow> write_result"
where
  "WriteRecordsLoop iovec_ptr iovec_count working_number_to_write errno sent as =
     (if working_number_to_write > 0
      then case ScatterGatherSocketWrite iovec_ptr iovec_count working_number_to_write False errno as of
          SG_out_of_bounds \<Rightarrow> WR_out_of_bounds
        | SG_no_return \<Rightarrow> WR_no_return
        | SG_return iovs n remaining e sent1 as1 \<Rightarrow>
            if remaining = 0 then WR_end All_written e (sent @ sent1) as1
            else if e = EAGAIN \<or> e = EWOULDBLOCK
            then (case WaitWritable e as1 of
                None \<Rightarrow> WR_no_return
              | Some (Timeout, e', as2) \<Rightarrow> WR_end (Timed_out remaining) e' (sent @ sent1) as2
              | Some (Select_error, e', as2) \<Rightarrow> WR_end (Select_failed remaining) e' (sent @ sent1) as2
              | Some (Writable, e', as2) \<Rightarrow>
                  WriteRecordsLoop iovs n remaining e' (sent @ sent1) as2)
            else if e = EPIPE then WR_end (Peer_closed remaining) e (sent @ sent1) as1
            else WR_end (Write_failed remaining) e (sent @ sent1) as1
      else WR_end All_written errno sent as)"
  by pat_completeness auto
termination
  by (relation "measure (\<lambda>(v, n, r, e, s, as). length as)")
     (auto simp: ScatterGatherSocketWrite_def
       dest!: WaitWritable_shorter ScatterGatherLoop_script)

declare WriteRecordsLoop.simps [simp del]

section \<open>What it sends\<close>

fun unwritten :: "write_end \<Rightarrow> nat" where
  "unwritten All_written = 0"
| "unwritten (Timed_out n) = n"
| "unwritten (Select_failed n) = n"
| "unwritten (Peer_closed n) = n"
| "unwritten (Write_failed n) = n"

definition write_post :: "bytes \<Rightarrow> bytes \<Rightarrow> write_result \<Rightarrow> bool" where
  "write_post content sent res = (case res of
       WR_out_of_bounds \<Rightarrow> False
     | WR_no_return \<Rightarrow> True
     | WR_end w e sent' as \<Rightarrow> unwritten w \<le> length content
         \<and> (w \<noteq> All_written \<longrightarrow> 0 < unwritten w)
         \<and> sent' = sent @ take (length content - unwritten w) content)"

lemma write_post_step:
  assumes "write_post (drop k content) (sent @ take k content) res" and "k \<le> length content"
  shows "write_post content sent res"
proof (cases res)
  case (WR_end w e sent' as)
  have u: "unwritten w \<le> length content - k" using assms by (simp add: WR_end write_post_def)
  have "take k content @ take (length content - k - unwritten w) (drop k content)
      = take (length content - unwritten w) content"
    using u by (rule take_step [OF assms(2)])
  then show ?thesis using assms u by (simp add: WR_end write_post_def)
qed (use assms in \<open>simp_all add: write_post_def\<close>)

lemma WriteRecordsLoop_post:
  "iovs_ok vs m \<Longrightarrow> r = iov_total (take m vs) \<Longrightarrow> n = int m \<Longrightarrow>
     write_post (iov_content (take m vs)) sent (WriteRecordsLoop vs n r e sent as)"
proof (induction vs n r e sent as arbitrary: m rule: WriteRecordsLoop.induct)
  case (1 vs n r e sent as)
  let ?c = "iov_content (take m vs)" and ?res = "ScatterGatherSocketWrite vs n r False e as"
  have len: "length ?c = r" using length_iov_content [OF 1(2)] 1(3) by simp
  have post: "sg_post vs m [] ?res"
    unfolding ScatterGatherSocketWrite_def by (rule ScatterGatherLoop_post [OF 1(2-4)])
  note unfold = WriteRecordsLoop.simps [of vs n r e sent as]
  show ?case
  proof (cases "r > 0")
    case False
    then show ?thesis using len by (subst unfold) (simp add: write_post_def)
  next
    case r: True
    show ?thesis
    proof (cases ?res)
      case SG_out_of_bounds
      then show ?thesis using post by (simp add: sg_post_def)
    next
      case SG_no_return
      then show ?thesis using r by (subst unfold) (simp add: write_post_def)
    next
      case (SG_return vs' n' r' e' sent1 as1)
      have p: "r' \<le> r" "sent1 = take (r - r') ?c"
          "0 < r' \<Longrightarrow> iovs_ok vs' (nat n') \<and> 0 \<le> n' \<and> iov_total (take (nat n') vs') = r'
             \<and> iov_content (take (nat n') vs') = drop (r - r') ?c"
        using post by (simp_all add: SG_return sg_post_def Let_def len)
      have stop: "write_post ?c sent (WR_end w x (sent @ sent1) as2)"
        if "unwritten w = r'" "w \<noteq> All_written \<longrightarrow> 0 < r'" for w x as2
        using that p(1,2) len by (simp add: write_post_def)
      show ?thesis
      proof (cases "0 < r' \<and> (e' = EAGAIN \<or> e' = EWOULDBLOCK) \<and>
          (\<exists>e2 as2. WaitWritable e' as1 = Some (Writable, e2, as2))")
        case True
        then obtain e2 as2 where w: "WaitWritable e' as1 = Some (Writable, e2, as2)" by blast
        have run: "WriteRecordsLoop vs n r e sent as = WriteRecordsLoop vs' n' r' e2 (sent @ sent1) as2"
          using r SG_return True w by (subst unfold) simp
        have "write_post (drop (r - r') ?c) (sent @ sent1) (WriteRecordsLoop vs' n' r' e2 (sent @ sent1) as2)"
          unfolding p(3) [THEN conjunct2, THEN conjunct2, THEN conjunct2, symmetric, OF True [THEN conjunct1]]
          using p(3) True by (intro 1(1) [OF r SG_return _ _ w refl refl refl]) auto
        then have "write_post (drop (r - r') ?c) (sent @ take (r - r') ?c)
            (WriteRecordsLoop vs' n' r' e2 (sent @ sent1) as2)"
          by (simp only: p(2))
        from write_post_step [OF this] show ?thesis using len by (simp add: run)
      next
        case False
        consider (all) "r' = 0" | (block) "0 < r'" "e' = EAGAIN" | (pipe) "0 < r'" "e' = EPIPE"
          | (other) "0 < r'" "e' \<noteq> EAGAIN" "e' \<noteq> EPIPE"
          by blast
        then show ?thesis
        proof cases
          case all
          then show ?thesis using r SG_return stop [of All_written]
            by (subst unfold) simp
        next
          case pipe
          then show ?thesis using r SG_return stop [of "Peer_closed r'"]
            by (subst unfold) simp
        next
          case other
          then show ?thesis using r SG_return stop [of "Write_failed r'"]
            by (subst unfold) simp
        next
          case block
          show ?thesis
          proof (cases "WaitWritable e' as1")
            case None
            then show ?thesis using r SG_return block
              by (subst unfold) (simp add: write_post_def [of _ _ WR_no_return])
          next
            case (Some t)
            then obtain w e2 as2 where t: "WaitWritable e' as1 = Some (w, e2, as2)" by (cases t) auto
            show ?thesis
            proof (cases w)
              case Writable
              then show ?thesis using False block t by blast
            next
              case Timeout
              have "write_post ?c sent (WR_end (Timed_out r') e2 (sent @ sent1) as2)"
                using block(1) by (intro stop) simp_all
              then show ?thesis using r block(1) by (subst unfold) (simp add: SG_return block(2) t [unfolded block(2)] Timeout)
            next
              case Select_error
              have "write_post ?c sent (WR_end (Select_failed r') e2 (sent @ sent1) as2)"
                using block(1) by (intro stop) simp_all
              then show ?thesis
                using r block(1) by (subst unfold) (simp add: SG_return block(2) t [unfolded block(2)] Select_error)
            qed
          qed
        qed
      qed
    qed
  qed
qed

end
