(* ===== verification/Fcgi_Request.thy ===== *)
theory Fcgi_Request
  imports Server_Send Request_Write
begin

text \<open>
  The operations of \<open>FcgiRequest\<close> (\<open>fcgi/src/fcgi_request.cc\<close>,
  \<open>fcgi/include/fcgi_request_templates.h\<close>) that use the interface: construction, destruction,
  \<open>AbortStatus\<close>, the completion of a request, and the writes of the application.

  An operation acts on the interface and on the object. Each is the code of one thread; where the
  code gives up the interface mutex, in \<open>ScatterGatherWriteHelper\<close>, the sections before, during and
  after are separate definitions.
\<close>

type_synonym 'a rop = "(interface \<times> FcgiRequest, 'a) op"

section \<open>Access to the interface\<close>

text \<open>
  \<open>interface_ptr_->m\<close>: undefined if the pointer is null or the interface it points to is not the
  one that exists.
\<close>

definition on_interface :: "'a iop \<Rightarrow> 'a rop" where
  "on_interface m = (\<lambda>(s, q).
     if interface_ptr q \<and> interface_identifier s = associated_interface_id q
     then case m s of (r, s') \<Rightarrow> (r, (s', q)) else (Undefined, (s, q)))"

abbreviation this :: "(FcgiRequest \<Rightarrow> 'a) \<Rightarrow> 'a rop" where
  "this f \<equiv> gets (\<lambda>p. f (snd p))"

abbreviation set_this :: "(FcgiRequest \<Rightarrow> FcgiRequest) \<Rightarrow> unit rop" where
  "set_this f \<equiv> modify (\<lambda>p. (fst p, f (snd p)))"

text \<open>\<open>completed_ = true; was_aborted_ = true;\<close>\<close>

definition finish :: "FcgiRequest \<Rightarrow> FcgiRequest" where
  "finish q = q\<lparr>completed := True, was_aborted := True\<rparr>"

text \<open>\<open>*request_data_ptr_\<close>.\<close>

definition deref_request_data :: "RequestData rop" where
  "deref_request_data = bind (this request_data_ptr) (\<lambda>p.
     case p of None \<Rightarrow> undefined_behaviour | Some r \<Rightarrow> on_interface (request_data r))"

text \<open>
  \<open>*write_mutex_ptr_\<close> and \<open>*bad_connection_state_ptr_\<close>: the entry of the write mutex map the
  pointer points into, undefined if it has been erased.
\<close>

definition mutex_entry :: "fd option \<Rightarrow> (fd \<times> bool \<times> bool) rop" where
  "mutex_entry p = (case p of
       None \<Rightarrow> undefined_behaviour
     | Some c \<Rightarrow> bind (on_interface (gets (\<lambda>s. om_find c (write_mutex_map s)))) (\<lambda>found.
         case found of None \<Rightarrow> undefined_behaviour | Some (held, corrupt) \<Rightarrow> ret (c, held, corrupt)))"

definition set_mutex_entry :: "fd \<Rightarrow> bool \<Rightarrow> bool \<Rightarrow> unit rop" where
  "set_mutex_entry c held corrupt = on_interface (modify (\<lambda>s.
     s\<lparr>write_mutex_map := om_set c (held, corrupt) (write_mutex_map s)\<rparr>))"

text \<open>\<open>lock\<close> does not return while another thread holds the mutex.\<close>

definition lock_write_mutex :: "unit rop" where
  "lock_write_mutex = bind (this write_mutex_ptr) (\<lambda>p. bind (mutex_entry p) (\<lambda>(c, held, corrupt).
     if held then blocked else set_mutex_entry c True corrupt))"

definition unlock_write_mutex :: "unit rop" where
  "unlock_write_mutex = bind (this write_mutex_ptr) (\<lambda>p. bind (mutex_entry p) (\<lambda>(c, held, corrupt).
     set_mutex_entry c False corrupt))"

text \<open>
  \<open>std::lock_guard<std::mutex> {*write_mutex_ptr_};\<close> makes a temporary: the mutex is released at
  the end of the statement.
\<close>

definition lock_guard_temporary :: "unit rop" where
  "lock_guard_temporary = and_then lock_write_mutex unlock_write_mutex"

definition read_bad_connection_state :: "bool rop" where
  "read_bad_connection_state = bind (this bad_connection_state_ptr) (\<lambda>p.
     bind (mutex_entry p) (\<lambda>(c, held, corrupt). ret corrupt))"

definition set_bad_connection_state :: "unit rop" where
  "set_bad_connection_state = bind (this bad_connection_state_ptr) (\<lambda>p.
     bind (mutex_entry p) (\<lambda>(c, held, corrupt). set_mutex_entry c held True))"

text \<open>\<open>write\<close> of one byte in its loop on \<open>EINTR\<close>; what was written is on the wire of the descriptor.\<close>

definition sys_write_byte :: "fd \<Rightarrow> byte \<Rightarrow> int iop" where
  "sys_write_byte d b = (\<lambda>s. let k = os s in
     if open_fds k d = None then (Ok (- 1), s\<lparr>os := k\<lparr>errno := EBADF\<rparr>\<rparr>)
     else case retry [EINTR] (script k) of
         None \<Rightarrow> (Blocked, s)
       | Some (Errno e, as) \<Rightarrow> (Ok (- 1), s\<lparr>os := k\<lparr>errno := e, script := as\<rparr>\<rparr>)
       | Some (Count n, as) \<Rightarrow>
           if n = 0 then (Ok 0, s\<lparr>os := k\<lparr>script := as\<rparr>\<rparr>)
           else (Ok 1, s\<lparr>os := k\<lparr>script := as, wire := (wire k)(d := wire k d @ [b])\<rparr>\<rparr>))"

definition InterfacePipeWrite :: "unit rop" where
  "InterfacePipeWrite = bind (this interface_pipe_write_descriptor) (\<lambda>d.
     bind (on_interface (sys_write_byte d 0)) (\<lambda>write_return.
       if write_return \<le> 0 then throw LogicError else ret ()))"

text \<open>\<open>try { InterfacePipeWrite(); } catch(...) { std::terminate(); }\<close>\<close>

definition WakeOrTerminate :: "unit rop" where
  "WakeOrTerminate = try_catch InterfacePipeWrite (\<lambda>e. terminate)"

text \<open>\<open>RemoveRequest(request_identifier_)\<close>, without and with the handler that wakes the interface.\<close>

definition remove_this :: "unit rop" where
  "remove_this = bind (this request_identifier) (\<lambda>r. on_interface (RemoveRequest r))"

definition remove_this_waking :: "unit rop" where
  "remove_this_waking = on_throw remove_this WakeOrTerminate"

text \<open>\<open>application_closure_request_set_.insert(request_identifier_.descriptor())\<close>\<close>

definition schedule_this :: "unit rop" where
  "schedule_this = bind (this request_identifier) (\<lambda>r.
     on_interface (modify (schedule_closure (descriptor r))))"

text \<open>\<open>FcgiServerInterface::interface_identifier_ == associated_interface_id_\<close>\<close>

definition interface_exists :: "bool rop" where
  "interface_exists = gets (\<lambda>(s, q). interface_identifier s = associated_interface_id q)"

definition interface_is_bad :: "bool rop" where
  "interface_is_bad = on_interface (gets bad_interface_state_detected)"

section \<open>Construction and destruction\<close>

text \<open>
  The role and the flag are read in the initialiser list, before the pointers are compared with
  \<open>nullptr\<close>. The data moved out of the \<open>RequestData\<close> object are empty afterwards.
\<close>

definition FcgiRequest_new ::
  "FcgiRequestIdentifier \<Rightarrow> 64 word \<Rightarrow> bool \<Rightarrow> FcgiRequestIdentifier option \<Rightarrow> fd option \<Rightarrow> fd option \<Rightarrow>
     fd \<Rightarrow> FcgiRequest iop"
where
  "FcgiRequest_new r interface_id interface_p data_p mutex_p bad_p write_fd =
     (case data_p of
        None \<Rightarrow> undefined_behaviour
      | Some k \<Rightarrow> bind (request_data k) (\<lambda>rd.
          if \<not> interface_p \<or> mutex_p = None \<or> bad_p = None \<or> request_status rd = kRequestAssigned
          then if \<not> interface_p then undefined_behaviour
               else and_then (modify set_bad) (throw LogicError)
          else and_then
            (set_request_data k (rd\<lparr>environment_map := [], FCGI_STDIN := [], FCGI_DATA := [],
               request_status := kRequestAssigned\<rparr>))
            (ret \<lparr> associated_interface_id = interface_id, interface_ptr = interface_p,
                 request_identifier = r, request_data_ptr = data_p, write_mutex_ptr = mutex_p,
                 bad_connection_state_ptr = bad_p, interface_pipe_write_descriptor = write_fd,
                 request_environment_map = environment_map rd,
                 request_stdin_content = FCGI_STDIN rd, request_data_content = FCGI_DATA rd,
                 request_role = role rd, request_close_connection = close_connection rd,
                 was_aborted = False, completed = False \<rparr>)))"

definition FcgiRequest_destructor :: "unit rop" where
  "FcgiRequest_destructor =
     bind (this (\<lambda>q. completed q \<or> associated_interface_id q = 0)) (\<lambda>nothing.
     if nothing then ret ()
     else bind interface_exists (\<lambda>exists.
       if \<not> exists then ret ()
       else bind interface_is_bad (\<lambda>bad.
         if bad then ret ()
         else try_catch
           (bind (this request_close_connection) (\<lambda>close.
            bind (if close then bind deref_request_data (\<lambda>rd. ret (\<not> connection_closed_by_interface rd))
                  else ret False) (\<lambda>schedule.
            and_then
              (when_then schedule
                 (and_then lock_guard_temporary (and_then schedule_this InterfacePipeWrite)))
              remove_this)))
           (\<lambda>e. and_then (on_interface (modify set_bad)) WakeOrTerminate))))"

section \<open>The state of a request\<close>

definition AbortStatus :: "bool rop" where
  "AbortStatus =
     bind (this (\<lambda>q. completed q \<or> was_aborted q \<or> associated_interface_id q = 0)) (\<lambda>known.
     if known then this was_aborted
     else bind interface_exists (\<lambda>exists.
       if \<not> exists then and_then (set_this finish) (throw RuntimeError)
       else bind interface_is_bad (\<lambda>bad.
         if bad then and_then (set_this finish) (throw RuntimeError)
         else bind deref_request_data (\<lambda>rd.
           if connection_closed_by_interface rd
           then and_then (set_this finish) (and_then remove_this_waking (this was_aborted))
           else and_then
             (when_then (client_set_abort rd) (set_this (\<lambda>q. q\<lparr>was_aborted := True\<rparr>)))
             (this was_aborted)))))"

definition InterfaceStateCheckForWritingUponMutexAcquisition :: "bool rop" where
  "InterfaceStateCheckForWritingUponMutexAcquisition =
     bind interface_exists (\<lambda>exists.
     if \<not> exists then and_then (set_this finish) (ret False)
     else bind interface_is_bad (\<lambda>bad.
       if bad then and_then (set_this finish) (ret False)
       else bind deref_request_data (\<lambda>rd.
         bind (this request_identifier) (\<lambda>r.
         bind (on_interface (gets (\<lambda>s. om_mem (descriptor r) (application_closure_request_set s)))) (\<lambda>scheduled.
           if connection_closed_by_interface rd \<or> scheduled
           then and_then (set_this finish) (and_then remove_this_waking (ret False))
           else ret True)))))"

section \<open>Writing records\<close>

text \<open>
  \<open>ScatterGatherWriteHelper\<close> in three sections. The first checks the interface, unless the caller
  holds the interface mutex and has done so, and takes the write mutex. When it returns \<open>true\<close> the
  write mutex is held; when the function is left it is released.
\<close>

definition BeginWrite :: "bool \<Rightarrow> bool rop" where
  "BeginWrite interface_mutex_held =
     bind (if interface_mutex_held then ret True
           else InterfaceStateCheckForWritingUponMutexAcquisition) (\<lambda>go.
     if \<not> go then ret False
     else and_then lock_write_mutex
       (bind read_bad_connection_state (\<lambda>bad.
          if bad
          then and_then (set_this finish)
            (and_then (on_throw remove_this unlock_write_mutex)
               (and_then unlock_write_mutex (ret False)))
          else ret True)))"

text \<open>The second writes, with the write mutex only.\<close>

definition WriteRecords :: "iov list \<Rightarrow> int \<Rightarrow> nat \<Rightarrow> write_end rop" where
  "WriteRecords iovec_ptr iovec_count number_to_write =
     bind (this request_identifier) (\<lambda>r. on_interface (\<lambda>s. let k = os s; c = descriptor r in
       case WriteRecordsLoop iovec_ptr iovec_count number_to_write (errno k) [] (script k) of
         WR_out_of_bounds \<Rightarrow> (Undefined, s)
       | WR_no_return \<Rightarrow> (Blocked, s)
       | WR_end w e sent as \<Rightarrow>
           (Ok w, s\<lparr>os := k\<lparr>errno := e, script := as, wire := (wire k)(c := wire k c @ sent),
              peer_gone := (peer_gone k)(c := peer_gone k c \<or> peer_closed w)\<rparr>\<rparr>)))"

text \<open>
  The third, after a failed write, records the end of the request and schedules the closure of the
  connection, holding the interface mutex again. A write mutex that is held when an exception
  leaves the function is released by the destructor of \<open>write_lock\<close>.
\<close>

definition TryToAddToApplicationClosureRequestSet :: "bool \<Rightarrow> bool \<Rightarrow> bool rop" where
  "TryToAddToApplicationClosureRequestSet interface_mutex_held force_insert =
     bind (if interface_mutex_held then ret True
           else InterfaceStateCheckForWritingUponMutexAcquisition) (\<lambda>go.
     if \<not> go then ret False
     else on_throw
       (and_then (set_this finish)
       (and_then remove_this
       (bind (this request_close_connection) (\<lambda>close.
        and_then
          (when_then (force_insert \<or> close)
             (and_then lock_write_mutex
                (and_then (on_throw (and_then schedule_this InterfacePipeWrite) unlock_write_mutex)
                   unlock_write_mutex)))
          (ret True)))))
       (and_then (on_interface (modify set_bad)) WakeOrTerminate))"

definition throw_system_error :: "'a rop" where
  "throw_system_error = bind (gets (\<lambda>(s, q). errno (os s))) (\<lambda>e. throw (SystemError e))"

definition EndWrite :: "bool \<Rightarrow> nat \<Rightarrow> write_end \<Rightarrow> bool rop" where
  "EndWrite interface_mutex_held number_to_write w =
     (let mark = (\<lambda>n. when_then (n < number_to_write) set_bad_connection_state);
          add = (\<lambda>force. TryToAddToApplicationClosureRequestSet interface_mutex_held force)
      in case w of
        All_written \<Rightarrow> and_then unlock_write_mutex (ret True)
      | Timed_out n \<Rightarrow>
          and_then (mark n) (and_then unlock_write_mutex (bind (add True) (\<lambda>_. ret False)))
      | Select_failed n \<Rightarrow>
          and_then (mark n) (and_then unlock_write_mutex (bind (add True) (\<lambda>_. throw_system_error)))
      | Peer_closed n \<Rightarrow> and_then unlock_write_mutex (bind (add False) (\<lambda>_. ret False))
      | Write_failed n \<Rightarrow>
          and_then (mark n) (and_then unlock_write_mutex (bind (add True) (\<lambda>_. throw_system_error))))"

definition ScatterGatherWriteHelper :: "iov list \<Rightarrow> int \<Rightarrow> nat \<Rightarrow> bool \<Rightarrow> bool rop" where
  "ScatterGatherWriteHelper iovec_ptr iovec_count number_to_write interface_mutex_held =
     bind (BeginWrite interface_mutex_held) (\<lambda>go.
       if \<not> go then ret False
       else bind (WriteRecords iovec_ptr iovec_count number_to_write)
         (EndWrite interface_mutex_held number_to_write))"

section \<open>Completion\<close>

text \<open>Three headers and a body of eight bytes.\<close>

definition header_and_end_content :: "FcgiRequestIdentifier \<Rightarrow> int \<Rightarrow> byte \<Rightarrow> bytes" where
  "header_and_end_content r app_status protocol_status =
     PopulateHeader kFCGI_STDOUT (Fcgi_id r) 0 0
     @ PopulateHeader kFCGI_STDERR (Fcgi_id r) 0 0
     @ PopulateHeader kFCGI_END_REQUEST (Fcgi_id r) (of_nat FCGI_HEADER_LEN) 0
     @ app_status_bytes app_status @ [protocol_status] @ replicate 3 0"

definition EndRequestHelper :: "int \<Rightarrow> byte \<Rightarrow> bool rop" where
  "EndRequestHelper app_status protocol_status =
     bind (this (\<lambda>q. completed q \<or> associated_interface_id q = 0)) (\<lambda>nothing.
     if nothing then ret False
     else bind (this (\<lambda>q. header_and_end_content (request_identifier q) app_status protocol_status)) (\<lambda>buffer.
       bind InterfaceStateCheckForWritingUponMutexAcquisition (\<lambda>go.
       if \<not> go then ret False
       else bind (ScatterGatherWriteHelper [(buffer, 32)] 1 32 True) (\<lambda>write_return.
         if \<not> write_return then ret False
         else and_then (set_this (\<lambda>q. q\<lparr>completed := True\<rparr>))
           (and_then remove_this_waking
             (bind (this request_close_connection) (\<lambda>close.
              and_then
                (when_then close
                   (on_throw
                      (and_then lock_guard_temporary (and_then schedule_this InterfacePipeWrite))
                      (and_then (on_interface (modify set_bad)) WakeOrTerminate)))
                (ret True))))))))"

definition Complete :: "int \<Rightarrow> bool rop" where
  "Complete app_status = EndRequestHelper app_status FCGI_REQUEST_COMPLETE"

definition RejectRole :: "int \<Rightarrow> bool rop" where
  "RejectRole app_status = EndRequestHelper app_status FCGI_UNKNOWN_ROLE"

section \<open>Writing content\<close>

text \<open>
  The list of \<open>struct iovec\<close> that \<open>PartitionByteSequence\<close> returns, as the writes see it. The loop
  of \<open>WriteHelper\<close> is given a number of rounds. Each round writes at least one byte of the content (shown
  in \<open>Request_Lifetime\<close>), so that as many rounds as there are bytes are enough; a loop that would go on
  is \<open>Diverge\<close>.
\<close>

definition iov_of :: "bytes \<Rightarrow> bytes \<Rightarrow> iovec \<Rightarrow> iov" where
  "iov_of content loc v = (case v of
     (Local i, n) \<Rightarrow> (drop i loc, n) | (Content i, n) \<Rightarrow> (drop i content, n))"

fun WriteHelperLoop :: "nat \<Rightarrow> int \<Rightarrow> FcgiType \<Rightarrow> bytes \<Rightarrow> nat \<Rightarrow> nat \<Rightarrow> bool rop" where
  "WriteHelperLoop rounds iovec_MAX type content begin_iter end_iter =
     (if begin_iter = end_iter then ret True
      else case rounds of
          0 \<Rightarrow> diverge
        | Suc rounds' \<Rightarrow>
            bind (this (\<lambda>q. PartitionByteSequence iovec_MAX begin_iter end_iter type
                              (Fcgi_id (request_identifier q)))) (\<lambda>partition_return.
              case partition_return of
                Inl e \<Rightarrow> throw e
              | Inr (loc, iovecs, number_to_write, begin') \<Rightarrow>
                  bind (ScatterGatherWriteHelper (map (iov_of content loc) iovecs)
                          (int (length iovecs)) number_to_write False) (\<lambda>write_success.
                    if write_success
                    then WriteHelperLoop rounds' iovec_MAX type content begin' end_iter
                    else ret False)))"

declare WriteHelperLoop.simps [simp del]

definition WriteHelper :: "int \<Rightarrow> bytes \<Rightarrow> FcgiType \<Rightarrow> bool rop" where
  "WriteHelper iovec_MAX content type =
     bind (this (\<lambda>q. completed q \<or> associated_interface_id q = 0)) (\<lambda>nothing.
       if nothing then ret False
       else WriteHelperLoop (length content) iovec_MAX type content 0 (length content))"

definition Write :: "int \<Rightarrow> bytes \<Rightarrow> bool rop" where
  "Write iovec_MAX content = WriteHelper iovec_MAX content kFCGI_STDOUT"

definition WriteError :: "int \<Rightarrow> bytes \<Rightarrow> bool rop" where
  "WriteError iovec_MAX content = WriteHelper iovec_MAX content kFCGI_STDERR"

end
