(* ===== verification/Request_Rules.thy ===== *)
theory Request_Rules
  imports Record_Safety Fcgi_Request
begin

text \<open>
  What the sections of \<open>FcgiRequest\<close> rely on and keep: the validity of a request with respect to
  the interface, what a request may change, and the rules that execute the elementary operations.
\<close>

section \<open>The interface while requests are written\<close>

text \<open>
  The invariant when the corrupt connections in \<open>P\<close> are not scheduled for closure yet: between the
  release of the write mutex after a failed write and the third section of the write.
\<close>

definition server_upto :: "fd set \<Rightarrow> interface \<Rightarrow> bool" where
  "server_upto P s \<longleftrightarrow> books_inv s \<and> closure_upto P s \<and> \<not> bad_interface_state_detected s
     \<and> framing_inv s \<and> limits_inv s \<and> reading_inv s"

lemma server_upto_none: "server_upto {} s \<longleftrightarrow> server_inv s"
  by (auto simp: server_upto_def server_inv_def interface_inv_books)

text \<open>What holds of an interface in any state: its descriptors are in order even if it is corrupt.\<close>

definition server_any :: "fd set \<Rightarrow> interface \<Rightarrow> bool" where
  "server_any P s \<longleftrightarrow> descriptors_inv s \<and> (\<not> bad_interface_state_detected s \<longrightarrow> server_upto P s)"

lemma server_upto_any: "server_upto P s \<Longrightarrow> server_any P s"
  by (simp add: server_any_def server_upto_def books_inv_def)

lemma server_any_inv: "server_any {} s \<Longrightarrow> interface_inv s"
  by (auto simp: server_any_def interface_inv_def server_upto_none server_inv_def)

section \<open>What a request may change\<close>

text \<open>
  The request itself, the accounting, the write mutex and the closure of its connection, the bytes
  sent on it and on the self-pipe, and the mark of a corrupt interface; nothing of another request
  or connection.
\<close>

definition request_step :: "FcgiRequestIdentifier \<Rightarrow> interface \<Rightarrow> interface \<Rightarrow> bool" where
  "request_step r s0 s \<longleftrightarrow> same_config s0 s
     \<and> record_status_map s = record_status_map s0 \<and> dummy_descriptor_set s = dummy_descriptor_set s0
     \<and> request_buffer_on_throw s = request_buffer_on_throw s0
     \<and> (\<forall>r'. r' \<noteq> r \<longrightarrow> om_find r' (request_map s) = om_find r' (request_map s0))
     \<and> (\<forall>d. d \<noteq> descriptor r \<longrightarrow>
          om_find d (request_count_map s) = om_find d (request_count_map s0)
          \<and> om_find d (write_mutex_map s) = om_find d (write_mutex_map s0)
          \<and> (d \<in> keys (application_closure_request_set s)
               \<longleftrightarrow> d \<in> keys (application_closure_request_set s0))
          \<and> (d \<noteq> self_pipe_write_descriptor s0 \<longrightarrow> wire (os s) d = wire (os s0) d)
          \<and> peer_gone (os s) d = peer_gone (os s0) d)
     \<and> keys (application_closure_request_set s0) \<subseteq> keys (application_closure_request_set s)
     \<and> open_fds (os s) = open_fds (os s0) \<and> queue (os s) = queue (os s0)
     \<and> (bad_interface_state_detected s0 \<longrightarrow> bad_interface_state_detected s)"

lemma request_step_refl [simp]: "request_step r s s"
  by (simp add: request_step_def same_config_def)

lemma request_step_trans: "request_step r s0 s \<Longrightarrow> request_step r s s' \<Longrightarrow> request_step r s0 s'"
  by (auto simp: request_step_def same_config_def)

section \<open>Valid requests\<close>

text \<open>The pointers of a request point to its entries in the interface that exists.\<close>

definition linked :: "interface \<Rightarrow> FcgiRequest \<Rightarrow> bool" where
  "linked s q \<longleftrightarrow> interface_ptr q \<and> associated_interface_id q \<noteq> 0
     \<and> interface_identifier s = associated_interface_id q
     \<and> request_data_ptr q = Some (request_identifier q)
     \<and> write_mutex_ptr q = Some (descriptor (request_identifier q))
     \<and> bad_connection_state_ptr q = Some (descriptor (request_identifier q))
     \<and> interface_pipe_write_descriptor q = self_pipe_write_descriptor s"

text \<open>
  A request that is neither null nor completed is an assigned request of the interface, if the
  interface for which it was made still exists and is not corrupt.
\<close>

definition request_valid :: "interface \<Rightarrow> FcgiRequest \<Rightarrow> bool" where
  "request_valid s q \<longleftrightarrow> null_request q \<or> completed q
     \<or> interface_ptr q
       \<and> (interface_identifier s = associated_interface_id q \<and> \<not> bad_interface_state_detected s
          \<longrightarrow> linked s q \<and> assigned s (request_identifier q))"

section \<open>Elementary changes\<close>

lemma status_ok_remove:
  assumes "status_ok c m rs" and "om_find r m = Some rd" and "received rd"
      and "\<And>r'. om_find r' m' = (if r' = r then None else om_find r' m)"
  shows "status_ok c m' rs"
proof -
  have "accepted_ok m' rs" if "accepted_ok m rs"
    using that assms(2-4)
    by (auto simp: accepted_ok_def keys_iff stream_complete_def received_def split: if_splits)
  then show ?thesis using assms(1) by (auto simp: status_ok_def)
qed

lemma reading_inv_remove:
  assumes "reading_inv s" and "om_find r (request_map s) = Some rd" and "received rd"
      and "\<And>r'. om_find r' m' = (if r' = r then None else om_find r' (request_map s))"
  shows "reading_inv (s\<lparr>request_count_map := n, request_map := m'\<rparr>)"
  using assms(1) status_ok_remove [OF _ assms(2-4)] by (auto simp: reading_inv_def)

text \<open>The removal of an assigned request.\<close>

lemma remove_assigned:
  assumes "server_upto P s" and "assigned s r"
  shows "\<exists>s'. RemoveRequest r s = (Ok (), s') \<and> server_upto P s' \<and> request_step r s s'
     \<and> r \<notin> keys (request_map s') \<and> write_mutex_map s' = write_mutex_map s
     \<and> application_closure_request_set s' = application_closure_request_set s \<and> os s' = os s"
proof -
  have books: "books_inv s" and rest: "closure_upto P s" "\<not> bad_interface_state_detected s"
      "framing_inv s" "limits_inv s" "reading_inv s"
    using assms(1) by (simp_all add: server_upto_def)
  obtain rd where rd: "om_find r (request_map s) = Some rd" "request_status rd = kRequestAssigned"
    using assms(2) by (auto simp: assigned_def)
  then have mem: "r \<in> keys (request_map s)" by (simp add: keys_iff)
  have rec: "received rd"
    using books rd by (auto simp: books_inv_def requests_inv_def request_ok_def)
  from RemoveRequestHelper_books [OF books mem]
  obtain counts reqs where
      run: "RemoveRequestHelper (Some r) s = (Ok (), s\<lparr>request_count_map := counts, request_map := reqs\<rparr>)"
      and inv: "books_inv (s\<lparr>request_count_map := counts, request_map := reqs\<rparr>)"
      and reqs: "\<forall>r'. om_find r' reqs = (if r' = r then None else om_find r' (request_map s))"
      and counts: "\<forall>c. om_find c counts = (if c = descriptor r
                 then map_option (\<lambda>n. n - 1) (om_find c (request_count_map s))
                 else om_find c (request_count_map s))" by blast
  let ?s' = "s\<lparr>request_count_map := counts, request_map := reqs\<rparr>"
  have "reading_inv ?s'" by (rule reading_inv_remove [OF rest(5) rd(1) rec]) (use reqs in blast)
  then have "server_upto P ?s'" using inv rest
    by (simp add: server_upto_def closure_upto_def framing_inv_def limits_inv_def)
  moreover have "request_step r s ?s'"
    using reqs counts by (simp add: request_step_def same_config_def)
  moreover have "r \<notin> keys (request_map ?s')" using reqs by (simp add: keys_iff)
  ultimately show ?thesis using run mem
    by (intro exI [of _ ?s']) (simp add: RemoveRequest_def om_mem_keys)
qed

lemma server_upto_mutex:
  assumes "server_upto P s" and "om_find c (write_mutex_map s) = Some (h, b)" and "P \<subseteq> P'"
      and "b' \<Longrightarrow> c \<in> keys (application_closure_request_set s) \<or> c \<in> P'"
      and "\<not> h' \<Longrightarrow> \<not> b' \<Longrightarrow> \<not> peer_gone (os s) c \<Longrightarrow> framed (wire (os s) c)"
  shows "server_upto P' (s\<lparr>write_mutex_map := om_set c (h', b') (write_mutex_map s)\<rparr>)"
    (is "server_upto P' ?s'")
proof -
  have "books_inv ?s'" using assms(1)
    by (auto simp: server_upto_def books_inv_def descriptors_inv_def counts_inv_def requests_inv_def
          statuses_inv_def requests_of_def)
  moreover have "closure_upto P' ?s'" using assms(1,3,4)
    by (auto simp: server_upto_def closure_upto_def om_find_set split: if_splits)
  moreover have "framing_inv ?s'" using assms(1,2,5)
    by (auto simp: server_upto_def framing_inv_def om_find_set split: if_splits)
  ultimately show ?thesis using assms(1)
    by (simp add: server_upto_def limits_inv_def reading_inv_def)
qed

lemma server_upto_schedule:
  assumes "server_upto P s" and "c \<in> keys (write_mutex_map s)" and "P \<subseteq> insert c P'"
  shows "server_upto P' (schedule_closure c s)"
proof -
  have "books_inv (schedule_closure c s)" "framing_inv (schedule_closure c s)"
      "limits_inv (schedule_closure c s)" "reading_inv (schedule_closure c s)"
    using assms(1)
    by (auto simp: server_upto_def books_inv_def descriptors_inv_def counts_inv_def requests_inv_def
          statuses_inv_def requests_of_def framing_inv_def limits_inv_def reading_inv_def
          schedule_closure_def om_wf_insert)
  moreover have "closure_upto P' (schedule_closure c s)"
    using assms by (auto simp: server_upto_def books_inv_def closure_upto_def schedule_closure_def
      descriptors_inv_def)
  ultimately show ?thesis using assms(1) by (simp add: server_upto_def schedule_closure_def)
qed

text \<open>Changes of the kernel that do not touch what was sent on a connection that is not held.\<close>

lemma server_upto_os:
  assumes "server_upto P s" and "open_fds k = open_fds (os s)"
      and "\<And>c. om_find c (write_mutex_map s) = Some (False, False) \<Longrightarrow>
        wire k c = wire (os s) c \<and> peer_gone k c = peer_gone (os s) c"
  shows "server_upto P (s\<lparr>os := k\<rparr>)"
  using assms
  by (auto simp: server_upto_def books_inv_def descriptors_inv_def counts_inv_def requests_inv_def
      statuses_inv_def requests_of_def framing_inv_def limits_inv_def reading_inv_def closure_upto_def)

lemma connection_not_pipe:
  "descriptors_inv s \<Longrightarrow> c \<in> keys (write_mutex_map s) \<Longrightarrow> c \<noteq> self_pipe_write_descriptor s"
  by (auto simp: descriptors_inv_def)

section \<open>Executing a request operation\<close>

text \<open>
  The state of a write between its first and its last section: the request \<open>q\<close> with its interface,
  whether the write mutex is held, the connection corrupt, the peer gone; the bytes sent on the
  connection, whether it is scheduled for closure, and whether the request is still present.
\<close>

definition stage :: "fd set \<Rightarrow> interface \<Rightarrow> FcgiRequest \<Rightarrow> (bool \<times> bool) option \<Rightarrow> bool \<Rightarrow> bytes \<Rightarrow> bool \<Rightarrow> bool \<Rightarrow>
    interface \<times> FcgiRequest \<Rightarrow> bool" where
  "stage P s0 q M gone w sched present = (\<lambda>(s, q'). q' = q \<and> server_upto P s \<and> linked s q
     \<and> request_step (request_identifier q) s0 s
     \<and> om_find (descriptor (request_identifier q)) (write_mutex_map s) = M
     \<and> peer_gone (os s) (descriptor (request_identifier q)) = gone
     \<and> wire (os s) (descriptor (request_identifier q)) = w
     \<and> (descriptor (request_identifier q) \<in> keys (application_closure_request_set s) \<longleftrightarrow> sched)
     \<and> (if present then assigned s (request_identifier q)
        else request_identifier q \<notin> keys (request_map s)))"

text \<open>After the end of the request, and after an error that the interface is marked with.\<close>

definition ended :: "fd set \<Rightarrow> interface \<Rightarrow> FcgiRequest \<Rightarrow> interface \<times> FcgiRequest \<Rightarrow> bool" where
  "ended P s0 q = (\<lambda>(s, q'). q' = q \<and> server_any P s \<and> request_step (request_identifier q) s0 s
     \<and> (interface_identifier s = associated_interface_id q \<and> \<not> bad_interface_state_detected s
        \<longrightarrow> request_identifier q \<notin> keys (request_map s)))"

definition broken :: "interface \<Rightarrow> FcgiRequest \<Rightarrow> interface \<times> FcgiRequest \<Rightarrow> bool" where
  "broken s0 q = (\<lambda>(s, q'). q' = q \<and> descriptors_inv s \<and> bad_interface_state_detected s
     \<and> linked s q \<and> request_step (request_identifier q) s0 s)"

lemma broken_ended: "broken s0 q p \<Longrightarrow> ended P s0 q p"
  by (auto simp: broken_def ended_def server_any_def)

lemma stage_ended: "stage P s0 q M g w sc False p \<Longrightarrow> ended P s0 q p"
  by (auto simp: stage_def ended_def server_upto_any)

lemma on_interface_run [simp]:
  "linked s q \<Longrightarrow> on_interface m (s, q) = (case m s of (r, s') \<Rightarrow> (r, (s', q)))"
  by (simp add: on_interface_def linked_def)

text \<open>
  An operation that returns from a stage and leaves another; the second rule is for an operation on
  the interface, and what the state of the interface is afterwards.
\<close>

lemma stage_first:
  assumes "\<And>s. stage P s0 q M g w sc pr (s, q) \<Longrightarrow> \<exists>x p. m (s, q) = (Ok x, p) \<and> R x p"
      and "\<And>x. hoare_gen T (R x) (f x) Q E"
  shows "hoare_gen T (stage P s0 q M g w sc pr) (bind m f) Q E"
proof (rule hoare_first [OF _ assms(2)])
  fix p assume "stage P s0 q M g w sc pr p"
  moreover obtain s q' where "p = (s, q')" by (cases p)
  ultimately show "\<exists>x p'. m p = (Ok x, p') \<and> R x p'" using assms(1) by (auto simp: stage_def)
qed

lemma stage_update:
  assumes "\<And>s. stage P s0 q M g w sc pr (s, q) \<Longrightarrow> m (s, q) = (Ok (), (f s, q)) \<and>
        stage P' s0 q M' g' w' sc' pr' (f s, q)"
      and "hoare_gen T (stage P' s0 q M' g' w' sc' pr') n Q E"
  shows "hoare_gen T (stage P s0 q M g w sc pr) (and_then m n) Q E"
  by (rule stage_first [where R = "\<lambda>_. stage P' s0 q M' g' w' sc' pr'"]) (use assms in blast)+

named_theorems rstep "rules that execute one operation of a request"

lemma step_this [rstep]:
  "hoare_gen T (stage P s0 q M g w sc pr) (f (x q)) Q E \<Longrightarrow>
     hoare_gen T (stage P s0 q M g w sc pr) (bind (this x) f) Q E"
  by (auto simp: hoare_def stage_def)

lemma step_set_this [rstep]:
  assumes "hoare_gen T (stage P s0 (f q) M g w sc pr) m Q E"
      and "\<And>s. linked s (f q) = linked s q" and "request_identifier (f q) = request_identifier q"
  shows "hoare_gen T (stage P s0 q M g w sc pr) (and_then (set_this f) m) Q E"
  by (rule stage_first [where R = "\<lambda>_. stage P s0 (f q) M g w sc pr"])
     (use assms in \<open>auto simp: stage_def\<close>)

lemma linked_finish [simp]: "linked s (finish q) = linked s q"
  by (simp add: linked_def finish_def)

lemma finish_simps [simp]:
  "request_identifier (finish q) = request_identifier q" "completed (finish q)"
  "request_close_connection (finish q) = request_close_connection q" "was_aborted (finish q)"
  "associated_interface_id (finish q) = associated_interface_id q"
  by (simp_all add: finish_def)

lemma step_remove_this [rstep]:
  assumes "hoare_gen T (stage P s0 q M g w sc False) m Q E"
  shows "hoare_gen T (stage P s0 q M g w sc True) (and_then remove_this m) Q E"
proof (rule stage_first [where R = "\<lambda>_. stage P s0 q M g w sc False"])
  fix s assume st: "stage P s0 q M g w sc True (s, q)"
  then have "server_upto P s" "assigned s (request_identifier q)" by (simp_all add: stage_def)
  from remove_assigned [OF this] st
  show "\<exists>x p. remove_this (s, q) = (Ok x, p) \<and> stage P s0 q M g w sc False p"
    by (auto simp: stage_def remove_this_def request_step_def same_config_def linked_def)
qed (rule assms)

text \<open>The write mutex.\<close>

lemma stage_mutex:
  assumes "stage P s0 q (Some (h, b)) g w sc pr (s, q)" and "P \<subseteq> P'" and "b' \<Longrightarrow> sc \<or> descriptor (request_identifier q) \<in> P'"
      and "\<not> h' \<Longrightarrow> \<not> b' \<Longrightarrow> \<not> g \<Longrightarrow> framed w"
  shows "stage P' s0 q (Some (h', b')) g w sc pr
    (s\<lparr>write_mutex_map := om_set (descriptor (request_identifier q)) (h', b') (write_mutex_map s)\<rparr>, q)"
proof -
  have "server_upto P' (s\<lparr>write_mutex_map :=
      om_set (descriptor (request_identifier q)) (h', b') (write_mutex_map s)\<rparr>)"
    by (rule server_upto_mutex [of P s _ h b]) (use assms in \<open>auto simp: stage_def\<close>)
  then show ?thesis using assms(1)
    by (auto simp: stage_def linked_def assigned_def request_step_def same_config_def om_find_set)
qed

lemma mutex_run:
  assumes "stage P s0 q (Some (h, b)) g w sc pr (s, q)"
  shows "bind (mutex_entry (Some (descriptor (request_identifier q)))) f (s, q)
      = f (descriptor (request_identifier q), h, b) (s, q)"
    and "write_mutex_ptr q = Some (descriptor (request_identifier q))"
    and "bad_connection_state_ptr q = Some (descriptor (request_identifier q))"
    and "set_mutex_entry c h' b' (s, q) =
      (Ok (), (s\<lparr>write_mutex_map := om_set c (h', b') (write_mutex_map s)\<rparr>, q))"
  using assms
  by (auto simp: stage_def mutex_entry_def set_mutex_entry_def bind_def linked_def on_interface_def
      ret_def)

lemma mutex_ops_run:
  fixes s q
  defines "c \<equiv> descriptor (request_identifier q)"
  assumes "stage P s0 q (Some (h, b)) g w sc pr (s, q)"
  shows "lock_write_mutex (s, q) = (if h then (Blocked, (s, q)) else
      (Ok (), (s\<lparr>write_mutex_map := om_set c (True, b) (write_mutex_map s)\<rparr>, q)))"
    and "unlock_write_mutex (s, q) =
      (Ok (), (s\<lparr>write_mutex_map := om_set c (False, b) (write_mutex_map s)\<rparr>, q))"
    and "set_bad_connection_state (s, q) =
      (Ok (), (s\<lparr>write_mutex_map := om_set c (h, True) (write_mutex_map s)\<rparr>, q))"
    and "read_bad_connection_state (s, q) = (Ok b, (s, q))"
  by (simp_all add: lock_write_mutex_def unlock_write_mutex_def set_bad_connection_state_def
      read_bad_connection_state_def c_def mutex_run [OF assms(2)])

lemma stage_corrupt:
  "stage P s0 q (Some (h, b)) g w sc pr (s, q) \<Longrightarrow> b \<Longrightarrow> sc \<or> descriptor (request_identifier q) \<in> P"
  by (auto simp: stage_def server_upto_def closure_upto_def)

lemma step_lock [rstep]:
  assumes "\<not> h \<Longrightarrow> hoare_gen T (stage P s0 q (Some (True, b)) g w sc pr) m Q E"
  shows "hoare_gen T (stage P s0 q (Some (h, b)) g w sc pr) (and_then lock_write_mutex m) Q E"
proof (cases h)
  case True
  then have "lock_write_mutex (s, q) = (Blocked, (s, q))" if "stage P s0 q (Some (h, b)) g w sc pr (s, q)" for s
    using mutex_ops_run(1) [OF that] by simp
  then show ?thesis by (auto simp: hoare_def bind_def stage_def)
next
  case False
  show ?thesis
  proof (rule stage_update [OF _ assms [OF False]])
    fix s assume st: "stage P s0 q (Some (h, b)) g w sc pr (s, q)"
    show "lock_write_mutex (s, q) = (Ok (), (s\<lparr>write_mutex_map :=
          om_set (descriptor (request_identifier q)) (True, b) (write_mutex_map s)\<rparr>, q)) \<and>
        stage P s0 q (Some (True, b)) g w sc pr (s\<lparr>write_mutex_map :=
          om_set (descriptor (request_identifier q)) (True, b) (write_mutex_map s)\<rparr>, q)"
      using False stage_corrupt [OF st] by (intro conjI stage_mutex [OF st]) (auto simp: mutex_ops_run(1) [OF st])
  qed
qed

lemma step_unlock [rstep]:
  assumes "hoare_gen T (stage P s0 q (Some (False, b)) g w sc pr) m Q E" and "\<not> b \<Longrightarrow> \<not> g \<Longrightarrow> framed w"
  shows "hoare_gen T (stage P s0 q (Some (h, b)) g w sc pr) (and_then unlock_write_mutex m) Q E"
proof (rule stage_update [OF _ assms(1)])
  fix s assume st: "stage P s0 q (Some (h, b)) g w sc pr (s, q)"
  show "unlock_write_mutex (s, q) = (Ok (), (s\<lparr>write_mutex_map :=
        om_set (descriptor (request_identifier q)) (False, b) (write_mutex_map s)\<rparr>, q)) \<and>
      stage P s0 q (Some (False, b)) g w sc pr (s\<lparr>write_mutex_map :=
        om_set (descriptor (request_identifier q)) (False, b) (write_mutex_map s)\<rparr>, q)"
    using assms(2) stage_corrupt [OF st] by (intro conjI stage_mutex [OF st]) (auto simp: mutex_ops_run(2) [OF st])
qed

lemma stage_framed:
  "stage P s0 q (Some (False, False)) g w sc pr p \<Longrightarrow> \<not> g \<Longrightarrow> framed w"
  by (auto simp: stage_def server_upto_def framing_inv_def)

lemma lock_framed:
  assumes "\<not> h \<Longrightarrow> (\<not> b \<Longrightarrow> \<not> g \<Longrightarrow> framed w) \<Longrightarrow>
      hoare_gen T (stage P s0 q (Some (True, b)) g w sc pr) m Q E"
  shows "hoare_gen T (stage P s0 q (Some (h, b)) g w sc pr) (and_then lock_write_mutex m) Q E"
proof (rule hoare_facts)
  fix p assume p: "stage P s0 q (Some (h, b)) g w sc pr p"
  show "hoare_gen T (stage P s0 q (Some (h, b)) g w sc pr) (and_then lock_write_mutex m) Q E"
  proof (rule step_lock)
    assume h: "\<not> h"
    show "hoare_gen T (stage P s0 q (Some (True, b)) g w sc pr) m Q E"
      by (rule assms [OF h]) (use stage_framed p h in \<open>cases b; auto\<close>)
  qed
qed

lemma step_lock_guard [rstep]:
  assumes "\<not> h \<Longrightarrow> hoare_gen T (stage P s0 q (Some (False, b)) g w sc pr) m Q E"
  shows "hoare_gen T (stage P s0 q (Some (h, b)) g w sc pr) (and_then lock_guard_temporary m) Q E"
  unfolding lock_guard_temporary_def op_simps
proof (rule lock_framed)
  assume "\<not> h" and "\<not> b \<Longrightarrow> \<not> g \<Longrightarrow> framed w"
  then show "hoare_gen T (stage P s0 q (Some (True, b)) g w sc pr) (and_then unlock_write_mutex m) Q E"
    by (intro step_unlock assms)
qed

lemma step_unlock_last:
  assumes "\<And>p. stage P s0 q (Some (False, b)) g w sc pr p \<Longrightarrow> Q () p" and "b \<or> g \<or> framed w"
  shows "hoare_gen T (stage P s0 q (Some (h, b)) g w sc pr) unlock_write_mutex Q E"
proof -
  have "hoare_gen T (stage P s0 q (Some (h, b)) g w sc pr) (and_then unlock_write_mutex (ret ())) Q E"
    by (intro step_unlock step_ret assms(1)) (use assms(2) in auto)
  then show ?thesis by simp
qed

lemma step_set_bad_state [rstep]:
  assumes "hoare_gen T (stage (insert (descriptor (request_identifier q)) P) s0 q (Some (True, True)) g w sc pr) m Q E"
  shows "hoare_gen T (stage P s0 q (Some (True, b)) g w sc pr) (and_then set_bad_connection_state m) Q E"
proof (rule stage_update [OF _ assms])
  fix s assume st: "stage P s0 q (Some (True, b)) g w sc pr (s, q)"
  show "set_bad_connection_state (s, q) = (Ok (), (s\<lparr>write_mutex_map :=
        om_set (descriptor (request_identifier q)) (True, True) (write_mutex_map s)\<rparr>, q)) \<and>
      stage (insert (descriptor (request_identifier q)) P) s0 q (Some (True, True)) g w sc pr
        (s\<lparr>write_mutex_map := om_set (descriptor (request_identifier q)) (True, True) (write_mutex_map s)\<rparr>, q)"
    using stage_mutex [OF st, of "insert (descriptor (request_identifier q)) P" True True]
    by (auto simp: mutex_ops_run(3) [OF st])
qed

lemma step_read_bad [rstep]:
  assumes "hoare_gen T (stage P s0 q (Some (h, b)) g w sc pr) (f b) Q E"
  shows "hoare_gen T (stage P s0 q (Some (h, b)) g w sc pr) (bind read_bad_connection_state f) Q E"
  by (rule stage_first [where R = "\<lambda>x p. x = b \<and> stage P s0 q (Some (h, b)) g w sc pr p"])
     (use assms in \<open>auto simp: mutex_ops_run(4) hoare_def\<close>)

text \<open>Scheduling the closure, waking the interface, and the handler of a failure to do so.\<close>

lemma step_schedule_this [rstep]:
  assumes "hoare_gen T (stage P' s0 q M g w True pr) m Q E"
      and "P \<subseteq> insert (descriptor (request_identifier q)) P'" and "M \<noteq> None"
  shows "hoare_gen T (stage P s0 q M g w sc pr) (and_then schedule_this m) Q E"
proof (rule stage_update [OF _ assms(1)])
  fix s assume st: "stage P s0 q M g w sc pr (s, q)"
  let ?c = "descriptor (request_identifier q)"
  have "server_upto P' (schedule_closure ?c s)"
    by (rule server_upto_schedule [OF _ _ assms(2)]) (use st assms(3) in \<open>auto simp: stage_def keys_iff\<close>)
  moreover have "linked (schedule_closure ?c s) q = linked s q"
    by (simp add: linked_def schedule_closure_def)
  moreover have "request_step (request_identifier q) s0 (schedule_closure ?c s)"
    using st by (auto simp: stage_def request_step_def same_config_def schedule_closure_def)
  ultimately show "schedule_this (s, q) = (Ok (), (schedule_closure ?c s, q)) \<and>
      stage P' s0 q M g w True pr (schedule_closure ?c s, q)"
    using st by (auto simp: stage_def schedule_this_def assigned_def) (auto simp: schedule_closure_def)
qed

text \<open>
  What the write on the self-pipe does, in a state of a request: it returns, does not return, or
  throws; only the bytes in the pipe and \<open>errno\<close> change.
\<close>

lemma sys_write_byte_frame:
  "case sys_write_byte d x s of
     (Ok n, s') \<Rightarrow> \<exists>k. s' = s\<lparr>os := k\<rparr> \<and> open_fds k = open_fds (os s) \<and> queue k = queue (os s)
        \<and> peer_gone k = peer_gone (os s) \<and> (\<forall>e. e \<noteq> d \<longrightarrow> wire k e = wire (os s) e)
        \<and> (0 < n \<longrightarrow> wire k d = wire (os s) d @ [x])
   | (Blocked, s') \<Rightarrow> True
   | _ \<Rightarrow> False"
  by (auto simp: sys_write_byte_def Let_def split: option.splits answer.splits prod.splits
      intro: exI [of _ "os s"])

lemma pipe_write_cases:
  assumes "linked s q"
  obtains (blocked) s' where "InterfacePipeWrite (s, q) = (Blocked, s')"
    | (returns) k where "InterfacePipeWrite (s, q) = (Ok (), (s\<lparr>os := k\<rparr>, q)) \<or>
          InterfacePipeWrite (s, q) = (Throw LogicError, (s\<lparr>os := k\<rparr>, q))"
        "open_fds k = open_fds (os s)" "queue k = queue (os s)" "peer_gone k = peer_gone (os s)"
        "\<And>d. d \<noteq> self_pipe_write_descriptor s \<Longrightarrow> wire k d = wire (os s) d"
proof -
  have run: "InterfacePipeWrite (s, q) = bind (on_interface (sys_write_byte (self_pipe_write_descriptor s) 0))
      (\<lambda>write_return. if write_return \<le> 0 then throw LogicError else ret ()) (s, q)"
    using assms by (simp add: InterfacePipeWrite_def linked_def)
  note frame = sys_write_byte_frame [where d = "self_pipe_write_descriptor s" and x = 0 and s = s]
  show thesis
  proof (cases "sys_write_byte (self_pipe_write_descriptor s) 0 s")
    case (Pair out s')
    show thesis
    proof (cases out)
      case (Ok n)
      then obtain k where k: "s' = s\<lparr>os := k\<rparr>" "open_fds k = open_fds (os s)" "queue k = queue (os s)"
          "peer_gone k = peer_gone (os s)"
          "\<And>e. e \<noteq> self_pipe_write_descriptor s \<Longrightarrow> wire k e = wire (os s) e"
        using frame by (auto simp: Pair)
      show thesis
        by (rule returns [OF _ k(2-5)])
           (use assms in \<open>simp_all add: run bind_def Pair Ok k(1) ret_def throw_def\<close>)
    next
      case Blocked
      then show thesis using assms by (intro blocked) (simp add: run bind_def Pair)
    qed (use frame in \<open>simp_all add: Pair\<close>)
  qed
qed

lemma stage_os:
  assumes "stage P s0 q M g w sc pr (s, q)" and "M \<noteq> None"
      and "open_fds k = open_fds (os s)" "queue k = queue (os s)" "peer_gone k = peer_gone (os s)"
        "\<And>d. d \<noteq> self_pipe_write_descriptor s \<Longrightarrow> wire k d = wire (os s) d"
  shows "stage P s0 q M g w sc pr (s\<lparr>os := k\<rparr>, q)"
proof -
  have di: "descriptors_inv s" and up: "server_upto P s"
    using assms(1) by (simp_all add: stage_def server_upto_def books_inv_def)
  have not: "d \<noteq> self_pipe_write_descriptor s" if "om_find d (write_mutex_map s) \<noteq> None" for d
    using that by (intro connection_not_pipe [OF di]) (simp add: keys_iff)
  have "server_upto P (s\<lparr>os := k\<rparr>)"
    by (rule server_upto_os [OF up assms(3)]) (use assms(5,6) not in auto)
  moreover have "linked (s\<lparr>os := k\<rparr>) q = linked s q" by (simp add: linked_def)
  ultimately show ?thesis
    using assms not [of "descriptor (request_identifier q)"]
    by (auto simp: stage_def assigned_def request_step_def same_config_def)
qed

lemma step_pipe [rstep]:
  assumes "hoare_gen T (stage P s0 q M g w sc pr) (f ()) Q E"
      and "\<And>p. stage P s0 q M g w sc pr p \<Longrightarrow> E LogicError p" and "M \<noteq> None"
  shows "hoare_gen T (stage P s0 q M g w sc pr) (bind InterfacePipeWrite f) Q E"
proof (rule hoareI)
  fix p assume "stage P s0 q M g w sc pr p"
  then obtain s where p: "p = (s, q)" and st: "stage P s0 q M g w sc pr (s, q)"
    by (cases p) (auto simp: stage_def)
  then have "linked s q" by (simp add: stage_def)
  then show "case bind InterfacePipeWrite f p of
       (Ok x, s') \<Rightarrow> Q x s' | (Throw e, s') \<Rightarrow> E e s' | (Blocked, s') \<Rightarrow> True
     | (Terminate, s') \<Rightarrow> T | (Diverge, s') \<Rightarrow> T | (Undefined, s') \<Rightarrow> False"
  proof (cases rule: pipe_write_cases)
    case (returns k)
    have st': "stage P s0 q M g w sc pr (s\<lparr>os := k\<rparr>, q)" by (rule stage_os [OF st assms(3) returns(2-5)])
    from returns(1) show ?thesis
      using hoareD [OF assms(1) st'] assms(2) [OF st'] by (auto simp: p bind_def)
  qed (simp add: p bind_def)
qed

lemma step_pipe_last [rstep]:
  assumes "\<And>p. stage P s0 q M g w sc pr p \<Longrightarrow> Q () p"
      and "\<And>p. stage P s0 q M g w sc pr p \<Longrightarrow> E LogicError p" and "M \<noteq> None"
  shows "hoare_gen T (stage P s0 q M g w sc pr) InterfacePipeWrite Q E"
  using step_pipe [where f = ret and T = T] assms by (simp add: step_ret)

lemma handler_breaks:
  "hoare_gen True (stage P s0 q M g w sc pr)
     (and_then (on_interface (modify set_bad)) WakeOrTerminate) (\<lambda>_. broken s0 q) E"
proof (rule hoareI)
  fix p assume "stage P s0 q M g w sc pr p"
  then obtain s where p: "p = (s, q)" and st: "stage P s0 q M g w sc pr (s, q)"
    by (cases p) (auto simp: stage_def)
  have l: "linked (set_bad s) q" and l': "linked s q" using st by (auto simp: stage_def linked_def)
  from l show "case and_then (on_interface (modify set_bad)) WakeOrTerminate p of
       (Ok x, s') \<Rightarrow> broken s0 q s' | (Throw e, s') \<Rightarrow> E e s' | (Blocked, s') \<Rightarrow> True
     | (Terminate, s') \<Rightarrow> True | (Diverge, s') \<Rightarrow> True | (Undefined, s') \<Rightarrow> False"
  proof (cases rule: pipe_write_cases)
    case (returns k)
    have "descriptors_inv s" and step: "request_step (request_identifier q) s0 s"
      using st by (simp_all add: stage_def server_upto_def books_inv_def)
    then have "descriptors_inv ((set_bad s)\<lparr>os := k\<rparr>)"
      using returns(2) by (simp add: descriptors_inv_def)
    moreover have "request_step (request_identifier q) s ((set_bad s)\<lparr>os := k\<rparr>)"
      using returns(2-5) by (simp add: request_step_def same_config_def)
    moreover have "linked ((set_bad s)\<lparr>os := k\<rparr>) q" using l by (simp add: linked_def)
    ultimately have "broken s0 q ((set_bad s)\<lparr>os := k\<rparr>, q)"
      using request_step_trans [OF step] by (simp add: broken_def)
    then show ?thesis using returns(1) l'
      by (auto simp: p WakeOrTerminate_def try_catch_def bind_def)
  qed (use l' in \<open>simp add: p WakeOrTerminate_def try_catch_def bind_def\<close>)
qed

text \<open>Looking at the interface.\<close>

lemma step_exists [rstep]:
  "hoare_gen T (stage P s0 q M g w sc pr) (f True) Q E \<Longrightarrow>
     hoare_gen T (stage P s0 q M g w sc pr) (bind interface_exists f) Q E"
  by (auto simp: hoare_def stage_def interface_exists_def linked_def)

lemma step_is_bad [rstep]:
  "hoare_gen T (stage P s0 q M g w sc pr) (f False) Q E \<Longrightarrow>
     hoare_gen T (stage P s0 q M g w sc pr) (bind interface_is_bad f) Q E"
  by (auto simp: hoare_def stage_def interface_is_bad_def bind_def server_upto_def)

lemma step_scheduled [rstep]:
  "hoare_gen T (stage P s0 q M g w sc pr) (f sc) Q E \<Longrightarrow>
     hoare_gen T (stage P s0 q M g w sc pr)
       (bind (on_interface (gets (\<lambda>s. om_mem (descriptor (request_identifier q))
          (application_closure_request_set s)))) f) Q E"
  by (auto simp: hoare_def stage_def bind_def om_mem_keys)

text \<open>An assigned request knows whether its connection has been closed.\<close>

lemma assigned_connection:
  assumes "server_upto P s" and "om_find r (request_map s) = Some rd" and "request_status rd = kRequestAssigned"
  shows "connection_closed_by_interface rd \<longleftrightarrow> om_find (descriptor r) (write_mutex_map s) = None"
proof -
  have inv: "descriptors_inv s" "counts_inv s" "requests_inv s"
    using assms(1) by (simp_all add: server_upto_def books_inv_def)
  have "r \<in> keys (request_map s)" using assms(2) by (simp add: keys_iff)
  then have "descriptor r \<in> keys (request_count_map s)" using inv(2) by (auto simp: counts_inv_def)
  then have "descriptor r \<in> keys (write_mutex_map s) \<longleftrightarrow> descriptor r \<notin> keys (dummy_descriptor_set s)"
    using inv(1,2) by (auto simp: counts_inv_def descriptors_inv_def)
  moreover have "request_ok (descriptor r \<in> keys (dummy_descriptor_set s)) rd"
    using inv(3) assms(2) by (auto simp: requests_inv_def)
  ultimately show ?thesis
    by (simp add: request_ok_def om_find_None_keys split: if_splits)
qed

lemma step_deref_data:
  assumes "\<And>rd. request_status rd = kRequestAssigned \<Longrightarrow> connection_closed_by_interface rd = (M = None) \<Longrightarrow>
      hoare_gen T (\<lambda>p. stage P s0 q M g w sc True p \<and>
        om_find (request_identifier q) (request_map (fst p)) = Some rd) (f rd) Q E"
  shows "hoare_gen T (stage P s0 q M g w sc True) (bind deref_request_data f) Q E"
proof (rule hoareI)
  fix p assume "stage P s0 q M g w sc True p"
  then obtain s where p: "p = (s, q)" and st: "stage P s0 q M g w sc True (s, q)"
    by (cases p) (auto simp: stage_def)
  then obtain rd where rd: "om_find (request_identifier q) (request_map s) = Some rd"
      "request_status rd = kRequestAssigned" and up: "server_upto P s"
    by (auto simp: stage_def assigned_def)
  have "connection_closed_by_interface rd = (M = None)"
    using assigned_connection [OF up rd] st by (simp add: stage_def)
  from hoareD [OF assms [OF rd(2) this], of p] show "case bind deref_request_data f p of
       (Ok x, s') \<Rightarrow> Q x s' | (Throw e, s') \<Rightarrow> E e s' | (Blocked, s') \<Rightarrow> True
     | (Terminate, s') \<Rightarrow> T | (Diverge, s') \<Rightarrow> T | (Undefined, s') \<Rightarrow> False"
    using st rd(1)
    by (simp add: p deref_request_data_def stage_def request_data_def bind_def linked_def on_interface_def
        ret_def)
qed

lemma step_deref [rstep]:
  assumes "\<And>rd. connection_closed_by_interface rd = (M = None) \<Longrightarrow>
      hoare_gen T (stage P s0 q M g w sc True) (f rd) Q E"
  shows "hoare_gen T (stage P s0 q M g w sc True) (bind deref_request_data f) Q E"
  by (rule step_deref_data) (rule hoare_pre [OF assms]; simp)

lemma step_remove_on_throw [rstep]:
  assumes "hoare_gen T (stage P s0 q M g w sc False) m Q E"
  shows "hoare_gen T (stage P s0 q M g w sc True) (and_then (on_throw remove_this handler) m) Q E"
proof (rule hoare_bind)
  show "hoare_gen T (stage P s0 q M g w sc True) (on_throw remove_this handler)
      (\<lambda>_. stage P s0 q M g w sc False) E"
  proof (rule hoare_on_throw)
    show "hoare_gen T (stage P s0 q M g w sc True) remove_this (\<lambda>_. stage P s0 q M g w sc False)
        (\<lambda>_ _. False)"
      using step_remove_this [where m = "ret ()" and T = T] by (simp add: step_ret)
    show "hoare_gen T (\<lambda>_. False) handler (\<lambda>_. E e) E" for e by (simp add: hoare_def)
  qed
qed (rule assms)

lemma step_remove_waking [rstep]:
  "hoare_gen T (stage P s0 q M g w sc False) m Q E \<Longrightarrow>
     hoare_gen T (stage P s0 q M g w sc True) (and_then remove_this_waking m) Q E"
  unfolding remove_this_waking_def by (rule step_remove_on_throw)

lemma stage_shrink:
  "stage P' s0 q M g w True pr p \<Longrightarrow> P' \<subseteq> insert (descriptor (request_identifier q)) P \<Longrightarrow>
     stage P s0 q M g w True pr p"
  by (auto simp: stage_def server_upto_def closure_upto_def)

lemma step_last [rstep]:
  "(\<And>s. stage P s0 q M g w sc pr (s, q) \<Longrightarrow> Q (x q) (s, q)) \<Longrightarrow> hoare_gen T (stage P s0 q M g w sc pr) (this x) Q E"
  by (auto simp: hoare_def stage_def)

section \<open>An example\<close>

text \<open>The request of the example interface, as an object of the application.\<close>

definition example_request :: "bool \<Rightarrow> FcgiRequest" where
  "example_request close = \<lparr> associated_interface_id = 1, interface_ptr = True,
     request_identifier = FcgiRequestIdentifier 7 1,
     request_data_ptr = Some (FcgiRequestIdentifier 7 1), write_mutex_ptr = Some 7,
     bad_connection_state_ptr = Some 7, interface_pipe_write_descriptor = 5,
     request_environment_map = [], request_stdin_content = [], request_data_content = [],
     request_role = FCGI_RESPONDER, request_close_connection = close, was_aborted = False,
     completed = False \<rparr>"

lemma example_server_inv: "server_inv (example_interface st as)"
proof -
  have "framing_inv (example_interface st as)"
    by (auto simp: framing_inv_def framed_def example_interface_def intro: exI [of _ "[]"])
  then show ?thesis using example_interface_inv [of st as]
    by (simp add: server_inv_def limits_inv_def reading_inv_def status_ok_new)
       (simp add: example_interface_def)
qed

lemma example_any: "server_any {} (example_interface st as)"
  by (rule server_upto_any) (simp add: server_upto_none example_server_inv)

lemma example_request_valid: "request_valid (example_interface kRequestAssigned as) (example_request close)"
  by (simp add: request_valid_def linked_def assigned_def example_request_def example_interface_def)

lemma example_request_simps [simp]:
  "\<not> completed (example_request close)" "associated_interface_id (example_request close) = 1"
  "request_identifier (example_request close) = FcgiRequestIdentifier 7 1"
  "request_close_connection (example_request close) = close"
  "\<not> was_aborted (example_request close)"
  by (simp_all add: example_request_def)

end
