(* ===== verification/Request_Safety.thy ===== *)
theory Request_Safety
  imports Request_Rules
begin

text \<open>
  The correctness of the operations of \<open>FcgiRequest\<close>: what each does to the request, to the
  interface and to the bytes on the connection, on every path, and that no operation on a valid
  request uses a dangling pointer.
\<close>

section \<open>The check before a write\<close>

lemma check_stage:
  "hoare_gen T (stage P s0 q M g w sc True) InterfaceStateCheckForWritingUponMutexAcquisition
     (\<lambda>go p. if go then M \<noteq> None \<and> \<not> sc \<and> stage P s0 q M g w False True p
             else (M = None \<or> sc) \<and> stage P s0 (finish q) M g w sc False p) E"
  unfolding InterfaceStateCheckForWritingUponMutexAcquisition_def if_False if_True not_True_eq_False
  by (intro rstep step | simp)+

section \<open>The sections of a write\<close>

lemma lock_section:
  "hoare_gen T (stage P s0 q (Some (h, b)) g w sc True)
     (and_then lock_write_mutex
       (bind read_bad_connection_state (\<lambda>bad.
          if bad
          then and_then (set_this finish)
            (and_then (on_throw remove_this unlock_write_mutex)
               (and_then unlock_write_mutex (ret False)))
          else ret True)))
     (\<lambda>go p. if go then (g \<or> framed w) \<and> stage P s0 q (Some (True, False)) g w sc True p
             else stage P s0 (finish q) (Some (False, True)) g w sc False p) E"
  by (intro lock_framed rstep step) auto

lemma begin_section:
  "hoare_gen T (\<lambda>p. stage P s0 q M g w sc True p \<and> (held \<longrightarrow> M \<noteq> None \<and> \<not> sc)) (BeginWrite held)
     (\<lambda>go p. if go then (g \<or> framed w) \<and> stage P s0 q (Some (True, False)) g w False True p
             else \<exists>M'. stage P s0 (finish q) M' g w sc False p) E"
  unfolding BeginWrite_def
proof (rule hoare_bind)
  let ?R = "\<lambda>go p. if go then M \<noteq> None \<and> \<not> sc \<and> stage P s0 q M g w False True p
             else (M = None \<or> sc) \<and> stage P s0 (finish q) M g w sc False p"
  show "hoare_gen T (\<lambda>p. stage P s0 q M g w sc True p \<and> (held \<longrightarrow> M \<noteq> None \<and> \<not> sc))
      (if held then ret True else InterfaceStateCheckForWritingUponMutexAcquisition) ?R E"
    using check_stage [of T P s0 q M g w sc E] by (cases held) (auto simp: step_ret hoare_def)
  show "hoare_gen T (?R go)
      (if \<not> go then ret False
       else and_then lock_write_mutex
         (bind read_bad_connection_state (\<lambda>bad.
            if bad
            then and_then (set_this finish)
              (and_then (on_throw remove_this unlock_write_mutex)
                 (and_then unlock_write_mutex (ret False)))
            else ret True)))
      (\<lambda>go p. if go then (g \<or> framed w) \<and> stage P s0 q (Some (True, False)) g w False True p
             else \<exists>M'. stage P s0 (finish q) M' g w sc False p) E" for go
  proof (cases "go \<and> M \<noteq> None \<and> \<not> sc")
    case True
    then obtain h b where "M = Some (h, b)" by (cases M) auto
    with True show ?thesis
      by (auto intro!: hoare_weaken [OF lock_section [of T P s0 q h b g w False]])
  qed (auto simp: hoare_def)
qed

text \<open>The write itself: a prefix of the content is sent, and all of it unless it fails.\<close>

definition sent_part :: "bytes \<Rightarrow> write_end \<Rightarrow> bytes" where
  "sent_part content e = take (length content - unwritten e) content"

definition write_end_ok :: "bytes \<Rightarrow> write_end \<Rightarrow> bool" where
  "write_end_ok content e \<longleftrightarrow> unwritten e \<le> length content \<and> (e \<noteq> All_written \<longrightarrow> 0 < unwritten e)"

lemma write_section:
  assumes "iovs_ok iovs m" and "number = iov_total (take m iovs)"
  shows "hoare_gen T (stage P s0 q (Some (True, False)) g w sc True) (WriteRecords iovs (int m) number)
    (\<lambda>e p. write_end_ok (iov_content (take m iovs)) e
       \<and> stage P s0 q (Some (True, False)) (g \<or> peer_closed e)
           (w @ sent_part (iov_content (take m iovs)) e) sc True p) E"
proof (rule hoareI)
  fix p assume "stage P s0 q (Some (True, False)) g w sc True p"
  then obtain s where p: "p = (s, q)" and st: "stage P s0 q (Some (True, False)) g w sc True (s, q)"
    by (cases p) (auto simp: stage_def)
  let ?c = "descriptor (request_identifier q)" and ?content = "iov_content (take m iovs)"
  have l: "linked s q" and up: "server_upto P s" using st by (simp_all add: stage_def)
  have post: "write_post ?content []
      (WriteRecordsLoop iovs (int m) number (errno (os s)) [] (script (os s)))"
    by (rule WriteRecordsLoop_post [OF assms refl])
  show "case WriteRecords iovs (int m) number p of
       (Ok e, s') \<Rightarrow> write_end_ok ?content e \<and> stage P s0 q (Some (True, False)) (g \<or> peer_closed e)
           (w @ sent_part ?content e) sc True s'
     | (Throw e, s') \<Rightarrow> E e s' | (Blocked, s') \<Rightarrow> True
     | (Terminate, s') \<Rightarrow> T | (Diverge, s') \<Rightarrow> T | (Undefined, s') \<Rightarrow> False"
  proof (cases "WriteRecordsLoop iovs (int m) number (errno (os s)) [] (script (os s))")
    case WR_out_of_bounds
    then show ?thesis using post by (simp add: write_post_def)
  next
    case WR_no_return
    then show ?thesis using l by (simp add: p WriteRecords_def Let_def)
  next
    case (WR_end e err sent as)
    let ?k = "(os s)\<lparr>errno := err, script := as, wire := (wire (os s))(?c := wire (os s) ?c @ sent),
        peer_gone := (peer_gone (os s))(?c := peer_gone (os s) ?c \<or> peer_closed e)\<rparr>"
    have "server_upto P (s\<lparr>os := ?k\<rparr>)"
      by (rule server_upto_os [OF up]) (use st in \<open>auto simp: stage_def\<close>)
    moreover have "linked (s\<lparr>os := ?k\<rparr>) q" using l by (simp add: linked_def)
    moreover have "sent = sent_part ?content e" "write_end_ok ?content e"
      using post by (simp_all add: write_post_def WR_end sent_part_def write_end_ok_def)
    ultimately show ?thesis using st l
      by (simp add: p WriteRecords_def Let_def WR_end stage_def assigned_def request_step_def
          same_config_def)
  qed
qed

text \<open>The end of the request after a failed write.\<close>

lemma add_locked:
  assumes "P' \<subseteq> insert (descriptor (request_identifier q)) P" and "force \<or> P' = P"
  shows "hoare_gen True (stage P' s0 q (Some (False, b)) g w sc True)
     (on_throw
       (and_then (set_this finish)
       (and_then remove_this
       (bind (this request_close_connection) (\<lambda>close.
        and_then
          (when_then (force \<or> close)
             (and_then lock_write_mutex
                (and_then (on_throw (and_then schedule_this InterfacePipeWrite) unlock_write_mutex)
                   unlock_write_mutex)))
          (ret True)))))
       (and_then (on_interface (modify set_bad)) WakeOrTerminate))
     (\<lambda>_. stage P s0 (finish q) (Some (False, b)) g w (sc \<or> force \<or> request_close_connection q) False)
     (\<lambda>_. broken s0 (finish q))"
proof (rule hoare_on_throw)
  let ?q = "finish q"
  let ?done = "stage P s0 ?q (Some (False, b)) g w True False"
  have pipe: "hoare_gen True (stage P' s0 ?q (Some (True, b)) g w sc False)
      (on_throw (and_then schedule_this InterfacePipeWrite) unlock_write_mutex)
      (\<lambda>_. stage P s0 ?q (Some (True, b)) g w True False) (\<lambda>_. ?done)" if "b \<or> g \<or> framed w"
  proof (rule hoare_on_throw)
    show "hoare_gen True (stage P' s0 ?q (Some (True, b)) g w sc False)
        (and_then schedule_this InterfacePipeWrite)
        (\<lambda>_. stage P s0 ?q (Some (True, b)) g w True False)
        (\<lambda>_. stage P s0 ?q (Some (True, b)) g w True False)"
      by (intro rstep) (use assms in auto)
    show "hoare_gen True (stage P s0 ?q (Some (True, b)) g w True False) unlock_write_mutex (\<lambda>_. ?done)
        (\<lambda>_. ?done)" for e
      by (rule step_unlock_last [OF _ that])
  qed
  show "hoare_gen True (stage P' s0 q (Some (False, b)) g w sc True)
       (and_then (set_this finish)
       (and_then remove_this
       (bind (this request_close_connection) (\<lambda>close.
        and_then
          (when_then (force \<or> close)
             (and_then lock_write_mutex
                (and_then (on_throw (and_then schedule_this InterfacePipeWrite) unlock_write_mutex)
                   unlock_write_mutex)))
          (ret True)))))
     (\<lambda>_. stage P s0 ?q (Some (False, b)) g w (sc \<or> force \<or> request_close_connection q) False) (\<lambda>_. ?done)"
  proof (cases "force \<or> request_close_connection q")
    case True
    have locked: "hoare_gen True (stage P' s0 ?q (Some (False, b)) g w sc False)
        (and_then lock_write_mutex
           (and_then (on_throw (and_then schedule_this InterfacePipeWrite) unlock_write_mutex)
              unlock_write_mutex)) (\<lambda>_. ?done) (\<lambda>_. ?done)"
    proof (rule lock_framed)
      assume "\<not> b \<Longrightarrow> \<not> g \<Longrightarrow> framed w"
      then have fr: "b \<or> g \<or> framed w" by blast
      show "hoare_gen True (stage P' s0 ?q (Some (True, b)) g w sc False)
          (and_then (on_throw (and_then schedule_this InterfacePipeWrite) unlock_write_mutex)
             unlock_write_mutex) (\<lambda>_. ?done) (\<lambda>_. ?done)"
        by (rule hoare_bind [OF step_unlock_last [OF _ fr] pipe [OF fr]])
    qed
    have c: "force \<or> request_close_connection ?q" using True by simp
    have main: "hoare_gen True (stage P' s0 ?q (Some (False, b)) g w sc False)
        (and_then (when_then (force \<or> request_close_connection ?q)
             (and_then lock_write_mutex
                (and_then (on_throw (and_then schedule_this InterfacePipeWrite) unlock_write_mutex)
                   unlock_write_mutex)))
          (ret True))
        (\<lambda>_. stage P s0 ?q (Some (False, b)) g w (sc \<or> force \<or> request_close_connection q) False) (\<lambda>_. ?done)"
      unfolding when_then_def if_P [OF c]
      by (rule hoare_bind [OF step_ret locked]) (use True in auto)
    show ?thesis by (intro step_set_this step_remove_this step_this main) simp_all
  next
    case False
    then have c: "\<not> (force \<or> request_close_connection ?q)" by simp
    show ?thesis
      by (intro step_set_this step_remove_this step_this,
          unfold when_then_def if_not_P [OF c] op_simps, rule step_ret)
         (use False assms(2) in auto)
  qed
qed (rule handler_breaks)

lemma add_section:
  assumes "P' \<subseteq> insert (descriptor (request_identifier q)) P" and "force \<or> P' = P"
  shows "hoare_gen True (\<lambda>p. stage P' s0 q (Some (False, b)) g w sc True p)
     (TryToAddToApplicationClosureRequestSet held force)
     (\<lambda>_. stage P s0 (finish q) (Some (False, b)) g w (sc \<or> force \<or> request_close_connection q) False)
     (\<lambda>_. broken s0 (finish q))"
  unfolding TryToAddToApplicationClosureRequestSet_def
proof (rule hoare_bind)
  let ?R = "\<lambda>go p. if go then stage P' s0 q (Some (False, b)) g w sc True p
             else sc \<and> stage P' s0 (finish q) (Some (False, b)) g w sc False p"
  let ?Q = "\<lambda>_. stage P s0 (finish q) (Some (False, b)) g w (sc \<or> force \<or> request_close_connection q) False"
  show "hoare_gen True (stage P' s0 q (Some (False, b)) g w sc True)
      (if held then ret True else InterfaceStateCheckForWritingUponMutexAcquisition) ?R
      (\<lambda>_. broken s0 (finish q))"
  proof (cases held)
    case False
    show ?thesis unfolding if_not_P [OF False] by (rule hoare_weaken [OF check_stage]) auto
  qed (simp only: if_True, rule step_ret, simp)
  show "hoare_gen True (?R go) (if \<not> go then ret False else on_throw
       (and_then (set_this finish)
       (and_then remove_this
       (bind (this request_close_connection) (\<lambda>close.
        and_then
          (when_then (force \<or> close)
             (and_then lock_write_mutex
                (and_then (on_throw (and_then schedule_this InterfacePipeWrite) unlock_write_mutex)
                   unlock_write_mutex)))
          (ret True)))))
       (and_then (on_interface (modify set_bad)) WakeOrTerminate)) ?Q (\<lambda>_. broken s0 (finish q))" for go
  proof (cases go)
    case False
    then show ?thesis
      using stage_shrink [of P' s0 "finish q" "Some (False, b)" g w False _ P] assms(1)
      by (simp only: not_False_eq_True if_True if_False) (rule step_ret; auto)
  qed (use add_locked [OF assms] in simp)
qed

text \<open>
  What is known after a write that has not sent everything: the request is completed, aborted and
  removed, and a prefix of the content has been sent.
\<close>

definition cut_off :: "fd set \<Rightarrow> interface \<Rightarrow> FcgiRequest \<Rightarrow> bytes \<Rightarrow> bytes \<Rightarrow> interface \<times> FcgiRequest \<Rightarrow> bool" where
  "cut_off P s0 q w content p \<longleftrightarrow> (\<exists>M g sc n. stage P s0 (finish q) M g (w @ take n content) sc False p)"

lemma end_section:
  assumes "write_end_ok content e" and "g \<or> framed w" and "framed w \<Longrightarrow> framed (w @ content)"
      and number: "number = length content"
  shows "hoare_gen True
     (stage P s0 q (Some (True, False)) (g \<or> peer_closed e) (w @ sent_part content e) sc True)
     (EndWrite held number e)
     (\<lambda>success p. if success then stage P s0 q (Some (False, False)) g (w @ content) sc True p
                  else cut_off P s0 q w content p)
     (\<lambda>_ p. broken s0 (finish q) p \<or> cut_off P s0 q w content p)"
proof -
  let ?c = "descriptor (request_identifier q)" and ?q = "finish q"
  have cut: "cut_off P s0 q w content p" if "stage P s0 ?q M g' (w @ sent_part content e) sc' False p"
    for M g' sc' p
    using that by (auto simp: cut_off_def sent_part_def)
  let ?Q = "\<lambda>success p. if success then stage P s0 q (Some (False, False)) g (w @ content) sc True p
                  else cut_off P s0 q w content p"
  let ?E = "\<lambda>(_ :: exn) p. broken s0 ?q p \<or> cut_off P s0 q w content p"
  have add: "hoare_gen True (stage P' s0 q (Some (False, b)) g' (w @ sent_part content e) sc True)
      (bind (TryToAddToApplicationClosureRequestSet held force) (\<lambda>_. m)) ?Q ?E"
    if "P' \<subseteq> insert ?c P" "force \<or> P' = P" "m = ret False \<or> m = throw_system_error" for P' b g' force m
  proof (rule hoare_bind)
    show "hoare_gen True (stage P' s0 q (Some (False, b)) g' (w @ sent_part content e) sc True)
        (TryToAddToApplicationClosureRequestSet held force) (\<lambda>_. cut_off P s0 q w content) ?E"
      by (rule hoare_weaken [OF add_section [OF that(1,2)]]) (auto intro: cut)
    show "hoare_gen True (cut_off P s0 q w content) m ?Q ?E" for x :: bool
      using that(3) by (auto simp: hoare_def ret_def throw_system_error_def throw_def)
  qed
  have mark: "hoare_gen True (stage P s0 q (Some (True, False)) g' (w @ sent_part content e) sc True)
      (and_then (when_then (n < number) set_bad_connection_state)
        (and_then unlock_write_mutex (bind (TryToAddToApplicationClosureRequestSet held True) (\<lambda>_. m)))) ?Q ?E"
    if n: "unwritten e = n" "e \<noteq> All_written" and m: "m = ret False \<or> m = throw_system_error"
      and g': "g' = g" for n m g'
  proof (cases "n < number")
    case True
    show ?thesis unfolding when_then_def if_P [OF True]
      by (intro step_set_bad_state step_unlock add) (use m in auto)
  next
    case False
    then have "sent_part content e = []"
      using n assms(1) number by (simp add: sent_part_def)
    then have "\<not> g' \<Longrightarrow> framed (w @ sent_part content e)" using assms(2) g' by auto
    then show ?thesis unfolding when_then_def if_not_P [OF False] op_simps
      by (intro step_unlock add) (use m in auto)
  qed
  show ?thesis
  proof (cases e)
    case All_written
    then have "sent_part content e = content" by (simp add: sent_part_def)
    then show ?thesis using assms(2,3)
      by (simp only: EndWrite_def Let_def All_written write_end.case) (intro step_unlock step_ret; auto)
  next
    case (Peer_closed n)
    then show ?thesis
      by (simp only: EndWrite_def Let_def write_end.case) (intro step_unlock add [unfolded Peer_closed]; auto)
  next
    case (Timed_out n)
    then show ?thesis
      by (simp only: EndWrite_def Let_def write_end.case) (rule mark [unfolded Timed_out]; simp)
  next
    case (Select_failed n)
    then show ?thesis
      by (simp only: EndWrite_def Let_def write_end.case) (rule mark [unfolded Select_failed]; simp)
  next
    case (Write_failed n)
    then show ?thesis
      by (simp only: EndWrite_def Let_def write_end.case) (rule mark [unfolded Write_failed]; simp)
  qed
qed

lemma scatter_section:
  assumes "iovs_ok iovs m" and "number = iov_total (take m iovs)" and "content = iov_content (take m iovs)"
      and "framed w \<Longrightarrow> framed (w @ content)"
  shows "hoare_gen True (\<lambda>p. stage P s0 q M g w sc True p \<and> (held \<longrightarrow> M \<noteq> None \<and> \<not> sc))
     (ScatterGatherWriteHelper iovs (int m) number held)
     (\<lambda>success p. if success then stage P s0 q (Some (False, False)) g (w @ content) False True p
                  else cut_off P s0 q w content p)
     (\<lambda>_ p. broken s0 (finish q) p \<or> cut_off P s0 q w content p)"
  unfolding ScatterGatherWriteHelper_def
proof (rule hoare_bind [OF _ begin_section])
  let ?E = "\<lambda>(_ :: exn) p. broken s0 (finish q) p \<or> cut_off P s0 q w content p"
  let ?Q = "\<lambda>success p. if success then stage P s0 q (Some (False, False)) g (w @ content) False True p
                  else cut_off P s0 q w content p"
  have none: "cut_off P s0 q w content p" if "stage P s0 (finish q) M' g w sc False p" for M' p
    unfolding cut_off_def using that by (intro exI [of _ M'] exI [of _ g] exI [of _ sc] exI [of _ 0]) simp
  fix go
  show "hoare_gen True (\<lambda>p. if go then (g \<or> framed w) \<and> stage P s0 q (Some (True, False)) g w False True p
      else \<exists>M'. stage P s0 (finish q) M' g w sc False p)
      (if \<not> go then ret False else bind (WriteRecords iovs (int m) number) (EndWrite held number)) ?Q ?E"
  proof (cases go)
    case False
    then show ?thesis by (simp only: if_False not_False_eq_True if_True) (rule step_ret, auto intro: none)
  next
    case True
    have number: "number = length content"
      using assms(2,3) length_iov_content [OF assms(1)] by simp
    have "hoare_gen True (stage P s0 q (Some (True, False)) g w False True)
        (bind (WriteRecords iovs (int m) number) (EndWrite held number)) ?Q ?E" if fr: "g \<or> framed w"
    proof (rule hoare_bind [OF _ write_section [OF assms(1,2)]])
      fix e
      show "hoare_gen True (\<lambda>p. write_end_ok (iov_content (take m iovs)) e
          \<and> stage P s0 q (Some (True, False)) (g \<or> peer_closed e)
              (w @ sent_part (iov_content (take m iovs)) e) False True p)
          (EndWrite held number e) ?Q ?E"
        using end_section [OF _ fr assms(4) number, of e P s0 q False held]
        by (auto simp: hoare_def assms(3))
    qed
    with True show ?thesis by (auto simp: hoare_def)
  qed
qed

section \<open>Completion\<close>

abbreviation close_helper :: "unit rop" where
  "close_helper \<equiv> on_throw
     (and_then lock_guard_temporary (and_then schedule_this InterfacePipeWrite))
     (and_then (on_interface (modify set_bad)) WakeOrTerminate)"

lemma close_step:
  "hoare_gen True (stage P s0 q (Some (False, b)) g w sc False) close_helper
     (\<lambda>_. stage P s0 q (Some (False, b)) g w True False) (\<lambda>_. broken s0 q)"
proof (rule hoare_on_throw [OF _ handler_breaks])
  show "hoare_gen True (stage P s0 q (Some (False, b)) g w sc False)
     (and_then lock_guard_temporary (and_then schedule_this InterfacePipeWrite))
     (\<lambda>_. stage P s0 q (Some (False, b)) g w True False)
     (\<lambda>_. stage P s0 q (Some (False, b)) g w True False)"
    by (intro rstep) auto
qed

text \<open>The bytes of the end of a request are three records.\<close>

lemma end_content_records:
  "header_and_end_content r a p = concat
     [record_bytes kFCGI_STDOUT (Fcgi_id r) [], record_bytes kFCGI_STDERR (Fcgi_id r) [],
      record_bytes kFCGI_END_REQUEST (Fcgi_id r) (app_status_bytes a @ [p, 0, 0, 0])]"
proof -
  have "replicate 3 0 = [0, 0, 0 :: byte]" by (simp add: numeral_eq_Suc)
  moreover have "length (app_status_bytes a) = 4" by (simp add: app_status_bytes_def)
  ultimately show ?thesis by (simp add: header_and_end_content_def record_bytes_def padding_for_def)
qed

lemma framed_concat:
  "framed w \<Longrightarrow> \<forall>r \<in> set rs. \<exists>t i content. record_with t i content r \<Longrightarrow> framed (w @ concat rs)"
proof (induction rs arbitrary: w)
  case (Cons r rs)
  then obtain t i content where "record_with t i content r" by auto
  from framed_append [OF Cons.prems(1) this] Cons.IH [of "w @ r"] Cons.prems(2) show ?case by simp
qed simp

lemma framed_end_content: "framed w \<Longrightarrow> framed (w @ header_and_end_content r a p)"
  unfolding end_content_records
  by (rule framed_concat)
     (auto simp: app_status_bytes_def intro!: exI record_bytes_is_record)

lemma length_end_content: "length (header_and_end_content r a p) = 32"
  by (simp add: header_and_end_content_def app_status_bytes_def)

lemma end_request_stage:
  fixes a p q
  defines "content \<equiv> header_and_end_content (request_identifier q) a p"
  assumes "\<not> completed q" and "\<not> null_request q"
  shows "hoare_gen True (stage P s0 q M g w sc True) (EndRequestHelper a p)
     (\<lambda>success t. if success
        then stage P s0 (q\<lparr>completed := True\<rparr>) (Some (False, False)) g (w @ content)
               (request_close_connection q) False t
        else cut_off P s0 q w content t)
     (\<lambda>_ t. broken s0 (finish q) t \<or> broken s0 (q\<lparr>completed := True\<rparr>) t \<or> cut_off P s0 q w content t)"
    (is "hoare_gen True _ _ ?Q ?E")
proof -
  have none: "cut_off P s0 q w content t" if "stage P s0 (finish q) M' g w sc False t" for M' t
    unfolding cut_off_def using that by (intro exI [of _ M'] exI [of _ g] exI [of _ sc] exI [of _ 0]) simp
  have iovs: "iovs_ok [(content, 32)] 1" "32 = iov_total (take 1 [(content, 32)])"
      "content = iov_content (take 1 [(content, 32)])"
    by (simp_all add: content_def length_end_content iovs_ok_def iov_total_def iov_content_def)
  have fr: "framed w \<Longrightarrow> framed (w @ content)" unfolding content_def by (rule framed_end_content)
  note written = scatter_section [OF iovs fr, where M = M and sc = False and held = True]
  let ?q = "q\<lparr>completed := True\<rparr>"
  let ?tail = "and_then (set_this (\<lambda>q. q\<lparr>completed := True\<rparr>)) (and_then remove_this_waking
      (bind (this request_close_connection) (\<lambda>close.
         and_then (when_then close close_helper) (ret True))))"
  have tail: "hoare_gen True (stage P s0 q (Some (False, False)) g (w @ content) False True) ?tail ?Q ?E"
  proof (intro step_set_this step_remove_waking step_this)
    show "hoare_gen True (stage P s0 ?q (Some (False, False)) g (w @ content) False False)
        (and_then (when_then (request_close_connection ?q) close_helper) (ret True)) ?Q ?E"
    proof (cases "request_close_connection ?q")
      case True
      show ?thesis unfolding when_then_def if_P [OF True]
        by (rule hoare_bind [where R = "\<lambda>_. stage P s0 ?q (Some (False, False)) g (w @ content) True False",
              OF step_ret hoare_weaken [OF close_step]]) (use True in auto)
    next
      case False
      show ?thesis unfolding when_then_def if_not_P [OF False] op_simps
        by (rule step_ret) (use False in auto)
    qed
  qed (simp_all add: linked_def)
  have after_check: "hoare_gen True (\<lambda>t. if go then M \<noteq> None \<and> \<not> sc \<and> stage P s0 q M g w False True t
             else (M = None \<or> sc) \<and> stage P s0 (finish q) M g w sc False t)
      (if \<not> go then ret False
       else bind (ScatterGatherWriteHelper [(content, 32)] 1 32 True) (\<lambda>write_return.
         if \<not> write_return then ret False else ?tail)) ?Q ?E" for go
  proof (cases "go \<and> M \<noteq> None \<and> \<not> sc")
    case True
    have "hoare_gen True (\<lambda>t. stage P s0 q M g w False True t \<and> (True \<longrightarrow> M \<noteq> None \<and> \<not> False))
        (bind (ScatterGatherWriteHelper [(content, 32)] (int 1) 32 True) (\<lambda>write_return.
           if \<not> write_return then ret False else ?tail)) ?Q ?E"
    proof (rule hoare_bind [OF _ hoare_weaken [OF written]])
      show "hoare_gen True (\<lambda>t. if ok then stage P s0 q (Some (False, False)) g (w @ content) False True t
          else cut_off P s0 q w content t) (if \<not> ok then ret False else ?tail) ?Q ?E" for ok
        using tail by (cases ok) (auto simp: hoare_def)
    qed (use True in auto)
    with True show ?thesis by (simp add: hoare_def)
  next
    case False
    then show ?thesis by (auto simp: hoare_def intro: none)
  qed
  have "\<not> (completed q \<or> null_request q)" using assms(2,3) by simp
  then show ?thesis unfolding EndRequestHelper_def
    by (intro step_this, simp only: if_False content_def)
       (rule step_this, rule hoare_bind [OF after_check [unfolded content_def] check_stage])
qed

text \<open>The start of an operation on a request that is neither null nor completed.\<close>

lemma request_start:
  assumes "server_any P s" and "request_valid s q" and "\<not> completed q" and "\<not> null_request q"
  obtains (gone) "interface_ptr q"
        "\<not> (interface_identifier s = associated_interface_id q \<and> \<not> bad_interface_state_detected s)"
    | (live) "stage P s q (om_find (descriptor (request_identifier q)) (write_mutex_map s))
        (peer_gone (os s) (descriptor (request_identifier q)))
        (wire (os s) (descriptor (request_identifier q)))
        (descriptor (request_identifier q) \<in> keys (application_closure_request_set s)) True (s, q)"
  using assms by (auto simp: request_valid_def stage_def server_any_def)

lemma check_gone:
  assumes "interface_ptr q"
      and "\<not> (interface_identifier s = associated_interface_id q \<and> \<not> bad_interface_state_detected s)"
  shows "InterfaceStateCheckForWritingUponMutexAcquisition (s, q) = (Ok False, (s, finish q))"
  using assms
  by (auto simp: InterfaceStateCheckForWritingUponMutexAcquisition_def interface_exists_def
      interface_is_bad_def on_interface_def bind_def gets_def modify_def ret_def)

lemma gone_ended:
  assumes "server_any P s"
      and "\<not> (interface_identifier s = associated_interface_id q \<and> \<not> bad_interface_state_detected s)"
  shows "ended P s (finish q) (s, finish q)"
  using assms by (auto simp: ended_def)

lemma cut_off_ended:
  assumes "cut_off P s0 q w content (s, q')"
  shows "q' = finish q \<and> ended P s0 (finish q) (s, finish q)
     \<and> (\<exists>n. wire (os s) (descriptor (request_identifier q)) = w @ take n content)"
  using assms stage_ended by (fastforce simp: cut_off_def stage_def)

lemma EndRequest_step:
  fixes q a p
  defines "r \<equiv> request_identifier q"
  assumes "server_any P s" and "request_valid s q" and "\<not> completed q" and "\<not> null_request q"
  shows "case EndRequestHelper a p (s, q) of
       (Ok True, (s', q')) \<Rightarrow> q' = q\<lparr>completed := True\<rparr> \<and> server_upto P s' \<and> request_step r s s'
         \<and> r \<notin> keys (request_map s')
         \<and> wire (os s') (descriptor r) = wire (os s) (descriptor r)
             @ record_bytes kFCGI_STDOUT (Fcgi_id r) [] @ record_bytes kFCGI_STDERR (Fcgi_id r) []
             @ record_bytes kFCGI_END_REQUEST (Fcgi_id r) (app_status_bytes a @ [p, 0, 0, 0])
         \<and> (descriptor r \<in> keys (application_closure_request_set s') \<longleftrightarrow> request_close_connection q)
     | (Ok False, (s', q')) \<Rightarrow> q' = finish q \<and> ended P s (finish q) (s', q')
         \<and> (\<exists>n. wire (os s') (descriptor r)
                 = wire (os s) (descriptor r) @ take n (header_and_end_content r a p))
     | (Throw e, (s', q')) \<Rightarrow> (q' = finish q \<or> q' = q\<lparr>completed := True\<rparr>) \<and> ended P s q' (s', q')
     | (Undefined, _) \<Rightarrow> False
     | _ \<Rightarrow> True"
  using assms(2-5)
proof (cases rule: request_start)
  case gone
  then have "EndRequestHelper a p (s, q) = (Ok False, (s, finish q))"
    using assms(4,5) by (simp add: EndRequestHelper_def bind_def [of InterfaceStateCheckForWritingUponMutexAcquisition] check_gone)
  then show ?thesis using gone_ended [OF assms(2) gone(2)] by (auto intro: exI [of _ 0])
next
  case live
  obtain out s' q' where run: "EndRequestHelper a p (s, q) = (out, (s', q'))"
    by (metis prod.collapse)
  note post = hoareD [OF end_request_stage [OF assms(4,5)] live, of a p, unfolded run]
  show ?thesis
  proof (cases out)
    case (Ok success)
    show ?thesis
    proof (cases success)
      case True
      then have "stage P s (q\<lparr>completed := True\<rparr>) (Some (False, False)) (peer_gone (os s) (descriptor r))
          (wire (os s) (descriptor r) @ header_and_end_content r a p) (request_close_connection q) False (s', q')"
        using post Ok by (simp add: r_def)
      then show ?thesis using end_content_records [of r a p]
        by (simp add: run Ok True stage_def r_def)
    qed (use post Ok in \<open>auto simp: run r_def dest!: cut_off_ended\<close>)
  next
    case (Throw e)
    then have "broken s (finish q) (s', q') \<or> broken s (q\<lparr>completed := True\<rparr>) (s', q')
        \<or> cut_off P s q (wire (os s) (descriptor r)) (header_and_end_content r a p) (s', q')"
      using post by (simp add: r_def)
    then have "(q' = finish q \<or> q' = q\<lparr>completed := True\<rparr>) \<and> ended P s q' (s', q')"
      using broken_ended by (auto dest!: cut_off_ended) (auto simp: broken_def)
    then show ?thesis by (simp add: run Throw)
  qed (use post in \<open>simp_all add: run\<close>)
qed

text \<open>
  C4. \<open>Complete\<close> and \<open>RejectRole\<close>, on a request that is neither null nor completed. If \<open>true\<close> is
  returned, the three records that end the request have been sent completely, the request is
  completed and removed from the interface, and the connection is scheduled for closure if and only
  if the client has asked for it. If \<open>false\<close> is returned or an exception is thrown, the request is
  completed (and, unless it is an error of the interface, aborted and removed), and what was sent is
  a prefix of the records. In every case the invariant is kept, other requests and connections are
  left alone, and no dangling pointer is used.
\<close>

theorem EndRequest_correct:
  fixes q a p
  defines "r \<equiv> request_identifier q"
  assumes "server_any P s" and "request_valid s q" and "\<not> completed q" and "\<not> null_request q"
  shows "case EndRequestHelper a p (s, q) of
       (Ok True, (s', q')) \<Rightarrow> q' = q\<lparr>completed := True\<rparr> \<and> server_upto P s' \<and> request_step r s s'
         \<and> r \<notin> keys (request_map s')
         \<and> wire (os s') (descriptor r) = wire (os s) (descriptor r)
             @ record_bytes kFCGI_STDOUT (Fcgi_id r) [] @ record_bytes kFCGI_STDERR (Fcgi_id r) []
             @ record_bytes kFCGI_END_REQUEST (Fcgi_id r) (app_status_bytes a @ [p, 0, 0, 0])
         \<and> (descriptor r \<in> keys (application_closure_request_set s') \<longleftrightarrow> request_close_connection q)
     | (Ok False, (s', q')) \<Rightarrow> q' = finish q \<and> ended P s (finish q) (s', q')
         \<and> (\<exists>n. wire (os s') (descriptor r)
                 = wire (os s) (descriptor r) @ take n (header_and_end_content r a p))
     | (Throw e, (s', q')) \<Rightarrow> (q' = finish q \<or> q' = q\<lparr>completed := True\<rparr>) \<and> ended P s q' (s', q')
     | (Undefined, _) \<Rightarrow> False
     | _ \<Rightarrow> True"
  unfolding r_def by (rule EndRequest_step [OF assms(2-5)])

lemma example_end_run:
  "fst (EndRequestHelper 0 0 (example_interface kRequestAssigned [Count 20, Errno EINTR, Count 12, Count 1],
     example_request True)) = Ok True"
  by code_simp

theorem EndRequest_correct_witness:
  "\<exists>s'. EndRequestHelper 0 0 (example_interface kRequestAssigned [Count 20, Errno EINTR, Count 12, Count 1],
       example_request True) = (Ok True, (s', (example_request True)\<lparr>completed := True\<rparr>))
     \<and> server_upto {} s' \<and> FcgiRequestIdentifier 7 1 \<notin> keys (request_map s')
     \<and> 7 \<in> keys (application_closure_request_set s') \<and> length (wire (os s') 7) = 32"
proof -
  let ?s = "example_interface kRequestAssigned [Count 20, Errno EINTR, Count 12, Count 1]"
  obtain s' q' where run: "EndRequestHelper 0 0 (?s, example_request True) = (Ok True, (s', q'))"
    using example_end_run by (metis prod.collapse)
  have w: "wire (os ?s) 7 = []" by (simp add: example_interface_def)
  note valid = example_request_valid [of "[Count 20, Errno EINTR, Count 12, Count 1]" True]
  show ?thesis
    using EndRequest_correct [OF example_any valid, of 0 0] run w
    by (auto simp: record_bytes_def padding_for_def app_status_bytes_def)
qed

section \<open>Writing content\<close>

text \<open>
  A sequence of records with the given content, and a part of such a sequence at its beginning.
\<close>

definition record_stream :: "FcgiType \<Rightarrow> u16 \<Rightarrow> bytes \<Rightarrow> bytes \<Rightarrow> bool" where
  "record_stream type fid content out \<longleftrightarrow> (\<exists>cs. out = concat (map (record_bytes type fid) cs)
     \<and> concat cs = content \<and> (\<forall>c \<in> set cs. c \<noteq> [] \<and> length c \<le> max_aligned_content_length))"

definition stream_part :: "FcgiType \<Rightarrow> u16 \<Rightarrow> bytes \<Rightarrow> bytes \<Rightarrow> bool" where
  "stream_part type fid content part \<longleftrightarrow>
     (\<exists>sent rest out n. content = sent @ rest \<and> record_stream type fid sent out \<and> part = take n out)"

lemma record_stream_append:
  "record_stream t i a x \<Longrightarrow> record_stream t i b y \<Longrightarrow> record_stream t i (a @ b) (x @ y)"
  unfolding record_stream_def by (elim exE conjE, rule_tac x = "cs @ csa" in exI) auto

lemma record_stream_framed: "record_stream t i c out \<Longrightarrow> framed w \<Longrightarrow> framed (w @ out)"
  by (auto simp: record_stream_def intro!: framed_concat) (blast intro: record_bytes_is_record)

lemma stream_part_append:
  assumes "record_stream t i a x" and "stream_part t i b y"
  shows "stream_part t i (a @ b) (x @ y)"
proof -
  obtain sent rest out n where s: "b = sent @ rest" "record_stream t i sent out" "y = take n out"
    using assms(2) by (auto simp: stream_part_def)
  have "x @ y = take (length x + n) (x @ out)" by (simp add: s(3))
  then show ?thesis using record_stream_append [OF assms(1) s(2)] s(1)
    unfolding stream_part_def by (metis append.assoc)
qed

lemma record_stream_Nil: "record_stream t i [] []"
  by (auto simp: record_stream_def intro: exI [of _ "[]"])

lemma stream_part_Nil: "stream_part t i content []"
  unfolding stream_part_def using record_stream_Nil
  by (metis append_Nil take_0)

lemma stream_part_take:
  "record_stream t i a x \<Longrightarrow> stream_part t i (a @ b) (take n x)"
  unfolding stream_part_def by blast

text \<open>The list of \<open>struct iovec\<close> denotes what \<open>gather\<close> says.\<close>

lemma iov_of_gather:
  assumes "list_all (iov_in_bounds content loc) iovecs"
  defines "iovs \<equiv> map (iov_of content loc) iovecs"
  shows "iovs_ok iovs (length iovecs)" and "iov_content (take (length iovecs) iovs) = gather content loc iovecs"
    and "iov_total (take (length iovecs) iovs) = length (gather content loc iovecs)"
proof -
  have b: "snd (iov_of content loc v) \<le> length (fst (iov_of content loc v))" if "v \<in> set iovecs" for v
    using assms(1) that
    by (force simp: list_all_iff iov_in_bounds_def iov_of_def split: prod.splits iov_base.splits)
  show ok: "iovs_ok iovs (length iovecs)" using b by (fastforce simp: iovs_ok_def iovs_def)
  show c: "iov_content (take (length iovecs) iovs) = gather content loc iovecs"
    by (auto simp: iovs_def iov_content_def gather_def iov_bytes_def iov_of_def comp_def
        split: prod.splits iov_base.splits intro!: arg_cong [where f = concat])
  show "iov_total (take (length iovecs) iovs) = length (gather content loc iovecs)"
    using length_iov_content [OF ok] c by simp
qed

text \<open>One round of the loop.\<close>

lemma partition_stream:
  assumes "b < length content"
  obtains loc iovecs n b' where
    "PartitionByteSequence lm b (length content) type fid = Inr (loc, iovecs, n, b')"
    and "b \<le> b'" "b' \<le> length content" "3 \<le> iov_limit lm \<Longrightarrow> b < b'"
    and "list_all (iov_in_bounds content loc) iovecs" "n = length (gather content loc iovecs)"
    and "record_stream type fid (take (b' - b) (drop b content)) (gather content loc iovecs)"
proof -
  let ?k = "min (length content - b) (min_max lm)"
  obtain loc iovecs n where part:
      "PartitionByteSequence lm b (length content) type fid = Inr (loc, iovecs, n, b + ?k)"
      "gather content loc iovecs = concat (map (record_bytes type fid)
         (chunks max_aligned_content_length (take ?k (drop b content))))"
      "n = length (gather content loc iovecs)" "list_all (iov_in_bounds content loc) iovecs"
    using PartitionByteSequence_partition [of b "length content" content lm type fid] assms by auto
  have "record_stream type fid (take ?k (drop b content)) (gather content loc iovecs)"
    unfolding record_stream_def part(2)
    by (intro exI conjI ballI) (auto simp: concat_chunks dest: chunks_bounds)
  then show thesis
    using that [OF part(1)] part(3,4) PartitionByteSequence_progress [OF assms, of lm] assms by simp
qed

text \<open>The request after a write, complete or not, of content.\<close>

definition wrote ::
  "fd set \<Rightarrow> interface \<Rightarrow> FcgiRequest \<Rightarrow> bool \<Rightarrow> bytes \<Rightarrow> FcgiType \<Rightarrow> bytes \<Rightarrow> interface \<times> FcgiRequest \<Rightarrow> bool"
where
  "wrote P s0 q g w type content p \<longleftrightarrow> (\<exists>out M sc.
     record_stream type (Fcgi_id (request_identifier q)) content out
     \<and> stage P s0 q M g (w @ out) sc True p)"

definition stopped ::
  "fd set \<Rightarrow> interface \<Rightarrow> FcgiRequest \<Rightarrow> bytes \<Rightarrow> FcgiType \<Rightarrow> bytes \<Rightarrow> interface \<times> FcgiRequest \<Rightarrow> bool"
where
  "stopped P s0 q w type content p \<longleftrightarrow> (\<exists>part M g sc.
     stream_part type (Fcgi_id (request_identifier q)) content part
     \<and> stage P s0 (finish q) M g (w @ part) sc False p)"

lemma wrote_more:
  "record_stream type (Fcgi_id (request_identifier q)) a x \<Longrightarrow> wrote P s0 q g (w @ x) type b p \<Longrightarrow>
     wrote P s0 q g w type (a @ b) p"
  unfolding wrote_def using record_stream_append by fastforce

lemma stopped_more:
  "record_stream type (Fcgi_id (request_identifier q)) a x \<Longrightarrow> stopped P s0 q (w @ x) type b p \<Longrightarrow>
     stopped P s0 q w type (a @ b) p"
  unfolding stopped_def using stream_part_append by fastforce

lemma cut_off_stopped:
  "record_stream type (Fcgi_id (request_identifier q)) a x \<Longrightarrow> cut_off P s0 q w x p \<Longrightarrow>
     stopped P s0 q w type (a @ b) p"
  unfolding stopped_def cut_off_def using stream_part_take by fastforce

lemma wrote_nothing: "stage P s0 q M g w sc True p \<Longrightarrow> wrote P s0 q g w type [] p"
  unfolding wrote_def
  by (rule exI [of _ "[]"], rule exI [of _ M], rule exI [of _ sc])
     (simp add: record_stream_Nil)

lemma write_loop:
  assumes "b \<le> length content"
  shows "hoare_gen True (stage P s0 q M g w sc True) (WriteHelperLoop rounds lm type content b (length content))
     (\<lambda>success p. if success then wrote P s0 q g w type (drop b content) p
                  else stopped P s0 q w type (drop b content) p)
     (\<lambda>_ p. broken s0 (finish q) p \<or> stopped P s0 q w type (drop b content) p)"
  using assms
proof (induction rounds arbitrary: b M w sc)
  case 0
  show ?case
  proof (cases "b = length content")
    case True
    show ?thesis unfolding WriteHelperLoop.simps [of 0] if_P [OF True]
      by (intro step_ret) (simp add: wrote_nothing True)
  next
    case False
    show ?thesis unfolding WriteHelperLoop.simps [of 0] if_not_P [OF False]
      by (simp only: nat.case hoare_diverge)
  qed
next
  case (Suc rounds)
  show ?case
  proof (cases "b = length content")
    case True
    show ?thesis unfolding WriteHelperLoop.simps [of "Suc rounds"] if_P [OF True]
      by (intro step_ret) (simp add: wrote_nothing True)
  next
    case False
    let ?i = "Fcgi_id (request_identifier q)"
    have "b < length content" using False Suc.prems by simp
    then obtain loc iovecs n b' where
        part: "PartitionByteSequence lm b (length content) type ?i = Inr (loc, iovecs, n, b')"
        and b': "b \<le> b'" "b' \<le> length content"
        and bounds: "list_all (iov_in_bounds content loc) iovecs" "n = length (gather content loc iovecs)"
        and stream: "record_stream type ?i (take (b' - b) (drop b content)) (gather content loc iovecs)"
      by (rule partition_stream)
    note iovs = iov_of_gather [OF bounds(1)]
    have split: "drop b content = take (b' - b) (drop b content) @ drop b' content"
      using b' by (metis append_take_drop_id drop_drop le_add_diff_inverse2)
    have more: "wrote P s0 q g (w @ gather content loc iovecs) type (drop b' content) p \<Longrightarrow>
          wrote P s0 q g w type (drop b content) p"
        "stopped P s0 q (w @ gather content loc iovecs) type (drop b' content) p \<Longrightarrow>
          stopped P s0 q w type (drop b content) p"
        "cut_off P s0 q w (gather content loc iovecs) p \<Longrightarrow> stopped P s0 q w type (drop b content) p" for p
      using wrote_more [OF stream, where b = "drop b' content", folded split]
        stopped_more [OF stream, where b = "drop b' content", folded split]
        cut_off_stopped [OF stream, where b = "drop b' content", folded split] by blast+
    let ?Q = "\<lambda>success p. if success then wrote P s0 q g w type (drop b content) p
                  else stopped P s0 q w type (drop b content) p"
    let ?E = "\<lambda>_ p. broken s0 (finish q) p \<or> stopped P s0 q w type (drop b content) p"
    have after_round: "hoare_gen True (\<lambda>p. if success
          then stage P s0 q (Some (False, False)) g (w @ gather content loc iovecs) False True p
          else cut_off P s0 q w (gather content loc iovecs) p)
        (if success then WriteHelperLoop rounds lm type content b' (length content) else ret False) ?Q ?E"
      for success
    proof (cases success)
      case True
      show ?thesis unfolding if_P [OF True]
        by (rule hoare_weaken [OF Suc.IH [OF b'(2)]])
           (use more in \<open>auto split: if_splits\<close>)
    next
      case failed: False
      show ?thesis unfolding if_not_P [OF failed]
        by (rule step_ret) (use more(3) in auto)
    qed
    have round: "hoare_gen True (stage P s0 q M g w sc True)
        (bind (ScatterGatherWriteHelper (map (iov_of content loc) iovecs) (int (length iovecs)) n False)
          (\<lambda>success. if success then WriteHelperLoop rounds lm type content b' (length content)
             else ret False)) ?Q ?E"
      by (rule hoare_bind [OF after_round hoare_weaken
            [OF scatter_section [OF iovs(1) _ iovs(2) [symmetric] record_stream_framed [OF stream]]]])
         (use iovs(3) bounds(2) more(3) in auto)
    show ?thesis unfolding WriteHelperLoop.simps [of "Suc rounds"] if_not_P [OF False] nat.case
      by (rule step_this) (simp only: part sum.case prod.case round)
  qed
qed

lemma check_gone_loop:
  assumes "interface_ptr q"
      and "\<not> (interface_identifier s = associated_interface_id q \<and> \<not> bad_interface_state_detected s)"
      and "b \<le> length content" and "length content - b \<le> rounds"
  shows "case WriteHelperLoop rounds lm type content b (length content) (s, q) of
       (Ok True, p) \<Rightarrow> b = length content \<and> p = (s, q)
     | (Ok False, p) \<Rightarrow> p = (s, finish q)
     | (Blocked, p) \<Rightarrow> True
     | _ \<Rightarrow> False"
proof (cases "b = length content")
  case True
  then show ?thesis
    by (subst WriteHelperLoop.simps) simp
next
  case False
  then obtain n where "rounds = Suc n" using assms(3,4) by (cases rounds) auto
  have "b < length content" using False assms(3) by simp
  then obtain loc iovecs m b' where part:
      "PartitionByteSequence lm b (length content) type (Fcgi_id (request_identifier q)) = Inr (loc, iovecs, m, b')"
    by (rule partition_stream)
  show ?thesis using False \<open>rounds = Suc n\<close>
    by (subst WriteHelperLoop.simps)
       (simp add: part ScatterGatherWriteHelper_def BeginWrite_def bind_def check_gone [OF assms(1,2)] gets_def ret_def)
qed

lemma WriteHelper_step:
  fixes q
  defines "r \<equiv> request_identifier q"
  assumes "server_any P s" and "request_valid s q" and "\<not> completed q" and "\<not> null_request q"
  shows "case WriteHelper lm content type (s, q) of
       (Ok True, (s', q')) \<Rightarrow> q' = q \<and> server_any P s' \<and> request_valid s' q \<and> request_step r s s'
         \<and> (\<exists>out. record_stream type (Fcgi_id r) content out
              \<and> wire (os s') (descriptor r) = wire (os s) (descriptor r) @ out)
     | (Ok False, (s', q')) \<Rightarrow> q' = finish q \<and> ended P s (finish q) (s', q')
         \<and> (\<exists>part. stream_part type (Fcgi_id r) content part
              \<and> wire (os s') (descriptor r) = wire (os s) (descriptor r) @ part)
     | (Throw e, (s', q')) \<Rightarrow> q' = finish q \<and> ended P s (finish q) (s', q')
     | (Undefined, _) \<Rightarrow> False
     | _ \<Rightarrow> True"
proof -
  have run: "WriteHelper lm content type (s, q)
      = WriteHelperLoop (length content) lm type content 0 (length content) (s, q)"
    using assms(4,5) by (simp add: WriteHelper_def)
  from assms(2-5) show ?thesis
  proof (cases rule: request_start)
    case gone
    show ?thesis using check_gone_loop [OF gone le0, of content "length content" lm type] assms(2,3) record_stream_Nil stream_part_Nil
        gone_ended [OF assms(2) gone(2)]
      by (auto simp: run split: prod.splits outcome.splits bool.splits)
  next
    case live
    have stopped: "q' = finish q \<and> ended P s (finish q) (s', finish q) \<and>
        (\<exists>part. stream_part type (Fcgi_id r) content part
              \<and> wire (os s') (descriptor r) = wire (os s) (descriptor r) @ part)"
      if "stopped P s q (wire (os s) (descriptor r)) type content (s', q')" for s' q'
      using that stage_ended by (fastforce simp: stopped_def stage_def r_def)
    have wrote: "q' = q \<and> server_any P s' \<and> request_valid s' q \<and> request_step r s s' \<and>
        (\<exists>out. record_stream type (Fcgi_id r) content out
              \<and> wire (os s') (descriptor r) = wire (os s) (descriptor r) @ out)"
      if "wrote P s q g (wire (os s) (descriptor r)) type content (s', q')" for s' q' g
      using that server_upto_any
      by (fastforce simp: wrote_def stage_def r_def request_valid_def linked_def)
    obtain out s' q' where o: "WriteHelperLoop (length content) lm type content 0 (length content) (s, q) = (out, (s', q'))"
      by (metis prod.collapse)
    note post = hoareD [OF write_loop [where b = 0 and content = content and rounds = "length content" and lm = lm
        and type = type, OF le0] live, unfolded o drop0, folded r_def]
    show ?thesis
    proof (cases out)
      case (Ok success)
      show ?thesis
      proof (cases success)
        case True
        then show ?thesis using post wrote by (simp add: run o Ok)
      next
        case False
        then have "stopped P s q (wire (os s) (descriptor r)) type content (s', q')"
          using post by (simp add: Ok)
        from stopped [OF this] show ?thesis using False by (simp add: run o Ok)
      qed
    next
      case (Throw e)
      then have "q' = finish q \<and> ended P s (finish q) (s', finish q)"
        using post stopped broken_ended by (auto simp: broken_def)
      then show ?thesis by (simp add: run o Throw)
    qed (use post in \<open>simp_all add: run o\<close>)
  qed
qed

text \<open>
  C5. \<open>Write\<close> and \<open>WriteError\<close>, on a request that is neither null nor completed. If \<open>true\<close> is
  returned, a sequence of complete records with exactly the given content has been appended to what
  was sent on the connection, and the request is unchanged and still present. If \<open>false\<close> is returned
  the request is completed and aborted, it is removed from an interface that exists and is not
  corrupt, and what was sent is a part of such a sequence at its beginning. In every case the
  invariant is kept, other requests and connections are left alone, and no dangling pointer is used.
\<close>

theorem WriteHelper_correct:
  fixes q
  defines "r \<equiv> request_identifier q"
  assumes "server_any P s" and "request_valid s q" and "\<not> completed q" and "\<not> null_request q"
  shows "case WriteHelper lm content type (s, q) of
       (Ok True, (s', q')) \<Rightarrow> q' = q \<and> server_any P s' \<and> request_valid s' q \<and> request_step r s s'
         \<and> (\<exists>out. record_stream type (Fcgi_id r) content out
              \<and> wire (os s') (descriptor r) = wire (os s) (descriptor r) @ out)
     | (Ok False, (s', q')) \<Rightarrow> q' = finish q \<and> ended P s (finish q) (s', q')
         \<and> (\<exists>part. stream_part type (Fcgi_id r) content part
              \<and> wire (os s') (descriptor r) = wire (os s) (descriptor r) @ part)
     | (Throw e, (s', q')) \<Rightarrow> q' = finish q \<and> ended P s (finish q) (s', q')
     | (Undefined, _) \<Rightarrow> False
     | _ \<Rightarrow> True"
  unfolding r_def by (rule WriteHelper_step [OF assms(2-5)])

lemma example_partition:
  "PartitionByteSequence 1024 0 3 kFCGI_STDOUT 1 =
     Inr (replicate 8 0 @ PopulateHeader kFCGI_STDOUT 1 3 5, [(Local 8, 8), (Content 0, 3), (Local 0, 5)], 16, 3)"
proof -
  have mm: "min_max 1024 = 511 * 65528"
    by (simp add: min_max_def InitializeMaxForSsize_t_def CeilingOfQuotient_def
          InitializeMaxForIovec_eq iov_limit_def)
  show ?thesis
    by (simp add: PartitionByteSequence_def Let_def mm NeededSsize_t_def NeededIovec_def
        NeededLocalData_def CeilingOfQuotient_def PartitionLoop.simps overwrite_def)
qed

lemma example_scatter_run:
  "fst (ScatterGatherWriteHelper
     (map (iov_of [7, 8, 9] (replicate 8 0 @ PopulateHeader kFCGI_STDOUT 1 3 5))
        [(Local 8, 8), (Content 0, 3), (Local 0, 5)]) 3 16 False
     (example_interface kRequestAssigned [Count 5, Errno EAGAIN, Count 1, Count 11], example_request True)) = Ok True"
  by code_simp

lemma example_write_run:
  "fst (WriteHelper 1024 [7, 8, 9] kFCGI_STDOUT
     (example_interface kRequestAssigned [Count 5, Errno EAGAIN, Count 1, Count 11], example_request True)) = Ok True"
proof -
  let ?p = "(example_interface kRequestAssigned [Count 5, Errno EAGAIN, Count 1, Count 11], example_request True)"
  obtain p' where w: "ScatterGatherWriteHelper
     (map (iov_of [7, 8, 9] (replicate 8 0 @ PopulateHeader kFCGI_STDOUT 1 3 5))
        [(Local 8, 8), (Content 0, 3), (Local 0, 5)]) 3 16 False ?p = (Ok True, p')"
    using example_scatter_run by (metis prod.collapse)
  have l: "length [7, 8, 9 :: byte] = 3" by simp
  have "WriteHelperLoop 3 1024 kFCGI_STDOUT [7, 8, 9] 0 3 ?p = (Ok True, p')"
    by (subst WriteHelperLoop.simps)
       (use w in \<open>simp add: example_partition bind_def WriteHelperLoop.simps [of _ _ _ _ 3 3]\<close>)
  then show ?thesis by (simp only: WriteHelper_def l) simp
qed

theorem WriteHelper_correct_witness:
  "\<exists>s' out. WriteHelper 1024 [7, 8, 9] kFCGI_STDOUT
       (example_interface kRequestAssigned [Count 5, Errno EAGAIN, Count 1, Count 11], example_request True)
         = (Ok True, (s', example_request True))
     \<and> server_any {} s' \<and> record_stream kFCGI_STDOUT 1 [7, 8, 9] out \<and> wire (os s') 7 = out"
proof -
  let ?as = "[Count 5, Errno EAGAIN, Count 1, Count 11]"
  let ?s = "example_interface kRequestAssigned ?as"
  obtain s' q' where run: "WriteHelper 1024 [7, 8, 9] kFCGI_STDOUT (?s, example_request True)
      = (Ok True, (s', q'))"
    using example_write_run by (metis prod.collapse)
  have w: "wire (os ?s) 7 = []" by (simp add: example_interface_def)
  show ?thesis
    using WriteHelper_correct [OF example_any example_request_valid [of ?as True],
        where lm = 1024 and content = "[7, 8, 9]" and type = kFCGI_STDOUT] run w
    by auto
qed

end
