(* ===== verification/Request_Lifetime.thy ===== *)
theory Request_Lifetime
  imports Request_Safety
begin

text \<open>
  The life of a request: construction from a pending request, the moves, \<open>AbortStatus\<close>, the end of
  the write loop, destruction, and what a completed request does.
\<close>

section \<open>Construction\<close>

lemma set_data_upto:
  assumes "server_upto P s" and "om_find r (request_map s) = Some rd"
      and "request_ok (descriptor r \<in> keys (dummy_descriptor_set s)) rd'"
      and "\<And>type. stream_complete type rd' = stream_complete type rd"
  shows "server_upto P (s\<lparr>request_map := om_set r rd' (request_map s)\<rparr>)" (is "server_upto P ?s'")
proof -
  have books: "books_inv s" and reading: "reading_inv s" using assms(1) by (simp_all add: server_upto_def)
  have "books_inv ?s'" using books assms(3) counts_inv_same_keys [of s "om_set r rd' (request_map s)"]
    by (auto simp: books_inv_def descriptors_inv_def requests_inv_def statuses_inv_def om_find_set)
  moreover have "reading_inv ?s'"
  proof -
    have "status_ok c (om_set r rd' (request_map s)) rs" if "status_ok c (request_map s) rs" for c rs
      using that assms(2,4) by (auto simp: status_ok_def accepted_ok_def om_find_set)
    then show ?thesis using reading by (auto simp: reading_inv_def)
  qed
  ultimately show ?thesis using assms(1)
    by (simp add: server_upto_def closure_upto_def framing_inv_def limits_inv_def)
qed

lemma FcgiRequest_new_step:
  assumes "server_upto P s" and "om_find r (request_map s) = Some rd" and "received rd"
      and "descriptor r \<in> keys (record_status_map s)" and "interface_identifier s \<noteq> 0"
  shows "if request_status rd = kRequestAssigned
     then FcgiRequest_new r (interface_identifier s) True (Some r) (Some (descriptor r))
            (Some (descriptor r)) (self_pipe_write_descriptor s) s = (Throw LogicError, set_bad s)
     else \<exists>q s'. FcgiRequest_new r (interface_identifier s) True (Some r) (Some (descriptor r))
            (Some (descriptor r)) (self_pipe_write_descriptor s) s = (Ok q, s')
       \<and> server_upto P s' \<and> request_step r s s' \<and> request_valid s' q \<and> linked s' q
       \<and> assigned s' (request_identifier q) \<and> \<not> completed q \<and> \<not> was_aborted q
       \<and> request_identifier q = r \<and> request_environment_map q = environment_map rd
       \<and> request_stdin_content q = FCGI_STDIN rd \<and> request_data_content q = FCGI_DATA rd
       \<and> request_role q = role rd \<and> request_close_connection q = close_connection rd"
proof (cases "request_status rd = kRequestAssigned")
  case True
  then show ?thesis using assms(2)
    by (simp add: FcgiRequest_new_def request_data_def bind_def gets_def ret_def modify_def throw_def)
next
  case False
  let ?rd = "rd\<lparr>environment_map := [], FCGI_STDIN := [], FCGI_DATA := [], request_status := kRequestAssigned\<rparr>"
  let ?s' = "s\<lparr>request_map := om_set r ?rd (request_map s)\<rparr>"
  have inv: "descriptors_inv s" "requests_inv s"
    using assms(1) by (simp_all add: server_upto_def books_inv_def)
  have "descriptor r \<notin> keys (dummy_descriptor_set s)" using inv(1) assms(4) by (auto simp: descriptors_inv_def)
  then have "request_ok (descriptor r \<in> keys (dummy_descriptor_set s)) ?rd"
    using inv(2) assms(2,3) by (auto simp: requests_inv_def request_ok_def received_def)
  moreover have "stream_complete t ?rd = stream_complete t rd" for t by (simp add: stream_complete_def)
  ultimately have "server_upto P ?s'" by (rule set_data_upto [OF assms(1,2)])
  moreover have "request_step r s ?s'" by (simp add: request_step_def same_config_def om_find_set)
  ultimately show ?thesis using False assms(2,5)
    by (auto simp: FcgiRequest_new_def request_data_def set_request_data_def bind_def gets_def ret_def
        modify_def request_valid_def linked_def assigned_def om_find_set)
qed

text \<open>
  C11. The constructor, as \<open>AcceptRequests\<close> calls it for a pending request that has been received
  completely: the new object is a valid request with the data of the \<open>RequestData\<close> object, which is
  assigned from then on, and the invariant is kept. For a request that has been assigned already it
  throws \<open>logic_error\<close> and marks the interface as corrupt.
\<close>

theorem FcgiRequest_new_correct:
  assumes "server_upto P s" and "om_find r (request_map s) = Some rd" and "received rd"
      and "descriptor r \<in> keys (record_status_map s)" and "interface_identifier s \<noteq> 0"
  shows "if request_status rd = kRequestAssigned
     then FcgiRequest_new r (interface_identifier s) True (Some r) (Some (descriptor r))
            (Some (descriptor r)) (self_pipe_write_descriptor s) s = (Throw LogicError, set_bad s)
     else \<exists>q s'. FcgiRequest_new r (interface_identifier s) True (Some r) (Some (descriptor r))
            (Some (descriptor r)) (self_pipe_write_descriptor s) s = (Ok q, s')
       \<and> server_upto P s' \<and> request_step r s s' \<and> request_valid s' q \<and> linked s' q
       \<and> assigned s' (request_identifier q) \<and> \<not> completed q \<and> \<not> was_aborted q
       \<and> request_identifier q = r \<and> request_environment_map q = environment_map rd
       \<and> request_stdin_content q = FCGI_STDIN rd \<and> request_data_content q = FCGI_DATA rd
       \<and> request_role q = role rd \<and> request_close_connection q = close_connection rd"
  by (rule FcgiRequest_new_step [OF assms])

text \<open>The example interface with its request received completely.\<close>

definition example_ready :: "script \<Rightarrow> interface" where
  "example_ready as = (example_interface kRequestPending as)
     \<lparr>request_map := [(FcgiRequestIdentifier 7 1, (RequestData_new FCGI_RESPONDER True)
        \<lparr>FCGI_PARAMS_complete := True, FCGI_STDIN_complete := True, FCGI_DATA_complete := True,
         FCGI_STDIN := [104, 105]\<rparr>)]\<rparr>"

lemma example_ready_upto: "server_upto {} (example_ready as)"
proof -
  have "requests_of c (example_ready as) = (if c = 7 then {FcgiRequestIdentifier 7 1} else {})" for c
    by (auto simp: requests_of_def example_ready_def)
  then have counts: "counts_inv (example_ready as)"
    by (simp add: counts_inv_def example_ready_def) (simp add: example_interface_def)
  note ex = example_server_inv [of kRequestPending as, unfolded server_inv_def interface_inv_def]
  have "descriptors_inv (example_ready as)"
    using ex by (simp add: example_ready_def descriptors_inv_def om_wf_def)
  moreover have "requests_inv (example_ready as)"
    by (simp add: requests_inv_def example_ready_def request_ok_def received_def RequestData_new_def)
  moreover have "statuses_inv (example_ready as)" "closure_inv (example_ready as)"
      "framing_inv (example_ready as)" "limits_inv (example_ready as)"
      "\<not> bad_interface_state_detected (example_ready as)"
    using ex by (simp_all add: example_ready_def statuses_inv_def closure_inv_def framing_inv_def limits_inv_def)
  moreover have "reading_inv (example_ready as)"
    by (simp add: reading_inv_def example_ready_def status_ok_new)
  ultimately show ?thesis using counts
    by (simp add: server_upto_none server_inv_def interface_inv_def)
qed

theorem FcgiRequest_new_correct_witness:
  "\<exists>q s'. FcgiRequest_new (FcgiRequestIdentifier 7 1) 1 True (Some (FcgiRequestIdentifier 7 1))
       (Some 7) (Some 7) 5 (example_ready []) = (Ok q, s')
     \<and> server_upto {} s' \<and> request_valid s' q \<and> request_stdin_content q = [104, 105]"
proof -
  let ?r = "FcgiRequestIdentifier 7 1"
  obtain rd where rd: "om_find ?r (request_map (example_ready [])) = Some rd" "received rd"
      "request_status rd = kRequestPending" "FCGI_STDIN rd = [104, 105]"
    by (simp add: example_ready_def received_def RequestData_new_def)
  have "descriptor ?r \<in> keys (record_status_map (example_ready []))"
      "interface_identifier (example_ready []) \<noteq> 0"
    by (simp_all add: example_ready_def example_interface_def)
  from FcgiRequest_new_correct [OF example_ready_upto rd(1,2) this] show ?thesis
    using rd(3,4) by (auto simp: example_ready_def example_interface_def)
qed

section \<open>The abort status\<close>

lemma AbortStatus_step:
  fixes q
  defines "r \<equiv> request_identifier q"
  assumes "server_any P s" and "request_valid s q"
  shows "if completed q \<or> was_aborted q \<or> null_request q
     then AbortStatus (s, q) = (Ok (was_aborted q), (s, q))
     else if \<not> (interface_identifier s = associated_interface_id q \<and> \<not> bad_interface_state_detected s)
     then AbortStatus (s, q) = (Throw RuntimeError, (s, finish q))
     else \<exists>rd. om_find r (request_map s) = Some rd \<and>
       (if connection_closed_by_interface rd
        then \<exists>s'. AbortStatus (s, q) = (Ok True, (s', finish q)) \<and> server_upto P s'
               \<and> request_step r s s' \<and> r \<notin> keys (request_map s')
        else AbortStatus (s, q) =
               (Ok (client_set_abort rd), (s, q\<lparr>was_aborted := client_set_abort rd\<rparr>)))"
proof (cases "completed q \<or> was_aborted q \<or> null_request q")
  case True
  then show ?thesis by (simp add: AbortStatus_def)
next
  case False
  then have "\<not> completed q" "\<not> null_request q" by simp_all
  with assms(2,3) show ?thesis
  proof (cases rule: request_start)
    case gone
    then have "AbortStatus (s, q) = (Throw RuntimeError, (s, finish q))" using False
      by (auto simp: AbortStatus_def interface_exists_def interface_is_bad_def on_interface_def
          bind_def gets_def modify_def ret_def throw_def)
    then show ?thesis using False gone by simp
  next
    case live
    then have l: "linked s q" "server_upto P s" "assigned s r" by (simp_all add: stage_def r_def)
    then obtain rd where rd: "om_find r (request_map s) = Some rd" by (auto simp: assigned_def)
    have e: "interface_identifier s = associated_interface_id q \<and> \<not> bad_interface_state_detected s"
      using l by (simp add: linked_def server_upto_def)
    have l': "linked s (finish q)" using l(1) by simp
    from remove_assigned [OF l(2,3)] obtain s' where s': "RemoveRequest r s = (Ok (), s')" "server_upto P s'"
        "request_step r s s'" "r \<notin> keys (request_map s')" by blast
    have deref: "deref_request_data (s, q) = (Ok rd, (s, q))"
      using l(1) rd by (simp add: deref_request_data_def linked_def request_data_def on_interface_def
          bind_def gets_def ret_def r_def)
    have removed: "remove_this_waking (s, finish q) = (Ok (), (s', finish q))"
      using s'(1) l' by (simp add: remove_this_waking_def remove_this_def on_throw_def try_catch_def r_def)
    have good: "interface_is_bad (s, q) = (Ok False, (s, q))"
      using e l(1) by (simp add: interface_is_bad_def)
    have "AbortStatus (s, q) = (if connection_closed_by_interface rd then (Ok True, (s', finish q))
        else (Ok (client_set_abort rd), (s, q\<lparr>was_aborted := client_set_abort rd\<rparr>)))"
      using False e l(1)
      by (auto simp: AbortStatus_def interface_exists_def
          bind_Ok [where m = interface_is_bad and s = "(s, q)", OF good] bind_Ok [where m = deref_request_data and s = "(s, q)", OF deref]
          bind_Ok [where m = remove_this_waking and s = "(s, finish q)", OF removed] when_then_def)
    then show ?thesis using rd s' False e by auto
  qed
qed

text \<open>
  C13. \<open>AbortStatus\<close>: what is known is returned; if the interface is gone or corrupt,
  \<open>runtime_error\<close> is thrown and the request is completed and aborted; if the interface has closed
  the connection, the request is completed, aborted and removed from the interface; and otherwise
  the result says whether the client has aborted the request, and nothing else changes.
\<close>

theorem AbortStatus_correct:
  fixes q
  defines "r \<equiv> request_identifier q"
  assumes "server_any P s" and "request_valid s q"
  shows "if completed q \<or> was_aborted q \<or> null_request q
     then AbortStatus (s, q) = (Ok (was_aborted q), (s, q))
     else if \<not> (interface_identifier s = associated_interface_id q \<and> \<not> bad_interface_state_detected s)
     then AbortStatus (s, q) = (Throw RuntimeError, (s, finish q))
     else \<exists>rd. om_find r (request_map s) = Some rd \<and>
       (if connection_closed_by_interface rd
        then \<exists>s'. AbortStatus (s, q) = (Ok True, (s', finish q)) \<and> server_upto P s'
               \<and> request_step r s s' \<and> r \<notin> keys (request_map s')
        else AbortStatus (s, q) =
               (Ok (client_set_abort rd), (s, q\<lparr>was_aborted := client_set_abort rd\<rparr>)))"
  unfolding r_def by (rule AbortStatus_step [OF assms(2,3)])

theorem AbortStatus_correct_witness:
  "AbortStatus (example_interface kRequestAssigned [], example_request True)
     = (Ok False, (example_interface kRequestAssigned [], example_request True))"
proof -
  have same: "(example_request True)\<lparr>was_aborted := False\<rparr> = example_request True"
    by (simp add: example_request_def)
  show ?thesis using AbortStatus_correct [OF example_any example_request_valid [of "[]" True]]
    by (simp add: same example_interface_def RequestData_new_def)
qed

section \<open>Destruction\<close>

lemma destructor_stage:
  assumes "\<not> completed q" and "\<not> null_request q"
  shows "hoare_gen True (stage P s0 q M g w sc True) FcgiRequest_destructor
     (\<lambda>_ p. (\<exists>M'. stage P s0 q M' g w (sc \<or> M \<noteq> None \<and> request_close_connection q) False p)
        \<or> broken s0 q p)
     (\<lambda>_ _. False)"
    (is "hoare_gen True _ _ ?Q _")
proof -
  let ?schedule = "and_then lock_guard_temporary (and_then schedule_this InterfacePipeWrite)"
  let ?M = "M \<noteq> None \<and> request_close_connection q"
  let ?thrown = "\<lambda>_ p. \<exists>M sc. stage P s0 q M g w sc True p"
  have schedule: "hoare_gen True (stage P s0 q M g w sc True) (when_then ?M ?schedule)
      (\<lambda>_ p. \<exists>M. stage P s0 q M g w (sc \<or> ?M) True p) ?thrown"
  proof (cases ?M)
    case True
    then obtain h b where M: "M = Some (h, b)" by (cases M) auto
    show ?thesis unfolding when_then_def if_P [OF True] unfolding M
      by (intro rstep) (use True in auto)
  next
    case False
    show ?thesis unfolding when_then_def if_not_P [OF False]
      by (rule step_ret) (use False in auto)
  qed
  have remove: "hoare_gen True (stage P s0 q M' g w sc' True) remove_this
      (\<lambda>_. stage P s0 q M' g w sc' False) ?thrown" for M' sc'
    using step_remove_this [where m = "ret ()" and T = True] by (simp add: step_ret)
  have body: "hoare_gen True (stage P s0 q M g w sc True) (and_then (when_then ?M ?schedule) remove_this)
      (\<lambda>_ p. \<exists>M. stage P s0 q M g w (sc \<or> ?M) False p) ?thrown"
    by (rule hoare_bind [OF _ schedule]) (intro hoare_ex hoare_weaken [OF remove]; auto)
  have inner: "hoare_gen True (stage P s0 q M g w sc True)
      (bind (this request_close_connection) (\<lambda>close.
        bind (if close then bind deref_request_data (\<lambda>rd. ret (\<not> connection_closed_by_interface rd))
              else ret False) (\<lambda>schedule. and_then (when_then schedule ?schedule) remove_this)))
      (\<lambda>_ p. \<exists>M. stage P s0 q M g w (sc \<or> ?M) False p) ?thrown"
  proof (rule step_this, cases "request_close_connection q")
    case True
    show "hoare_gen True (stage P s0 q M g w sc True)
        (bind (if request_close_connection q
               then bind deref_request_data (\<lambda>rd. ret (\<not> connection_closed_by_interface rd))
               else ret False) (\<lambda>schedule. and_then (when_then schedule ?schedule) remove_this))
        (\<lambda>_ p. \<exists>M. stage P s0 q M g w (sc \<or> ?M) False p) ?thrown"
      unfolding if_P [OF True] op_simps
      by (rule step_deref) (use body True in simp)
  next
    case False
    show "hoare_gen True (stage P s0 q M g w sc True)
        (bind (if request_close_connection q
               then bind deref_request_data (\<lambda>rd. ret (\<not> connection_closed_by_interface rd))
               else ret False) (\<lambda>schedule. and_then (when_then schedule ?schedule) remove_this))
        (\<lambda>_ p. \<exists>M. stage P s0 q M g w (sc \<or> ?M) False p) ?thrown"
      unfolding if_not_P [OF False] op_simps using body False by simp
  qed
  have handler: "hoare_gen True (?thrown e) (and_then (on_interface (modify set_bad)) WakeOrTerminate)
      (\<lambda>_. broken s0 q) (\<lambda>_ _. False)" for e :: exn
    by (intro hoare_ex handler_breaks)
  have known: "\<not> (completed q \<or> null_request q)" using assms by simp
  have tried: "hoare_gen True (stage P s0 q M g w sc True)
      (try_catch (bind (this request_close_connection) (\<lambda>close.
        bind (if close then bind deref_request_data (\<lambda>rd. ret (\<not> connection_closed_by_interface rd))
              else ret False) (\<lambda>schedule. and_then (when_then schedule ?schedule) remove_this)))
        (\<lambda>e. and_then (on_interface (modify set_bad)) WakeOrTerminate)) ?Q (\<lambda>_ _. False)"
    by (rule hoare_try [OF hoare_weaken [OF inner] hoare_weaken [OF handler]]) auto
  show ?thesis unfolding FcgiRequest_destructor_def
    by (rule step_this, unfold if_not_P [OF known], rule step_exists, unfold not_True_eq_False if_False,
        rule step_is_bad, unfold if_False, rule tried)
qed

lemma destructor_step:
  fixes q
  defines "r \<equiv> request_identifier q"
  assumes "server_any P s" and "request_valid s q"
  shows "if completed q \<or> null_request q
       \<or> \<not> (interface_identifier s = associated_interface_id q \<and> \<not> bad_interface_state_detected s)
     then FcgiRequest_destructor (s, q) = (Ok (), (s, q))
     else case FcgiRequest_destructor (s, q) of
         (Ok _, (s', q')) \<Rightarrow> q' = q \<and> server_any P s' \<and> request_step r s s'
           \<and> (\<not> bad_interface_state_detected s' \<longrightarrow> r \<notin> keys (request_map s')
                \<and> (descriptor r \<in> keys (application_closure_request_set s') \<longleftrightarrow>
                     descriptor r \<in> keys (application_closure_request_set s)
                     \<or> descriptor r \<in> keys (record_status_map s) \<and> request_close_connection q))
       | (Throw _, _) \<Rightarrow> False
       | (Undefined, _) \<Rightarrow> False
       | _ \<Rightarrow> True"
proof (cases "completed q \<or> null_request q")
  case True
  then show ?thesis by (auto simp: FcgiRequest_destructor_def)
next
  case False
  then have n: "\<not> completed q" "\<not> null_request q" by simp_all
  with assms(2,3) show ?thesis
  proof (cases rule: request_start)
    case gone
    then have "FcgiRequest_destructor (s, q) = (Ok (), (s, q))" using False
      by (auto simp: FcgiRequest_destructor_def interface_exists_def interface_is_bad_def
          on_interface_def bind_def gets_def ret_def)
    then show ?thesis using gone by simp
  next
    case live
    then have e: "interface_identifier s = associated_interface_id q \<and> \<not> bad_interface_state_detected s"
        and up: "server_upto P s"
      by (simp_all add: stage_def linked_def server_upto_def)
    have open_iff: "om_find (descriptor r) (write_mutex_map s) \<noteq> None \<longleftrightarrow> descriptor r \<in> keys (record_status_map s)"
      using up by (metis server_upto_def books_inv_def descriptors_inv_def keys_iff)
    obtain out s' q' where run: "FcgiRequest_destructor (s, q) = (out, (s', q'))"
      by (metis prod.collapse)
    note post = hoareD [OF destructor_stage [OF n] live, unfolded run, folded r_def]
    show ?thesis
    proof (cases out)
      case (Ok u)
      have "broken s q (s', q') \<or> (\<exists>M. stage P s q M (peer_gone (os s) (descriptor r))
          (wire (os s) (descriptor r)) (descriptor r \<in> keys (application_closure_request_set s)
             \<or> descriptor r \<in> keys (record_status_map s) \<and> request_close_connection q) False (s', q'))"
        using post unfolding Ok prod.case outcome.case open_iff by blast
      then show ?thesis using n e server_upto_any
        by (auto simp: run Ok broken_def stage_def server_any_def r_def)
    qed (use post n e in \<open>simp_all add: run\<close>)
  qed
qed

text \<open>
  C12. The destructor of a request: nothing happens for a null or completed request, nor if the
  interface is gone or corrupt. Otherwise the request is removed from the interface, and its
  connection is scheduled for closure if it is open and the client has asked for it; the invariant
  is kept. If the interface cannot be woken it is marked as corrupt, or the program ends; no
  exception leaves the destructor.
\<close>

theorem destructor_correct:
  fixes q
  defines "r \<equiv> request_identifier q"
  assumes "server_any P s" and "request_valid s q"
  shows "if completed q \<or> null_request q
       \<or> \<not> (interface_identifier s = associated_interface_id q \<and> \<not> bad_interface_state_detected s)
     then FcgiRequest_destructor (s, q) = (Ok (), (s, q))
     else case FcgiRequest_destructor (s, q) of
         (Ok _, (s', q')) \<Rightarrow> q' = q \<and> server_any P s' \<and> request_step r s s'
           \<and> (\<not> bad_interface_state_detected s' \<longrightarrow> r \<notin> keys (request_map s')
                \<and> (descriptor r \<in> keys (application_closure_request_set s') \<longleftrightarrow>
                     descriptor r \<in> keys (application_closure_request_set s)
                     \<or> descriptor r \<in> keys (record_status_map s) \<and> request_close_connection q))
       | (Throw _, _) \<Rightarrow> False
       | (Undefined, _) \<Rightarrow> False
       | _ \<Rightarrow> True"
  unfolding r_def by (rule destructor_step [OF assms(2,3)])

lemma example_destructor_run:
  "fst (FcgiRequest_destructor (example_interface kRequestAssigned [Count 1], example_request True)) = Ok ()"
  by code_simp

theorem destructor_correct_witness:
  "\<exists>s'. FcgiRequest_destructor (example_interface kRequestAssigned [Count 1], example_request True)
       = (Ok (), (s', example_request True))
     \<and> server_any {} s' \<and> (\<not> bad_interface_state_detected s' \<longrightarrow>
         FcgiRequestIdentifier 7 1 \<notin> keys (request_map s') \<and> 7 \<in> keys (application_closure_request_set s'))"
proof -
  let ?s = "example_interface kRequestAssigned [Count 1]"
  obtain s' q' where run: "FcgiRequest_destructor (?s, example_request True) = (Ok (), (s', q'))"
    using example_destructor_run by (metis prod.collapse)
  have "interface_identifier ?s = 1" "\<not> bad_interface_state_detected ?s" "7 \<in> keys (record_status_map ?s)"
    by (simp_all add: example_interface_def)
  then show ?thesis using destructor_correct [OF example_any example_request_valid [of "[Count 1]" True]] run
    by auto
qed

section \<open>The write loop ends\<close>

text \<open>None of the operations that a write is made of has a loop that could be cut off.\<close>

lemma ends_on_interface [ending]: "ends m \<Longrightarrow> ends (on_interface m)"
  unfolding ends_def on_interface_def by (auto split: prod.splits) (metis fst_conv)

lemma ends_syscalls [ending]:
  "ends (sys_write_byte d b)" "ends (\<lambda>s. case WriteRecordsLoop v n r (errno (os s)) [] (script (os s)) of
       WR_out_of_bounds \<Rightarrow> (Undefined, s) | WR_no_return \<Rightarrow> (Blocked, s)
     | WR_end w e sent as \<Rightarrow> (Ok w, s\<lparr>os := f w e sent as (os s)\<rparr>))"
  by (auto simp: ends_def sys_write_byte_def Let_def split: option.splits prod.splits answer.splits write_result.splits)

lemma ends_requests [ending]: "ends (request_data r)" "ends (RemoveRequest r)"
  unfolding request_data_def RemoveRequest_def RemoveRequestHelper_def by (intro ending)+

lemma ends_access [ending]:
  "ends deref_request_data" "ends (mutex_entry p)" "ends (set_mutex_entry c h b)" "ends interface_exists"
  "ends interface_is_bad" "ends schedule_this" "ends remove_this" "ends InterfacePipeWrite"
  unfolding deref_request_data_def mutex_entry_def set_mutex_entry_def interface_exists_def
    interface_is_bad_def schedule_this_def remove_this_def InterfacePipeWrite_def
  by (intro ending)+

lemma ends_mutex [ending]:
  "ends lock_write_mutex" "ends unlock_write_mutex" "ends read_bad_connection_state"
  "ends set_bad_connection_state" "ends WakeOrTerminate" "ends remove_this_waking"
  unfolding lock_write_mutex_def unlock_write_mutex_def read_bad_connection_state_def
    set_bad_connection_state_def WakeOrTerminate_def remove_this_waking_def
  by (intro ending)+

lemma ends_sections [ending]:
  "ends InterfaceStateCheckForWritingUponMutexAcquisition" "ends (BeginWrite held)" "ends (WriteRecords v n r)"
  "ends (TryToAddToApplicationClosureRequestSet held force)"
  unfolding InterfaceStateCheckForWritingUponMutexAcquisition_def BeginWrite_def WriteRecords_def
    TryToAddToApplicationClosureRequestSet_def Let_def
  by (intro ending)+

lemma ends_EndWrite [ending]: "ends (EndWrite held n w)"
  unfolding EndWrite_def Let_def throw_system_error_def by (cases w; simp) (intro ending)+

lemma ends_scatter [ending]: "ends (ScatterGatherWriteHelper v n r held)"
  unfolding ScatterGatherWriteHelper_def by (intro ending)

lemma ends_calls [ending]: "ends (EndRequestHelper a p)" "ends AbortStatus" "ends FcgiRequest_destructor"
  unfolding EndRequestHelper_def AbortStatus_def FcgiRequest_destructor_def lock_guard_temporary_def Let_def
  by (intro ending)+

lemma write_loop_ends:
  assumes "b \<le> length content" and "length content - b \<le> n" and lm: "3 \<le> iov_limit lm"
  shows "ends (WriteHelperLoop n lm type content b (length content))"
  using assms(1,2)
proof (induction n arbitrary: b)
  case 0
  then show ?case by (simp add: WriteHelperLoop.simps ends_def)
next
  case (Suc n)
  show ?case
  proof (cases "b = length content")
    case True
    then show ?thesis by (simp add: WriteHelperLoop.simps ends_def)
  next
    case False
    then have b: "b < length content" using Suc.prems by simp
    show ?thesis unfolding ends_def
    proof
      fix p :: "interface \<times> FcgiRequest"
      obtain loc iovecs k b' where part: "PartitionByteSequence lm b (length content) type
            (Fcgi_id (request_identifier (snd p))) = Inr (loc, iovecs, k, b')"
          and b': "b' \<le> length content" "b < b'"
        by (rule partition_stream [OF b]) (use lm in auto)
      have "ends (bind (ScatterGatherWriteHelper (map (iov_of content loc) iovecs) (int (length iovecs)) k False)
          (\<lambda>success. if success then WriteHelperLoop n lm type content b' (length content) else ret False))"
        by (intro ending Suc.IH) (use b' Suc.prems in auto)
      then show "fst (WriteHelperLoop (Suc n) lm type content b (length content) p) \<noteq> Diverge"
        using False part by (cases p) (simp add: ends_def WriteHelperLoop.simps [of "Suc _"])
    qed
  qed
qed

lemma write_loop_rounds:
  assumes "b \<le> length content" and "length content - b \<le> n" and "length content - b \<le> m"
      and lm: "3 \<le> iov_limit lm"
  shows "WriteHelperLoop n lm type content b (length content)
      = WriteHelperLoop m lm type content b (length content)"
  using assms(1-3)
proof (induction n arbitrary: b m)
  case 0
  then show ?case by (simp add: WriteHelperLoop.simps)
next
  case (Suc n)
  show ?case
  proof (cases "b = length content")
    case True
    then show ?thesis by (simp add: WriteHelperLoop.simps)
  next
    case False
    then have b: "b < length content" using Suc.prems by simp
    then obtain m' where m: "m = Suc m'" using Suc.prems by (cases m) auto
    show ?thesis
    proof
      fix p :: "interface \<times> FcgiRequest"
      obtain loc iovecs k b' where part: "PartitionByteSequence lm b (length content) type
            (Fcgi_id (request_identifier (snd p))) = Inr (loc, iovecs, k, b')"
          and b': "b' \<le> length content" "b < b'"
        by (rule partition_stream [OF b]) (use lm in auto)
      have "WriteHelperLoop n lm type content b' (length content)
          = WriteHelperLoop m' lm type content b' (length content)"
        by (rule Suc.IH) (use b' Suc.prems m in auto)
      then show "WriteHelperLoop (Suc n) lm type content b (length content) p
          = WriteHelperLoop m lm type content b (length content) p"
        using False part by (simp add: m WriteHelperLoop.simps [of "Suc _"] cong: if_cong)
    qed
  qed
qed

text \<open>
  C36. The loop of \<open>Write\<close> ends: with room for three \<open>iovec\<close>s (a header, content and padding) each round
  writes at least one byte of the content. In every state, whatever the system calls answer, the loop is
  not cut off after as many rounds as there are bytes of content (the outcome is not \<open>Diverge\<close>), and
  with any larger number of rounds the result is the same.
\<close>

theorem WriteHelper_ends:
  assumes "3 \<le> iov_limit lm" and "length content \<le> rounds"
  shows "fst (WriteHelper lm content type p) \<noteq> Diverge
     \<and> WriteHelperLoop rounds lm type content 0 (length content)
         = WriteHelperLoop (length content) lm type content 0 (length content)"
proof -
  have "ends (WriteHelperLoop (length content) lm type content 0 (length content))"
    by (rule write_loop_ends) (use assms(1) in simp_all)
  then have "ends (WriteHelper lm content type)" unfolding WriteHelper_def by (intro ending)
  then show ?thesis
    using write_loop_rounds [of 0 content rounds "length content" lm type] assms
    by (cases p) (simp add: ends_def)
qed

theorem WriteHelper_ends_witness:
  "fst (WriteHelper 1024 [7] kFCGI_STDOUT (example_ready [], example_request True)) \<noteq> Diverge
     \<and> WriteHelperLoop 9 1024 kFCGI_STDOUT [7] 0 1 = WriteHelperLoop 1 1024 kFCGI_STDOUT [7] 0 1"
  using WriteHelper_ends [of 1024 "[7]" 9 kFCGI_STDOUT] by (simp add: iov_limit_def)

section \<open>The end of a request\<close>

text \<open>
  C37. Completed and null requests are inert: writes and completion return \<open>false\<close>, the abort status
  is what is known, destruction does nothing, and neither the interface nor the request changes. A
  move assignment may overwrite them: the target gets everything the source had and the source is
  left as a default constructed request.
\<close>

theorem completed_request_inert:
  assumes "completed q \<or> null_request q"
  shows "EndRequestHelper a p (s, q) = (Ok False, (s, q))
     \<and> WriteHelper lm content type (s, q) = (Ok False, (s, q))
     \<and> AbortStatus (s, q) = (Ok (was_aborted q), (s, q))
     \<and> FcgiRequest_destructor (s, q) = (Ok (), (s, q))
     \<and> FcgiRequest_move_assign False q q1 = Inr (q1, FcgiRequest_default)"
  using assms
  by (auto simp: EndRequestHelper_def WriteHelper_def AbortStatus_def FcgiRequest_destructor_def
      FcgiRequest_move_assign_def FcgiRequest_move_default)

theorem completed_request_inert_witness:
  "EndRequestHelper 0 0 (example_ready [], FcgiRequest_default) = (Ok False, (example_ready [], FcgiRequest_default))"
  using completed_request_inert [of FcgiRequest_default 0 0 "example_ready []" 1024 "[1]" kFCGI_STDERR]
  by (simp add: FcgiRequest_default_def)

end
