(* ===== verification/Server_Accept.thy ===== *)
theory Server_Accept
  imports Server_Send
begin

unbundle bit_operations_syntax

text \<open>
  \<open>AcceptConnection\<close> of \<open>fcgi/src/fcgi_server_interface.cc\<close>: a new connection is accepted, checked
  and entered into the maps of the interface.
\<close>

section \<open>System calls\<close>

abbreviation (input) AF_INET :: int where "AF_INET \<equiv> 2"
abbreviation (input) AF_INET6 :: int where "AF_INET6 \<equiv> 10"
abbreviation (input) SOCK_STREAM :: nat where "SOCK_STREAM \<equiv> 1"
abbreviation (input) O_NONBLOCK :: int where "O_NONBLOCK \<equiv> 2048"

text \<open>
  \<open>accept\<close> in its loop. The answer \<open>Count n\<close> is a new connection with the descriptor \<open>n\<close>, on which
  nothing has been sent or received; the kernel does not give a descriptor that is open, or one
  that is not below the limit \<open>lim\<close> of the process.
\<close>

definition sys_accept :: "int \<Rightarrow> fd option iop" where
  "sys_accept lim = (\<lambda>s. let k = os s in
     case retry [EINTR, ECONNABORTED] (script k) of
       None \<Rightarrow> (Blocked, s)
     | Some (Errno e, as) \<Rightarrow> (Ok None, s\<lparr>os := k\<lparr>errno := e, script := as\<rparr>\<rparr>)
     | Some (Count n, as) \<Rightarrow>
         if open_fds k (int n) \<noteq> None \<or> int n \<ge> lim then (Blocked, s)
         else (Ok (Some (int n)), s\<lparr>os := k\<lparr>script := as,
             open_fds := (open_fds k)(int n \<mapsto> Connected_socket),
             wire := (wire k)(int n := []), queue := (queue k)(int n := []),
             peer_gone := (peer_gone k)(int n := False), status_flags := (status_flags k)(int n := 0)\<rparr>\<rparr>))"

text \<open>\<open>getsockopt\<close> with an option of type \<open>int\<close>, in its loop; the answer is the value.\<close>

definition sys_getsockopt :: "nat option iop" where
  "sys_getsockopt = (\<lambda>s. let k = os s in
     case retry [EINTR] (script k) of
       None \<Rightarrow> (Blocked, s)
     | Some (Errno e, as) \<Rightarrow> (Ok None, s\<lparr>os := k\<lparr>errno := e, script := as\<rparr>\<rparr>)
     | Some (Count n, as) \<Rightarrow> (Ok (Some n), s\<lparr>os := k\<lparr>script := as\<rparr>\<rparr>))"

text \<open>\<open>fcntl(fd, F_GETFL)\<close> in its loop.\<close>

definition sys_getfl :: "fd \<Rightarrow> int iop" where
  "sys_getfl c = (\<lambda>s. let k = os s in
     case retry [EINTR] (script k) of
       None \<Rightarrow> (Blocked, s)
     | Some (Errno e, as) \<Rightarrow> (Ok (- 1), s\<lparr>os := k\<lparr>errno := e, script := as\<rparr>\<rparr>)
     | Some (Count n, as) \<Rightarrow> (Ok (status_flags k c), s\<lparr>os := k\<lparr>script := as\<rparr>\<rparr>))"

text \<open>
  \<open>fcntl(fd, F_SETFL, flags)\<close> in the loop of the code, which stores the value returned in \<open>flags\<close>:
  the call is repeated with the \<open>-1\<close> of the call that was interrupted. The result has the value of
  \<open>flags\<close> with which the last call was made.
\<close>

fun SetFlagsLoop :: "int \<Rightarrow> script \<Rightarrow> (answer \<times> int \<times> script) option" where
  "SetFlagsLoop flags [] = None"
| "SetFlagsLoop flags (Errno e # as) =
     (if e = EINTR then SetFlagsLoop (- 1) as else Some (Errno e, flags, as))"
| "SetFlagsLoop flags (Count n # as) = Some (Count n, flags, as)"

definition sys_setfl :: "fd \<Rightarrow> int \<Rightarrow> int iop" where
  "sys_setfl c flags = (\<lambda>s. let k = os s in
     case SetFlagsLoop flags (script k) of
       None \<Rightarrow> (Blocked, s)
     | Some (Errno e, given, as) \<Rightarrow> (Ok (- 1), s\<lparr>os := k\<lparr>errno := e, script := as\<rparr>\<rparr>)
     | Some (Count n, given, as) \<Rightarrow>
         (Ok 0, s\<lparr>os := k\<lparr>script := as, status_flags := (status_flags k)(c := given)\<rparr>\<rparr>))"

section \<open>The checks of a new connection\<close>

text \<open>
  The text of the address of the peer: of the one that \<open>accept\<close> stored if the interface has an
  internet domain, otherwise of an address with all bytes zero. \<open>inet_ntop\<close> does not fail for the
  two internet domains and a buffer of \<open>INET6_ADDRSTRLEN\<close> bytes.
\<close>

definition peer_text :: "fd \<Rightarrow> nat \<Rightarrow> interface \<Rightarrow> string" where
  "peer_text c new_socket_domain s =
     (if socket_domain s = AF_INET \<or> socket_domain s = AF_INET6 then peer_address (os s) c
      else if int new_socket_domain = AF_INET then ''0.0.0.0'' else ''::'')"

definition address_valid :: "fd \<Rightarrow> nat \<Rightarrow> interface \<Rightarrow> bool" where
  "address_valid c new_socket_domain s =
     (if valid_ip_address_set s \<noteq> []
      then if int new_socket_domain = AF_INET \<or> int new_socket_domain = AF_INET6
           then om_mem (peer_text c new_socket_domain s) (valid_ip_address_set s)
           else False
      else True)"

definition SetNonBlocking :: "fd \<Rightarrow> unit iop" where
  "SetNonBlocking c =
     bind (sys_getfl c) (\<lambda>flags.
       if flags = - 1 then throw_errno
       else bind (sys_setfl c (flags OR O_NONBLOCK)) (\<lambda>flags'.
         if flags' = - 1 then throw_errno else ret ()))"

text \<open>
  The modification of the maps and its undoing when one of the three insertions finds the
  descriptor in its map.
\<close>

definition RegisterConnection :: "fd \<Rightarrow> unit iop" where
  "RegisterConnection c =
     bind (gets (\<lambda>s. (\<not> om_mem c (record_status_map s), \<not> om_mem c (write_mutex_map s),
                      \<not> om_mem c (request_count_map s)))) (\<lambda>(status_new, mutex_new, count_new).
       and_then
         (modify (\<lambda>s. s\<lparr>
            record_status_map := om_insert c (RecordStatus_new c) (record_status_map s),
            write_mutex_map := om_insert c (False, False) (write_mutex_map s),
            request_count_map := om_insert c 0 (request_count_map s)\<rparr>))
         (if status_new \<and> mutex_new \<and> count_new then ret ()
          else and_then
            (modify (\<lambda>s. s\<lparr>
               record_status_map := (if status_new then om_erase c (record_status_map s) else record_status_map s),
               write_mutex_map := (if mutex_new then om_erase c (write_mutex_map s) else write_mutex_map s),
               request_count_map := (if count_new then om_erase c (request_count_map s) else request_count_map s)\<rparr>))
            (throw LogicError)))"

text \<open>
  What follows the call of \<open>accept\<close>, up to the release of the descriptor from the local object
  that manages it: the result says whether it is released.
\<close>

definition CheckConnection :: "fd \<Rightarrow> bool iop" where
  "CheckConnection c =
     bind sys_getsockopt (\<lambda>socket_type. case socket_type of
       None \<Rightarrow> throw_errno
     | Some new_socket_type \<Rightarrow>
         bind (gets (\<lambda>s. application_overload s
                 \<or> int (length (record_status_map s)) \<ge> maximum_connection_count s
                 \<or> new_socket_type \<noteq> SOCK_STREAM)) (\<lambda>rejected.
           if rejected then ret False
           else bind sys_getsockopt (\<lambda>domain. case domain of
               None \<Rightarrow> throw_errno
             | Some new_socket_domain \<Rightarrow>
                 bind (gets (\<lambda>s. int new_socket_domain = socket_domain s
                         \<and> address_valid c new_socket_domain s)) (\<lambda>valid.
                   if \<not> valid then ret False
                   else and_then (SetNonBlocking c)
                     (and_then (RegisterConnection c) (ret True))))))"

text \<open>The destructor of the managing object closes the descriptor and ignores an error.\<close>

definition close_managed :: "fd \<Rightarrow> unit iop" where
  "close_managed c = bind (sys_close c) (\<lambda>_. ret ())"

definition AcceptConnection :: "int \<Rightarrow> int iop" where
  "AcceptConnection lim =
     bind (sys_accept lim) (\<lambda>accept_return. case accept_return of
       None \<Rightarrow> bind (gets (\<lambda>s. errno (os s))) (\<lambda>e.
         if e = EWOULDBLOCK \<or> e = EAGAIN then ret (- 1) else throw (SystemError e))
     | Some c \<Rightarrow> bind (on_throw (CheckConnection c) (close_managed c)) (\<lambda>released.
         if released then ret c else and_then (close_managed c) (ret 0)))"

text \<open>
  The loop \<open>while(AcceptConnection() != -1)\<close> of \<open>AcceptRequests\<close>. Each turn takes an answer from the
  script (shown in \<open>Connection_Safety\<close>), so that one turn more than there are answers is enough fuel; a
  loop that would go on is \<open>Diverge\<close>, not to be taken for a turn that waits for the kernel.
\<close>

fun AcceptLoop :: "nat \<Rightarrow> int \<Rightarrow> unit iop" where
  "AcceptLoop 0 lim = diverge"
| "AcceptLoop (Suc fuel) lim =
     bind (AcceptConnection lim) (\<lambda>accepted. if accepted = - 1 then ret () else AcceptLoop fuel lim)"

end
