(* ===== verification/Connection_Safety.thy ===== *)
theory Connection_Safety
  imports Request_Rules Server_Accept
begin

text \<open>
  The correctness of \<open>AcceptConnection\<close>: a connection that passes the checks is registered in all
  maps, every other descriptor is closed again, and the invariant is kept.
\<close>

section \<open>The state while a connection is checked\<close>

definition fds_inv :: "int \<Rightarrow> interface \<Rightarrow> bool" where
  "fds_inv lim s \<longleftrightarrow> (\<forall>c. open_fds (os s) c \<noteq> None \<longrightarrow> 0 \<le> c \<and> c < lim)"

text \<open>The kernel has not touched other descriptors than \<open>c\<close>.\<close>

definition same_kernel :: "fd \<Rightarrow> kernel \<Rightarrow> kernel \<Rightarrow> bool" where
  "same_kernel c k0 k \<longleftrightarrow> (\<forall>d. d \<noteq> c \<longrightarrow> open_fds k d = open_fds k0 d \<and> wire k d = wire k0 d
     \<and> queue k d = queue k0 d \<and> peer_gone k d = peer_gone k0 d)
     \<and> peer_address k = peer_address k0"

text \<open>The descriptor \<open>c\<close> is open and nothing else is different.\<close>

definition opened :: "int \<Rightarrow> interface \<Rightarrow> fd \<Rightarrow> interface \<Rightarrow> bool" where
  "opened lim s0 c s \<longleftrightarrow> s = s0\<lparr>os := os s\<rparr> \<and> same_kernel c (os s0) (os s)
     \<and> open_fds (os s0) c = None \<and> open_fds (os s) c = Some Connected_socket \<and> 0 \<le> c \<and> c < lim
     \<and> wire (os s) c = [] \<and> \<not> peer_gone (os s) c"

text \<open>
  The answers of the kernel: \<open>accept\<close> finds no connection, or gives the descriptor \<open>n\<close>; then the two
  calls of \<open>getsockopt\<close> give the type \<open>t\<close> and the domain \<open>d\<close> of the socket. \<open>as\<close> are the answers to come.
\<close>

definition none_pending :: "interface \<Rightarrow> bool" where
  "none_pending s \<longleftrightarrow> (\<exists>as. retry [EINTR, ECONNABORTED] (script (os s)) = Some (Errno EAGAIN, as))"

definition offers :: "interface \<Rightarrow> nat \<Rightarrow> script \<Rightarrow> bool" where
  "offers s n as \<longleftrightarrow> retry [EINTR, ECONNABORTED] (script (os s)) = Some (Count n, as)"

definition typed :: "interface \<Rightarrow> nat \<Rightarrow> nat \<Rightarrow> script \<Rightarrow> bool" where
  "typed s n t as \<longleftrightarrow> (\<exists>as1. offers s n as1 \<and> retry [EINTR] as1 = Some (Count t, as))"

definition described :: "interface \<Rightarrow> nat \<Rightarrow> nat \<Rightarrow> nat \<Rightarrow> script \<Rightarrow> bool" where
  "described s n t d as \<longleftrightarrow> (\<exists>as1. typed s n t as1 \<and> retry [EINTR] as1 = Some (Count d, as))"

text \<open>The checks of a new connection: those that need only the type, and all.\<close>

definition room_for :: "nat \<Rightarrow> interface \<Rightarrow> bool" where
  "room_for t s \<longleftrightarrow> \<not> application_overload s
     \<and> int (length (record_status_map s)) < maximum_connection_count s \<and> t = SOCK_STREAM"

definition acceptable :: "fd \<Rightarrow> nat \<Rightarrow> nat \<Rightarrow> interface \<Rightarrow> bool" where
  "acceptable c t d s \<longleftrightarrow> room_for t s \<and> int d = socket_domain s \<and> address_valid c d s"

definition admitted :: "fd \<Rightarrow> interface \<Rightarrow> bool" where
  "admitted c s \<longleftrightarrow> (\<exists>n t d as. c = int n \<and> described s n t d as \<and> acceptable c t d s)"

definition refused :: "interface \<Rightarrow> bool" where
  "refused s \<longleftrightarrow> (\<exists>n t as. typed s n t as
     \<and> (\<not> room_for t s \<or> (\<exists>d as'. described s n t d as' \<and> \<not> acceptable (int n) t d s)))"

definition registered :: "int \<Rightarrow> interface \<Rightarrow> fd \<Rightarrow> interface \<Rightarrow> bool" where
  "registered lim s0 c s \<longleftrightarrow> admitted c s0 \<and> bit (status_flags (os s) c) 11
     \<and> opened lim s0 c (s0\<lparr>os := os s\<rparr>)
     \<and> s = s0\<lparr>record_status_map := om_insert c (RecordStatus_new c) (record_status_map s0),
            write_mutex_map := om_insert c (False, False) (write_mutex_map s0),
            request_count_map := om_insert c 0 (request_count_map s0), os := os s\<rparr>"

text \<open>Nothing is different but what the kernel did for closed descriptors.\<close>

definition untouched :: "interface \<Rightarrow> interface \<Rightarrow> bool" where
  "untouched s0 s \<longleftrightarrow> s = s0\<lparr>os := os s\<rparr> \<and> open_fds (os s) = open_fds (os s0)
     \<and> (\<forall>d. open_fds (os s0) d \<noteq> None \<longrightarrow> wire (os s) d = wire (os s0) d
          \<and> queue (os s) d = queue (os s0) d \<and> peer_gone (os s) d = peer_gone (os s0) d)"

lemma step_syscall:
  assumes "\<And>s. P s \<Longrightarrow> case m s of (Ok x, s') \<Rightarrow> P s' | (Blocked, s') \<Rightarrow> True | _ \<Rightarrow> False"
      and "\<And>x. hoare_gen T P (f x) Q E"
  shows "hoare_gen T P (bind m f) Q E"
  by (rule hoare_bind [OF assms(2)])
     (auto simp: hoare_def dest!: assms(1) split: prod.splits outcome.splits)

lemma set_os: "s = s0\<lparr>os := os s\<rparr> \<Longrightarrow> s\<lparr>os := k\<rparr> = s0\<lparr>os := k\<rparr>"
  by (drule arg_cong [where f = "\<lambda>s. s\<lparr>os := k\<rparr>"]) simp

lemma opened_os: "opened lim s0 c s \<Longrightarrow> open_fds k = open_fds (os s) \<Longrightarrow> wire k = wire (os s) \<Longrightarrow>
    queue k = queue (os s) \<Longrightarrow> peer_gone k = peer_gone (os s) \<Longrightarrow> peer_address k = peer_address (os s) \<Longrightarrow>
    opened lim s0 c (s\<lparr>os := k\<rparr>)"
  using set_os [of s s0 k] by (simp add: opened_def same_kernel_def)

text \<open>The answer of \<open>getsockopt\<close> is the next one that is not an interruption.\<close>

lemma step_getsockopt:
  assumes "hoare_gen T (opened lim s0 c) (f None) Q E"
      and "\<And>x. hoare_gen T (\<lambda>s. opened lim s0 c s \<and> (\<exists>as. R as \<and> retry [EINTR] as = Some (Count x, script (os s))))
             (f (Some x)) Q E"
  shows "hoare_gen T (\<lambda>s. opened lim s0 c s \<and> R (script (os s))) (bind sys_getsockopt f) Q E"
proof (rule hoare_bind [where R = "\<lambda>x s. opened lim s0 c s \<and>
      (case x of None \<Rightarrow> True | Some t \<Rightarrow> \<exists>as. R as \<and> retry [EINTR] as = Some (Count t, script (os s)))"])
  fix x
  show "hoare_gen T (\<lambda>s. opened lim s0 c s \<and>
      (case x of None \<Rightarrow> True | Some t \<Rightarrow> \<exists>as. R as \<and> retry [EINTR] as = Some (Count t, script (os s)))) (f x) Q E"
    using assms by (cases x) simp_all
next
  show "hoare_gen T (\<lambda>s. opened lim s0 c s \<and> R (script (os s))) sys_getsockopt (\<lambda>x s. opened lim s0 c s \<and>
      (case x of None \<Rightarrow> True | Some t \<Rightarrow> \<exists>as. R as \<and> retry [EINTR] as = Some (Count t, script (os s)))) E"
    by (auto simp: hoare_def sys_getsockopt_def Let_def opened_os split: option.splits prod.splits answer.splits)
qed

lemma bit_nonblock: "bit (a OR 2048) (11 :: nat)" for a :: int
proof -
  have "bit (2048 :: int) 11" by (simp add: bit_iff_odd)
  then show ?thesis by (simp add: bit_or_iff)
qed

lemma SetFlags_bit: "SetFlagsLoop flags as = Some (a, given, as') \<Longrightarrow> bit flags 11 \<Longrightarrow> bit given 11"
  by (induction flags as rule: SetFlagsLoop.induct) (auto split: if_splits)

lemma step_throw_errno:
  assumes "\<And>s n. P s \<Longrightarrow> E (SystemError n) s"
  shows "hoare_gen T P throw_errno Q E"
  using assms by (simp add: hoare_def throw_errno_def)

lemma nonblocking_step:
  "hoare (opened lim s0 c) (SetNonBlocking c)
     (\<lambda>_ s. opened lim s0 c s \<and> bit (status_flags (os s) c) 11)
     (\<lambda>e s. opened lim s0 c s \<and> (\<exists>n. e = SystemError n))"
  unfolding SetNonBlocking_def
proof (rule step_syscall)
  fix s assume "opened lim s0 c s"
  then show "case sys_getfl c s of (Ok x, s') \<Rightarrow> opened lim s0 c s' | (Blocked, s') \<Rightarrow> True | _ \<Rightarrow> False"
    by (auto simp: sys_getfl_def Let_def opened_os split: option.splits prod.splits answer.splits)
next
  fix flags :: int
  show "hoare (opened lim s0 c) (if flags = - 1 then throw_errno
       else bind (sys_setfl c (flags OR 2048)) (\<lambda>flags'. if flags' = - 1 then throw_errno else ret ()))
     (\<lambda>_ s. opened lim s0 c s \<and> bit (status_flags (os s) c) 11)
     (\<lambda>e s. opened lim s0 c s \<and> (\<exists>n. e = SystemError n))"
  proof (rule step_if)
    show "hoare (opened lim s0 c) (bind (sys_setfl c (flags OR 2048))
          (\<lambda>flags'. if flags' = - 1 then throw_errno else ret ()))
        (\<lambda>_ s. opened lim s0 c s \<and> bit (status_flags (os s) c) 11)
        (\<lambda>e s. opened lim s0 c s \<and> (\<exists>n. e = SystemError n))"
    proof (rule hoare_bind [where R = "\<lambda>x s. opened lim s0 c s \<and> (x \<noteq> - 1 \<longrightarrow> bit (status_flags (os s) c) 11)"])
      show "hoare (opened lim s0 c) (sys_setfl c (flags OR 2048))
          (\<lambda>x s. opened lim s0 c s \<and> (x \<noteq> - 1 \<longrightarrow> bit (status_flags (os s) c) 11))
          (\<lambda>e s. opened lim s0 c s \<and> (\<exists>n. e = SystemError n))"
        using SetFlags_bit [OF _ bit_nonblock [of flags]]
        by (auto simp: hoare_def sys_setfl_def Let_def opened_os split: option.splits prod.splits answer.splits)
    qed (intro step_if step_throw_errno step_ret; simp)
  qed (intro step_throw_errno; simp)
qed

section \<open>Registering\<close>

lemma opened_obtain:
  assumes "opened lim s0 c s"
  obtains k where "s = s0\<lparr>os := k\<rparr>"
  using assms by (auto simp: opened_def)

lemma register_run:
  assumes "books_inv s0" and "opened lim s0 c s"
  shows "RegisterConnection c s = (Ok (), s0\<lparr>
       record_status_map := om_insert c (RecordStatus_new c) (record_status_map s0),
       write_mutex_map := om_insert c (False, False) (write_mutex_map s0),
       request_count_map := om_insert c 0 (request_count_map s0), os := os s\<rparr>)"
proof -
  obtain k where k: "s = s0\<lparr>os := k\<rparr>" using assms(2) by (rule opened_obtain)
  have "open_fds (os s0) c = None" using assms(2) by (simp add: opened_def)
  then have "c \<notin> keys (record_status_map s0)" "c \<notin> keys (write_mutex_map s0)"
      "c \<notin> keys (request_count_map s0)"
    using assms(1) by (auto simp: books_inv_def descriptors_inv_def counts_inv_def)
  then show ?thesis
    by (simp add: k RegisterConnection_def om_mem_keys)
qed

text \<open>The members that the checks read are those before the call.\<close>

lemma opened_same:
  assumes "opened lim s0 c s"
  shows "application_overload s = application_overload s0" "record_status_map s = record_status_map s0"
    "maximum_connection_count s = maximum_connection_count s0" "socket_domain s = socket_domain s0"
    "address_valid c d s = address_valid c d s0"
proof -
  obtain k where k: "s = s0\<lparr>os := k\<rparr>" using assms by (rule opened_obtain)
  have "peer_address (os s) = peer_address (os s0)" using assms by (simp add: opened_def same_kernel_def)
  then show "application_overload s = application_overload s0" "record_status_map s = record_status_map s0"
    "maximum_connection_count s = maximum_connection_count s0" "socket_domain s = socket_domain s0"
    "address_valid c d s = address_valid c d s0"
    by (simp_all add: k address_valid_def peer_text_def)
qed

lemma step_known:
  assumes "\<And>s. P s \<Longrightarrow> g s = v" and "hoare_gen T P (f v) Q E"
  shows "hoare_gen T P (bind (gets (\<lambda>s. g s)) f) Q E"
  using assms by (simp add: hoare_def)

lemma register_step:
  assumes "books_inv s0" and "admitted c s0"
  shows "hoare (opened lim s0 c) (and_then (SetNonBlocking c) (and_then (RegisterConnection c) (ret True)))
     (\<lambda>ok s. ok \<and> registered lim s0 c s) (\<lambda>e s. opened lim s0 c s \<and> (\<exists>n. e = SystemError n))"
proof (rule hoare_bind [OF _ nonblocking_step], rule hoareI)
  fix s assume s: "opened lim s0 c s \<and> bit (status_flags (os s) c) 11"
  then obtain k where k: "s = s0\<lparr>os := k\<rparr>" by (auto elim: opened_obtain)
  show "case and_then (RegisterConnection c) (ret True) s of
       (Ok ok, s') \<Rightarrow> ok \<and> registered lim s0 c s'
     | (Throw e, s') \<Rightarrow> opened lim s0 c s' \<and> (\<exists>n. e = SystemError n) | (Blocked, s') \<Rightarrow> True
     | (Terminate, s') \<Rightarrow> False | (Diverge, s') \<Rightarrow> False | (Undefined, s') \<Rightarrow> False"
    using register_run [OF assms(1), of lim c s] s assms(2)
    by (simp add: bind_def registered_def k)
qed

lemma check_step:
  assumes "books_inv s0" and c: "c = int n"
  shows "hoare (\<lambda>s. opened lim s0 c s \<and> offers s0 n (script (os s))) (CheckConnection c)
     (\<lambda>ok s. if ok then registered lim s0 c s else opened lim s0 c s \<and> refused s0)
     (\<lambda>e s. opened lim s0 c s \<and> (\<exists>n. e = SystemError n))"
proof -
  let ?Q = "\<lambda>ok s. if ok then registered lim s0 c s else opened lim s0 c s \<and> refused s0"
  let ?E = "\<lambda>e s. opened lim s0 c s \<and> (\<exists>n. e = SystemError n)"
  have failed: "hoare (opened lim s0 c) throw_errno ?Q ?E" by (rule step_throw_errno) auto
  have described: "hoare (\<lambda>s. opened lim s0 c s \<and> described s0 n t d (script (os s)))
      (if \<not> v then ret False else and_then (SetNonBlocking c) (and_then (RegisterConnection c) (ret True))) ?Q ?E"
    if "room_for t s0" "v \<longleftrightarrow> int d = socket_domain s0 \<and> address_valid c d s0" for t d v
  proof (cases v)
    case True
    show ?thesis
    proof (rule hoare_know)
      fix s assume s: "opened lim s0 c s \<and> described s0 n t d (script (os s))"
      have "acceptable c t d s0" using that True by (simp add: acceptable_def)
      then have "admitted c s0" using s c unfolding admitted_def by blast
      from register_step [OF assms(1) this, of lim]
      have "hoare (\<lambda>t. t = s) (and_then (SetNonBlocking c) (and_then (RegisterConnection c) (ret True))) ?Q ?E"
        by (rule hoare_weaken) (use s in auto)
      then show "hoare (\<lambda>t. t = s) (if \<not> v then ret False
          else and_then (SetNonBlocking c) (and_then (RegisterConnection c) (ret True))) ?Q ?E" using True by simp
    qed
  next
    case False
    have "\<not> acceptable c t d s0" using that False by (simp add: acceptable_def)
    then have "refused s0" if "described s0 n t d as" for as
      using that c unfolding refused_def by (meson described_def)
    then show ?thesis using False by (auto intro!: step_ret)
  qed
  have typed: "hoare (\<lambda>s. opened lim s0 c s \<and> typed s0 n t (script (os s)))
      (if b then ret False else bind sys_getsockopt (\<lambda>domain. case domain of
               None \<Rightarrow> throw_errno
             | Some new_socket_domain \<Rightarrow>
                 bind (gets (\<lambda>s. int new_socket_domain = socket_domain s
                         \<and> address_valid c new_socket_domain s)) (\<lambda>valid.
                   if \<not> valid then ret False
                   else and_then (SetNonBlocking c) (and_then (RegisterConnection c) (ret True))))) ?Q ?E"
    if "b \<longleftrightarrow> \<not> room_for t s0" for t b
  proof (cases b)
    case True
    then show ?thesis using that by (auto simp: refused_def intro!: step_ret)
  next
    case False
    have known: "hoare (\<lambda>s. opened lim s0 c s \<and> described s0 n t d (script (os s)))
        (bind (gets (\<lambda>s. int d = socket_domain s \<and> address_valid c d s)) (\<lambda>valid.
           if \<not> valid then ret False
           else and_then (SetNonBlocking c) (and_then (RegisterConnection c) (ret True)))) ?Q ?E" for d
      by (rule step_known [where v = "int d = socket_domain s0 \<and> address_valid c d s0"])
         (use False that described [OF _ refl] in \<open>auto simp: opened_same\<close>)
    show ?thesis unfolding if_not_P [OF False]
      by (rule step_getsockopt [where R = "typed s0 n t"])
         (simp_all only: option.case failed known [unfolded described_def])
  qed
  have known: "hoare (\<lambda>s. opened lim s0 c s \<and> typed s0 n t (script (os s)))
      (bind (gets (\<lambda>s. application_overload s
                 \<or> int (length (record_status_map s)) \<ge> maximum_connection_count s
                 \<or> t \<noteq> SOCK_STREAM)) (\<lambda>rejected.
           if rejected then ret False
           else bind sys_getsockopt (\<lambda>domain. case domain of
               None \<Rightarrow> throw_errno
             | Some new_socket_domain \<Rightarrow>
                 bind (gets (\<lambda>s. int new_socket_domain = socket_domain s
                         \<and> address_valid c new_socket_domain s)) (\<lambda>valid.
                   if \<not> valid then ret False
                   else and_then (SetNonBlocking c) (and_then (RegisterConnection c) (ret True)))))) ?Q ?E" for t
    by (rule step_known [where v = "\<not> room_for t s0"]) (use typed [OF refl] in \<open>auto simp: opened_same room_for_def\<close>)
  show ?thesis unfolding CheckConnection_def
    by (rule step_getsockopt [where R = "offers s0 n"])
       (simp_all only: option.case failed known [unfolded typed_def])
qed

section \<open>Accepting a connection\<close>

text \<open>What a call of \<open>AcceptConnection\<close> that does not block leaves.\<close>

definition accepted :: "int \<Rightarrow> interface \<Rightarrow> int \<Rightarrow> interface \<Rightarrow> bool" where
  "accepted lim s0 x s \<longleftrightarrow> registered lim s0 x s
     \<or> untouched s0 s \<and> (x = - 1 \<and> none_pending s0 \<or> x = 0 \<and> refused s0)"

lemma closed_untouched:
  assumes "opened lim s0 c s"
  shows "case close_managed c s of (Ok _, s') \<Rightarrow> untouched s0 s' | (Blocked, _) \<Rightarrow> True | _ \<Rightarrow> False"
proof -
  obtain k where k: "s = s0\<lparr>os := k\<rparr>" using assms by (rule opened_obtain)
  have "d \<noteq> c" if "open_fds (os s0) d = Some y" for d y using assms that by (auto simp: opened_def)
  then show ?thesis using assms
    by (auto simp: close_managed_def sys_close_def bind_def Let_def untouched_def opened_def same_kernel_def
        k ret_def fun_eq_iff split: list.splits answer.splits)
qed

lemma accept_connection_step:
  assumes "books_inv s0" and "fds_inv lim s0"
  shows "hoare (\<lambda>s. s = s0) (AcceptConnection lim) (accepted lim s0)
     (\<lambda>e s. untouched s0 s \<and> (\<exists>n. e = SystemError n))"
proof -
  let ?E = "\<lambda>e s. untouched s0 s \<and> (\<exists>n. e = SystemError n)"
  let ?P = "\<lambda>r s. case r of None \<Rightarrow> untouched s0 s \<and> (errno (os s) = EAGAIN \<longrightarrow> none_pending s0)
     | Some c \<Rightarrow> opened lim s0 c s \<and> (\<exists>n. c = int n \<and> offers s0 n (script (os s)))"
  have close: "hoare (\<lambda>s. opened lim s0 c s \<and> A) (close_managed c) (\<lambda>_ s. untouched s0 s \<and> A) E" for c A E
    using closed_untouched [of lim s0 c] by (force simp: hoare_def split: prod.splits outcome.splits)
  have first: "hoare (\<lambda>s. s = s0) (sys_accept lim) ?P ?E"
    by (auto simp: hoare_def sys_accept_def Let_def untouched_def opened_def same_kernel_def none_pending_def
        offers_def split: option.splits prod.splits answer.splits)
  show ?thesis unfolding AcceptConnection_def
  proof (rule hoare_bind [OF _ first])
    fix r :: "fd option"
    show "hoare (?P r) (case r of None \<Rightarrow> bind (gets (\<lambda>s. errno (os s))) (\<lambda>e.
           if e = 11 \<or> e = 11 then ret (- 1) else throw (SystemError e))
         | Some c \<Rightarrow> bind (on_throw (CheckConnection c) (close_managed c)) (\<lambda>released.
             if released then ret c else and_then (close_managed c) (ret 0)))
       (accepted lim s0) ?E"
    proof (cases r)
      case None
      then show ?thesis by (simp add: hoare_def accepted_def ret_def throw_def)
    next
      case (Some c)
      have checked: "hoare (\<lambda>s. opened lim s0 c s \<and> (\<exists>n. c = int n \<and> offers s0 n (script (os s))))
          (on_throw (CheckConnection c) (close_managed c))
          (\<lambda>ok s. if ok then registered lim s0 c s else opened lim s0 c s \<and> refused s0) ?E"
      proof (rule hoare_know)
        fix s assume "opened lim s0 c s \<and> (\<exists>n. c = int n \<and> offers s0 n (script (os s)))"
        then obtain n where n: "c = int n" "opened lim s0 c s \<and> offers s0 n (script (os s))" by blast
        show "hoare (\<lambda>t. t = s) (on_throw (CheckConnection c) (close_managed c))
          (\<lambda>ok s. if ok then registered lim s0 c s else opened lim s0 c s \<and> refused s0) ?E"
          by (rule hoare_pre [OF hoare_on_throw [OF check_step [OF assms(1) n(1)] close]]) (simp add: n(2))
      qed
      show ?thesis unfolding Some option.case
      proof (rule hoare_bind [OF _ checked])
        fix ok
        show "hoare (\<lambda>s. if ok then registered lim s0 c s else opened lim s0 c s \<and> refused s0)
           (if ok then ret c else and_then (close_managed c) (ret 0)) (accepted lim s0) ?E"
          using close [of c "refused s0" ?E]
          by (auto simp: accepted_def intro!: step_ret hoare_bind [where R = "\<lambda>_ s. untouched s0 s \<and> refused s0"])
      qed
    qed
  qed
qed

section \<open>Each call takes an answer\<close>

lemma retry_shorter: "retry es as = Some (a, as') \<Longrightarrow> length as' < length as"
  by (induction es as rule: retry.induct) (auto split: if_splits)

definition at_most :: "nat \<Rightarrow> interface \<Rightarrow> bool" where
  "at_most n s \<longleftrightarrow> length (script (os s)) \<le> n"

lemma SetFlags_shorter: "SetFlagsLoop flags as = Some (a, given, as') \<Longrightarrow> length as' < length as"
  by (induction flags as rule: SetFlagsLoop.induct) (auto split: if_splits)

lemma script_syscalls:
  "keeps (at_most n) sys_getsockopt" "keeps (at_most n) (sys_getfl c)" "keeps (at_most n) (sys_setfl c f)"
  "keeps (at_most n) (sys_close c)"
  by (auto simp: keeps_def hoare_def at_most_def sys_getsockopt_def sys_getfl_def sys_setfl_def sys_close_def
      Let_def split: option.splits list.splits answer.splits dest!: retry_shorter SetFlags_shorter)

lemma keeps_if: "keeps I m \<Longrightarrow> keeps I n \<Longrightarrow> keeps I (if b then m else n)"
  by simp

lemma keeps_option: "keeps I m \<Longrightarrow> (\<And>x. keeps I (f x)) \<Longrightarrow> keeps I (case a of None \<Rightarrow> m | Some x \<Rightarrow> f x)"
  by (cases a) simp_all

lemma script_check: "keeps (at_most n) (CheckConnection c)"
proof -
  have "keeps (at_most n) (RegisterConnection c)"
    by (auto simp: keeps_def hoare_def RegisterConnection_def at_most_def)
  then show ?thesis
    unfolding CheckConnection_def SetNonBlocking_def throw_errno_def
    by (intro keeps_bind keeps_if keeps_option keeps_ret keeps_throw keeps_gets script_syscalls) 
qed

lemma accept_shorter:
  assumes "AcceptConnection lim s = (Ok x, s')"
  shows "length (script (os s')) < length (script (os s))"
proof (cases "script (os s)")
  case Nil
  then show ?thesis using assms by (simp add: AcceptConnection_def sys_accept_def bind_def)
next
  case (Cons a as)
  let ?n = "length as"
  have first: "hoare (\<lambda>t. t = s) (sys_accept lim) (\<lambda>_. at_most ?n) (\<lambda>_. at_most ?n)"
    using Cons by (auto simp: hoare_def sys_accept_def Let_def at_most_def
        split: option.splits answer.splits dest!: retry_shorter)
  have close: "keeps (at_most ?n) (close_managed c)" for c
    unfolding close_managed_def by (intro keeps_bind keeps_ret script_syscalls)
  have "hoare (\<lambda>t. t = s) (AcceptConnection lim) (\<lambda>_. at_most ?n) (\<lambda>_. at_most ?n)"
    unfolding AcceptConnection_def
    by (rule hoare_bind [OF _ first], fold keeps_def)
       (intro keeps_option keeps_bind keeps_gets keeps_if keeps_ret keeps_throw keeps_on_throw script_check close)
  from hoare_Ok [OF this refl assms] show ?thesis by (simp add: at_most_def Cons)
qed

text \<open>Whatever the state is, the call has no undefined behaviour, does not end the program, and ends.\<close>

lemma accept_calm: "fst (AcceptConnection lim s) \<notin> {Undefined, Terminate, Diverge}"
proof -
  have "keeps (\<lambda>_. True) (sys_accept lim)" "keeps (\<lambda>_. True) sys_getsockopt" "keeps (\<lambda>_. True) (sys_getfl c)"
      "keeps (\<lambda>_. True) (sys_setfl c f)" "keeps (\<lambda>_. True) (sys_close c)" "keeps (\<lambda>_. True) (RegisterConnection c)"
    for c f
    by (auto simp: keeps_def hoare_def sys_accept_def sys_getsockopt_def sys_getfl_def sys_setfl_def sys_close_def
        RegisterConnection_def Let_def split: option.splits list.splits answer.splits)
  then have "keeps (\<lambda>_. True) (AcceptConnection lim)"
    unfolding AcceptConnection_def CheckConnection_def SetNonBlocking_def throw_errno_def close_managed_def
    by (intro keeps_option keeps_bind keeps_gets keeps_if keeps_ret keeps_throw keeps_on_throw)
  from hoare_never [OF this [unfolded keeps_def]] show ?thesis by simp
qed

section \<open>The invariant\<close>

lemma untouchedD:
  assumes "untouched s0 s"
  shows "s = s0\<lparr>os := os s\<rparr>" "open_fds (os s) = open_fds (os s0)"
    "open_fds (os s0) d \<noteq> None \<Longrightarrow> wire (os s) d = wire (os s0) d \<and> queue (os s) d = queue (os s0) d
       \<and> peer_gone (os s) d = peer_gone (os s0) d"
  using assms unfolding untouched_def by blast+

lemma untouched_upto:
  assumes "server_upto P s0" and "untouched s0 s"
  shows "server_upto P s"
proof -
  note u = untouchedD [OF assms(2)]
  have "server_upto P (s0\<lparr>os := os s\<rparr>)"
  proof (rule server_upto_os [OF assms(1) u(2)])
    fix c assume "om_find c (write_mutex_map s0) = Some (False, False)"
    then have "c \<in> keys (record_status_map s0)" using assms(1) om_find_Some_keys
      by (metis server_upto_def books_inv_def descriptors_inv_def)
    then have "open_fds (os s0) c \<noteq> None"
      using assms(1) by (simp add: server_upto_def books_inv_def descriptors_inv_def)
    then show "wire (os s) c = wire (os s0) c \<and> peer_gone (os s) c = peer_gone (os s0) c"
      using u(3) by blast
  qed
  then show ?thesis using u(1) by metis
qed

lemma registered_books:
  assumes "books_inv s0" and "registered lim s0 c s"
  shows "books_inv s"
proof -
  let ?k = "os s"
  have op: "opened lim s0 c (s0\<lparr>os := ?k\<rparr>)" using assms(2) by (simp only: registered_def)
  then have "open_fds (os s0) c = None" "open_fds ?k c = Some Connected_socket"
      and others: "\<And>d. d \<noteq> c \<Longrightarrow> open_fds ?k d = open_fds (os s0) d"
    by (simp_all add: opened_def same_kernel_def)
  moreover from this have "open_fds ?k d = Some x" if "open_fds (os s0) d = Some x" for d x
    using that by (cases "d = c") simp_all
  ultimately have o: "open_fds (os s0) c = None" "open_fds ?k c = Some Connected_socket"
      "\<And>d x. open_fds (os s0) d = Some x \<Longrightarrow> open_fds ?k d = Some x" by blast+
  have inv: "descriptors_inv s0" "counts_inv s0" "requests_inv s0" "statuses_inv s0"
    using assms(1) by (simp_all add: books_inv_def)
  have wf: "om_wf (record_status_map s0)" "om_wf (write_mutex_map s0)" "om_wf (request_count_map s0)"
    using inv(1) by (simp_all add: descriptors_inv_def)
  have new: "c \<notin> keys (record_status_map s0)" "c \<notin> keys (write_mutex_map s0)"
      "c \<notin> keys (request_count_map s0)" "c \<notin> keys (dummy_descriptor_set s0)"
    using o(1) inv(1,2) by (auto simp: descriptors_inv_def counts_inv_def)
  let ?s = "s0\<lparr>record_status_map := om_insert c (RecordStatus_new c) (record_status_map s0),
            write_mutex_map := om_insert c (False, False) (write_mutex_map s0),
            request_count_map := om_insert c 0 (request_count_map s0), os := ?k\<rparr>"
  have s: "s = ?s" using assms(2) unfolding registered_def by blast
  have none: "requests_of c s0 = {}"
    using new(3) inv(2) by (auto simp: requests_of_def counts_inv_def)
  have desc: "descriptors_inv ?s" using inv(1) new o
    by (auto simp: descriptors_inv_def om_wf_insert)
  have "requests_of d ?s = requests_of d s0" for d by (simp add: requests_of_def)
  moreover have "om_find c (request_count_map s0) = None" using new(3) by (simp add: om_find_None_keys)
  ultimately have "counts_inv ?s" using inv(2) none wf
    by (auto simp: counts_inv_def om_find_insert split: if_splits)
  moreover note desc
  moreover have "requests_inv ?s" using inv(3) by (simp add: requests_inv_def)
  moreover have "statuses_inv ?s" using inv(4) new wf
    by (auto simp: statuses_inv_def om_find_insert om_find_None_keys [symmetric] RecordStatus_new_def
        split: option.splits if_splits)
  ultimately show ?thesis unfolding books_inv_def by (metis s)
qed

lemma registeredD:
  assumes "registered lim s0 c s"
  shows "s = s0\<lparr>record_status_map := om_insert c (RecordStatus_new c) (record_status_map s0),
            write_mutex_map := om_insert c (False, False) (write_mutex_map s0),
            request_count_map := om_insert c 0 (request_count_map s0), os := os s\<rparr>"
    "opened lim s0 c (s0\<lparr>os := os s\<rparr>)" "admitted c s0" "bit (status_flags (os s) c) 11"
  using assms unfolding registered_def by blast+

lemma registered_keys: "registered lim s0 c s \<Longrightarrow> keys (record_status_map s) = insert c (keys (record_status_map s0))"
  by (drule arg_cong [where f = record_status_map, OF registeredD(1)]) simp

lemma registered_upto:
  assumes "server_upto P s0" and "registered lim s0 c s"
  shows "server_upto P s"
proof -
  note r = registeredD [OF assms(2)]
  let ?s = "s0\<lparr>record_status_map := om_insert c (RecordStatus_new c) (record_status_map s0),
            write_mutex_map := om_insert c (False, False) (write_mutex_map s0),
            request_count_map := om_insert c 0 (request_count_map s0), os := os s\<rparr>"
  have inv: "books_inv s0" "closure_upto P s0" "\<not> bad_interface_state_detected s0"
      "framing_inv s0" "limits_inv s0" "reading_inv s0"
    using assms(1) by (simp_all add: server_upto_def)
  have wf: "om_wf (record_status_map s0)" "om_wf (write_mutex_map s0)"
    using inv(1) by (simp_all add: books_inv_def descriptors_inv_def)
  have o: "open_fds (os s0) c = None" "wire (os s) c = []" "\<not> peer_gone (os s) c"
      "\<And>d. d \<noteq> c \<Longrightarrow> wire (os s) d = wire (os s0) d \<and> peer_gone (os s) d = peer_gone (os s0) d"
    using r(2) by (simp_all add: opened_def same_kernel_def)
  have "om_find c (record_status_map s0) = None" "om_find c (write_mutex_map s0) = None"
    using o(1) inv(1) om_find_None_keys by (fastforce simp: books_inv_def descriptors_inv_def)+
  note new = this
  have "closure_upto P ?s" using inv(2) wf new
    by (auto simp: closure_upto_def om_find_insert split: if_splits)
  moreover have "framing_inv ?s" using inv(4) wf new o
    by (auto simp: framing_inv_def om_find_insert framed_def intro: exI [of _ "[]"] split: if_splits)
  moreover have "reading_inv ?s" using inv(6) wf new status_ok_new [of c]
    by (auto simp: reading_inv_def om_find_insert split: if_splits)
  moreover have "limits_inv ?s" "\<not> bad_interface_state_detected ?s"
    using inv(3,5) by (simp_all add: limits_inv_def)
  ultimately have "closure_upto P s \<and> framing_inv s \<and> reading_inv s \<and> limits_inv s
      \<and> \<not> bad_interface_state_detected s"
    using r(1) by metis
  then show ?thesis using registered_books [OF inv(1) assms(2)] by (simp add: server_upto_def)
qed

lemma fds_untouched: "fds_inv lim s0 \<Longrightarrow> untouched s0 s \<Longrightarrow> fds_inv lim s"
  using untouchedD(2) by (simp add: fds_inv_def)

lemma fds_registered: "fds_inv lim s0 \<Longrightarrow> registered lim s0 c s \<Longrightarrow> fds_inv lim s"
  by (drule registeredD(2)) (auto simp: fds_inv_def opened_def same_kernel_def)

lemma AcceptConnection_step:
  assumes "server_upto P s" and "fds_inv lim s"
  shows "case AcceptConnection lim s of
       (Ok x, s') \<Rightarrow> accepted lim s x s' \<and> server_upto P s' \<and> fds_inv lim s'
     | (Throw e, s') \<Rightarrow> untouched s s' \<and> server_upto P s' \<and> fds_inv lim s' \<and> (\<exists>n. e = SystemError n)
     | (Blocked, s') \<Rightarrow> True
     | _ \<Rightarrow> False"
proof -
  have books: "books_inv s" using assms(1) by (simp add: server_upto_def)
  note keep = untouched_upto [OF assms(1)] registered_upto [OF assms(1)]
    fds_untouched [OF assms(2)] fds_registered [OF assms(2)]
  show ?thesis using hoareD [OF accept_connection_step [OF books assms(2)] refl] keep
    by (auto simp: accepted_def split: prod.splits outcome.splits)
qed

text \<open>A connection that passes all checks is registered if the calls that make it non-blocking succeed.\<close>

lemma AcceptConnection_registers:
  assumes "books_inv s" and "described s n t d (Count f # Count g # as)" and "acceptable (int n) t d s"
      and "open_fds (os s) (int n) = None" and "int n < lim"
  shows "fst (AcceptConnection lim s) = Ok (int n)"
proof -
  let ?c = "int n" and ?k = "os s"
  obtain as1 as2 where as: "retry [EINTR, ECONNABORTED] (script ?k) = Some (Count n, as1)"
      "retry [EINTR] as1 = Some (Count t, as2)" "retry [EINTR] as2 = Some (Count d, Count f # Count g # as)"
    using assms(2) by (auto simp: described_def typed_def offers_def)
  let ?k1 = "\<lambda>as. ?k\<lparr>script := as, open_fds := (open_fds ?k)(?c \<mapsto> Connected_socket),
             wire := (wire ?k)(?c := []), queue := (queue ?k)(?c := []),
             peer_gone := (peer_gone ?k)(?c := False), status_flags := (status_flags ?k)(?c := 0)\<rparr>"
  have accept: "sys_accept lim s = (Ok (Some ?c), s\<lparr>os := ?k1 as1\<rparr>)"
    using as(1) assms(4,5) by (simp add: sys_accept_def Let_def)
  have type: "sys_getsockopt (s\<lparr>os := ?k1 as1\<rparr>) = (Ok (Some t), s\<lparr>os := ?k1 as2\<rparr>)"
    and domain: "sys_getsockopt (s\<lparr>os := ?k1 as2\<rparr>) = (Ok (Some d), s\<lparr>os := ?k1 (Count f # Count g # as)\<rparr>)"
    using as(2,3) by (simp_all add: sys_getsockopt_def Let_def)
  let ?k2 = "(?k1 as)\<lparr>status_flags := (status_flags ?k)(?c := 0 OR O_NONBLOCK)\<rparr>"
  have flags: "SetNonBlocking ?c (s\<lparr>os := ?k1 (Count f # Count g # as)\<rparr>) = (Ok (), s\<lparr>os := ?k2\<rparr>)"
    by (simp add: SetNonBlocking_def bind_def sys_getfl_def sys_setfl_def Let_def)
  have "opened lim s ?c (s\<lparr>os := ?k2\<rparr>)"
    using assms(4,5) by (simp add: opened_def same_kernel_def)
  from register_run [OF assms(1) this]
  obtain s' where register: "RegisterConnection ?c (s\<lparr>os := ?k2\<rparr>) = (Ok (), s')" by blast
  have "address_valid ?c d (s\<lparr>os := k\<rparr>) = address_valid ?c d s" if "peer_address k = peer_address ?k" for k
    using that by (simp add: address_valid_def peer_text_def)
  then have "CheckConnection ?c (s\<lparr>os := ?k1 as1\<rparr>) = (Ok True, s')"
    using assms(3) type domain flags register
    by (simp add: CheckConnection_def bind_def acceptable_def room_for_def gets_def ret_def)
  then show ?thesis using accept
    by (simp add: AcceptConnection_def bind_def on_throw_def try_catch_def ret_def)
qed

text \<open>
  C7. \<open>AcceptConnection\<close>: a call that returns a descriptor has registered a new connection, which is open,
  passes all the checks of the interface (no overload, fewer connections than the maximum, a stream
  socket, the domain of the listening socket, and an authorized address) and is non-blocking, and whose
  record status, write mutex and request count are those of a new connection. Otherwise it has changed
  nothing in the interface and left no descriptor open, and returns \<open>-1\<close>, because there was no connection
  to accept, or \<open>0\<close>, because a new connection has failed one of the checks. A \<open>system_error\<close> is the only
  exception, and leaves the interface and the open descriptors as they were. The invariant is kept.
  A connection that passes all the checks is registered if the system calls for it succeed.
\<close>

theorem AcceptConnection_correct:
  assumes "server_upto P s" and "fds_inv lim s"
  shows "(case AcceptConnection lim s of
       (Ok x, s') \<Rightarrow> server_upto P s' \<and> fds_inv lim s'
         \<and> (registered lim s x s'
            \<or> untouched s s' \<and> (x = - 1 \<and> none_pending s \<or> x = 0 \<and> refused s))
     | (Throw e, s') \<Rightarrow> server_upto P s' \<and> fds_inv lim s' \<and> untouched s s' \<and> (\<exists>n. e = SystemError n)
     | (Blocked, s') \<Rightarrow> True
     | _ \<Rightarrow> False)
   \<and> (\<forall>n t d f g as. described s n t d (Count f # Count g # as) \<and> acceptable (int n) t d s
        \<and> open_fds (os s) (int n) = None \<and> int n < lim \<longrightarrow> fst (AcceptConnection lim s) = Ok (int n))"
proof
  show "case AcceptConnection lim s of
       (Ok x, s') \<Rightarrow> server_upto P s' \<and> fds_inv lim s'
         \<and> (registered lim s x s'
            \<or> untouched s s' \<and> (x = - 1 \<and> none_pending s \<or> x = 0 \<and> refused s))
     | (Throw e, s') \<Rightarrow> server_upto P s' \<and> fds_inv lim s' \<and> untouched s s' \<and> (\<exists>n. e = SystemError n)
     | (Blocked, s') \<Rightarrow> True
     | _ \<Rightarrow> False"
    using AcceptConnection_step [OF assms]
    by (auto simp: accepted_def split: prod.splits outcome.splits)
  have "books_inv s" using assms(1) by (simp add: server_upto_def)
  from AcceptConnection_registers [OF this]
  show "\<forall>n t d f g as. described s n t d (Count f # Count g # as) \<and> acceptable (int n) t d s
        \<and> open_fds (os s) (int n) = None \<and> int n < lim \<longrightarrow> fst (AcceptConnection lim s) = Ok (int n)"
    by blast
qed

lemma example_fds: "fds_inv 1024 (example_interface st as)"
  by (simp add: fds_inv_def example_interface_def)

definition example_accept :: interface where
  "example_accept = example_interface kRequestPending
     [Errno EINTR, Count 8, Count 1, Errno EINTR, Count 2, Count 0, Count 0]"

lemma example_accept_flags:
  "status_flags (os (snd (AcceptConnection 1024 (example_interface kRequestPending
     [Errno EINTR, Count 8, Count 1, Count 2, Count 0, Errno EINTR, Count 0])))) 8 = - 1"
  by code_simp

theorem AcceptConnection_correct_witness:
  "\<exists>s'. AcceptConnection 1024 example_accept = (Ok 8, s') \<and> server_upto {} s'
     \<and> 8 \<in> keys (record_status_map s')"
proof -
  have up: "server_upto {} example_accept" "fds_inv 1024 example_accept"
    by (simp_all add: example_accept_def server_upto_none example_server_inv example_fds)
  have d: "described example_accept 8 1 2 (Count 0 # Count 0 # [])"
    by (simp add: described_def typed_def offers_def example_accept_def)
  have a: "acceptable (int 8) 1 2 example_accept"
    by (simp add: acceptable_def room_for_def address_valid_def example_accept_def example_interface_def)
  have "open_fds (os example_accept) (int 8) = None" by (simp add: example_accept_def example_interface_def)
  then have "fst (AcceptConnection 1024 example_accept) = Ok (int 8)"
    using AcceptConnection_correct [OF up] d a by fastforce
  then obtain s' where s': "AcceptConnection 1024 example_accept = (Ok 8, s')"
    by (cases "AcceptConnection 1024 example_accept") auto
  from AcceptConnection_correct [OF up] s'
  have "server_upto {} s'" and r: "registered 1024 example_accept 8 s'" by auto
  moreover have "8 \<in> keys (record_status_map s')"
    using registered_keys [OF r] by simp
  ultimately show ?thesis using s' by blast
qed

end
