(* ===== verification/Accept_Requests.thy ===== *)
theory Accept_Requests
  imports Server_Accept Fcgi_Request Record_Status
begin

text \<open>
  \<open>AcceptRequests\<close> of \<open>fcgi/src/fcgi_server_interface.cc\<close>: the main loop body of an application.
  It cleans up connections, waits in \<open>select\<close>, reads the connections that have input, makes
  \<open>FcgiRequest\<close> objects for the completed requests and accepts new connections.
\<close>

section \<open>Cleaning up\<close>

text \<open>
  Whether \<open>lower_bound({descriptor, 0})\<close> finds no request of the descriptor.
\<close>

definition no_request_from :: "fd \<Rightarrow> interface \<Rightarrow> bool" where
  "no_request_from d s \<longleftrightarrow>
     (case dropWhile (\<lambda>p. fst p < FcgiRequestIdentifier d 0) (request_map s) of
        [] \<Rightarrow> True
      | p # _ \<Rightarrow> descriptor (fst p) > d)"

definition RemoveDummy :: "fd \<Rightarrow> unit iop" where
  "RemoveDummy d =
     on_throw
       (and_then (modify (\<lambda>s. s\<lparr>dummy_descriptor_set := om_erase d (dummy_descriptor_set s)\<rparr>))
          (bind (gets (\<lambda>s. om_mem d (request_count_map s))) (\<lambda>present.
             if \<not> present then throw LogicError
             else and_then (modify (\<lambda>s. s\<lparr>request_count_map := om_erase d (request_count_map s)\<rparr>))
               (bind (sys_close d) (\<lambda>close_return.
                  bind (gets (\<lambda>s. errno (os s))) (\<lambda>e.
                    if close_return = - 1 \<and> e \<noteq> EINTR then throw (SystemError e) else ret ()))))))
       (modify set_bad)"

text \<open>The loop over \<open>dummy_descriptor_set_\<close>, which erases only the element it has just left.\<close>

fun DummyLoop :: "fd list \<Rightarrow> unit iop" where
  "DummyLoop [] = ret ()"
| "DummyLoop (d # ds) =
     bind (gets (no_request_from d)) (\<lambda>unused.
       and_then (when_then unused (RemoveDummy d)) (DummyLoop ds))"

text \<open>
  Reading the self-pipe until it is empty, 32 bytes at a time. \<open>pending\<close> are the bytes in the pipe;
  a read of an empty pipe fails with \<open>EAGAIN\<close>. The answer \<open>Count 0\<close> is the end of the file.
\<close>

fun DrainLoop :: "bytes \<Rightarrow> script \<Rightarrow> (answer \<times> bytes \<times> script) option" where
  "DrainLoop pending [] = None"
| "DrainLoop pending (Errno e # as) = Some (Errno e, pending, as)"
| "DrainLoop pending (Count n # as) =
     (if n = 0 then Some (Count 0, pending, as)
      else if pending = [] then Some (Errno EAGAIN, pending, as)
      else DrainLoop (drop (min n 32) pending) as)"

definition ClearSelfPipe :: "unit iop" where
  "ClearSelfPipe = (\<lambda>s. let k = os s; d = self_pipe_write_descriptor s in
     case DrainLoop (wire k d) (script k) of
       None \<Rightarrow> (Blocked, s)
     | Some (Count n, pending, as) \<Rightarrow>
         (Throw LogicError, set_bad (s\<lparr>os := k\<lparr>script := as, wire := (wire k)(d := pending)\<rparr>\<rparr>))
     | Some (Errno e, pending, as) \<Rightarrow>
         (if e \<noteq> EAGAIN then Throw (SystemError e) else Ok (),
          s\<lparr>os := k\<lparr>script := as, errno := e, wire := (wire k)(d := pending)\<rparr>\<rparr>))"

fun ClosureLoop :: "fd list \<Rightarrow> unit iop" where
  "ClosureLoop [] = ret ()"
| "ClosureLoop (c # cs) =
     bind (RemoveConnection c) (\<lambda>connection_removed.
       if \<not> connection_removed then throw LogicError else ClosureLoop cs)"

definition CloseRequestedConnections :: "unit iop" where
  "CloseRequestedConnections =
     on_throw
       (bind (gets (\<lambda>s. map fst (application_closure_request_set s))) (\<lambda>cs.
          and_then (ClosureLoop cs) (modify (\<lambda>s. s\<lparr>application_closure_request_set := []\<rparr>))))
       (modify set_bad)"

definition CleanupConnections :: "unit iop" where
  "CleanupConnections =
     and_then InterfaceCheck
       (bind (gets (\<lambda>s. map fst (dummy_descriptor_set s))) (\<lambda>ds.
          and_then (DummyLoop ds) (and_then ClearSelfPipe CloseRequestedConnections)))"

section \<open>Waiting\<close>

text \<open>
  \<open>FD_SET\<close> is undefined for a descriptor that an \<open>fd_set\<close> has no room for. \<open>select\<close> returns the
  descriptors that have input, of which there is at least one.
\<close>

abbreviation (input) FD_SETSIZE :: int where "FD_SETSIZE \<equiv> 1024"

definition FD_SET_all :: "fd list \<Rightarrow> unit iop" where
  "FD_SET_all cs = (if list_all (\<lambda>c. 0 \<le> c \<and> c < FD_SETSIZE) cs then ret () else undefined_behaviour)"

definition sys_select :: "fd list \<Rightarrow> fd list option iop" where
  "sys_select cs = (\<lambda>s. let k = os s in
     case script k of
       [] \<Rightarrow> (Blocked, s)
     | Errno e # as \<Rightarrow> (Ok None, s\<lparr>os := k\<lparr>errno := e, script := as\<rparr>\<rparr>)
     | Count n # as \<Rightarrow>
         if filter (readable k) cs = [] then (Blocked, s)
         else (Ok (Some (filter (readable k) cs)), s\<lparr>os := k\<lparr>script := as\<rparr>\<rparr>))"

definition WaitForInput :: "fd list option iop" where
  "WaitForInput =
     bind (gets (\<lambda>s. listening_descriptor s # self_pipe_read_descriptor s
                      # map fst (record_status_map s))) (\<lambda>read_set.
       and_then (FD_SET_all read_set)
         (bind (sys_select read_set) (\<lambda>select_return. case select_return of
            None \<Rightarrow> bind (gets (\<lambda>s. errno (os s))) (\<lambda>e.
              if e = EINTR then ret None
              else and_then (when_then (e = EBADF) (modify set_bad)) (throw (SystemError e)))
          | Some ready_set \<Rightarrow> and_then InterfaceCheck (ret (Some ready_set)))))"

section \<open>Reading and accepting\<close>

text \<open>
  The local variables of \<open>AcceptRequests\<close> that its exception handler uses.
\<close>

record accept_locals =
  requests :: "FcgiRequest list"
  length_at_loop :: nat
  connections_read :: nat
  current_connection :: fd

type_synonym 'a aop = "(interface \<times> accept_locals, 'a) op"

definition on_server :: "'a iop \<Rightarrow> 'a aop" where
  "on_server m = (\<lambda>(s, l). case m s of (r, s') \<Rightarrow> (r, (s', l)))"

abbreviation local :: "(accept_locals \<Rightarrow> 'a) \<Rightarrow> 'a aop" where
  "local f \<equiv> gets (\<lambda>p. f (snd p))"

abbreviation set_local :: "(accept_locals \<Rightarrow> accept_locals) \<Rightarrow> unit aop" where
  "set_local f \<equiv> modify (\<lambda>p. (fst p, f (snd p)))"

text \<open>
  The loop that makes a request object for each of the completed requests. The local object is moved
  into the list, which leaves it a null object whose destructor does nothing.
\<close>

fun MakeRequests :: "fd \<Rightarrow> FcgiRequestIdentifier list \<Rightarrow> unit aop" where
  "MakeRequests c [] = ret ()"
| "MakeRequests c (r # rs) =
     bind (on_server (gets (\<lambda>s. (interface_identifier s, self_pipe_write_descriptor s)))) (\<lambda>(id, pipe).
     bind (on_server (FcgiRequest_new r id True (Some r) (Some c) (Some c) pipe)) (\<lambda>request.
       and_then (set_local (\<lambda>l. l\<lparr>requests := requests l @ [fst (FcgiRequest_move request)]\<rparr>))
         (MakeRequests c rs)))"

definition ReadConnection :: "fd list \<Rightarrow> fd \<Rightarrow> unit aop" where
  "ReadConnection ready_set c =
     and_then (set_local (\<lambda>l. l\<lparr>current_connection := c\<rparr>))
       (if c \<notin> set ready_set then ret ()
        else and_then (set_local (\<lambda>l. l\<lparr>connections_read := connections_read l + 1\<rparr>))
          (bind (on_server (ReadRecords c)) (\<lambda>request_iterators.
             if request_iterators = [] then ret ()
             else and_then (on_server InterfaceCheck)
               (bind (on_server (gets (\<lambda>s. om_mem c (write_mutex_map s)))) (\<lambda>present.
                  if \<not> present then and_then (on_server (modify set_bad)) (throw LogicError)
                  else and_then (MakeRequests c request_iterators)
                    (set_local (\<lambda>l. l\<lparr>length_at_loop := length (requests l)\<rparr>)))))))"

text \<open>
  The loop over \<open>record_status_map_\<close>, which no operation of its body inserts into or erases from.
\<close>

fun ConnectionLoop :: "fd list \<Rightarrow> nat \<Rightarrow> fd list \<Rightarrow> unit aop" where
  "ConnectionLoop ready_set select_return [] = ret ()"
| "ConnectionLoop ready_set select_return (c # cs) =
     bind (local connections_read) (\<lambda>n.
       if n < select_return
       then and_then (ReadConnection ready_set c) (ConnectionLoop ready_set select_return cs)
       else ret ())"

definition ReadAndAccept :: "int \<Rightarrow> fd list \<Rightarrow> unit aop" where
  "ReadAndAccept lim ready_set =
     bind (on_server (gets (\<lambda>s. map fst (record_status_map s)))) (\<lambda>cs.
       and_then (ConnectionLoop ready_set (length ready_set) cs)
         (bind (local connections_read) (\<lambda>n.
            when_then (n < length ready_set)
              (on_server (bind (gets (\<lambda>s. Suc (length (script (os s))))) (\<lambda>fuel. AcceptLoop fuel lim))))))"

text \<open>The destruction of the request objects that remain in the list when an exception leaves.\<close>

definition destroy_request :: "FcgiRequest \<Rightarrow> unit iop" where
  "destroy_request q = (\<lambda>s. case FcgiRequest_destructor (s, q) of (r, (s', q')) \<Rightarrow> (r, s'))"

fun destroy_requests :: "FcgiRequest list \<Rightarrow> unit iop" where
  "destroy_requests [] = ret ()"
| "destroy_requests (q # qs) = and_then (destroy_request q) (destroy_requests qs)"

text \<open>
  The handler: the requests of the completed turns of the loop are saved for the next call; if the
  turn that failed has made requests, its connection is scheduled for closure.
\<close>

definition SaveRequests :: "exn \<Rightarrow> unit aop" where
  "SaveRequests e =
     bind (local (\<lambda>l. l)) (\<lambda>l.
       if requests l = [] then throw e
       else and_then (on_server
         (bind (gets bad_interface_state_detected) (\<lambda>bad.
            if bad then destroy_requests (requests l)
            else and_then (modify (\<lambda>s. s\<lparr>request_buffer_on_throw :=
                   request_buffer_on_throw s @ take (length_at_loop l) (requests l)\<rparr>))
              (and_then (when_then (length_at_loop l < length (requests l))
                  (modify (schedule_closure (current_connection l))))
                (destroy_requests (drop (length_at_loop l) (requests l)))))))
         (throw e))"

definition ProcessInput :: "int \<Rightarrow> fd list \<Rightarrow> FcgiRequest list iop" where
  "ProcessInput lim ready_set = (\<lambda>s.
     case bind (try_catch (ReadAndAccept lim ready_set) SaveRequests) (\<lambda>_. local requests)
            (s, \<lparr>requests = [], length_at_loop = 0, connections_read = 0, current_connection = 0\<rparr>) of
       (r, (s', l)) \<Rightarrow> (r, s'))"

section \<open>AcceptRequests\<close>

text \<open>
  The call, and its part that begins with \<open>select\<close>: while the first thread waits there, others may
  use their requests.
\<close>

definition AcceptAfterCleanup :: "int \<Rightarrow> FcgiRequest list iop" where
  "AcceptAfterCleanup lim =
     bind WaitForInput (\<lambda>ready. case ready of
       None \<Rightarrow> ret []
     | Some ready_set \<Rightarrow> ProcessInput lim ready_set)"

definition AcceptRequests :: "int \<Rightarrow> FcgiRequest list iop" where
  "AcceptRequests lim =
     bind (gets request_buffer_on_throw) (\<lambda>buffered.
       if buffered \<noteq> []
       then and_then (modify (\<lambda>s. s\<lparr>request_buffer_on_throw := []\<rparr>)) (ret buffered)
       else and_then CleanupConnections (AcceptAfterCleanup lim))"

end
