(* ===== verification/Accept_Safety.thy ===== *)
theory Accept_Safety
  imports Connection_Safety Accept_Requests Request_Lifetime
begin

text \<open>
  The correctness of \<open>AcceptRequests\<close>: the cleanup of connections, and the reading of connections
  and acceptance of new ones after \<open>select\<close>.
\<close>

section \<open>Invariants\<close>

text \<open>A completed request that has not been given to the application waits only for its removal.\<close>

definition ready_closing :: "interface \<Rightarrow> bool" where
  "ready_closing s \<longleftrightarrow> (\<forall>r. ready (descriptor r) (request_map s) r \<longrightarrow>
     descriptor r \<in> keys (application_closure_request_set s))"

text \<open>What holds before and after each call of \<open>AcceptRequests\<close>.\<close>

definition accept_inv :: "int \<Rightarrow> interface \<Rightarrow> bool" where
  "accept_inv lim s \<longleftrightarrow> server_any {} s \<and> fds_inv lim s \<and> interface_identifier s \<noteq> 0
     \<and> (\<not> bad_interface_state_detected s \<longrightarrow> ready_closing s)"

text \<open>What holds while \<open>AcceptRequests\<close> waits for input.\<close>

definition waiting_inv :: "int \<Rightarrow> interface \<Rightarrow> bool" where
  "waiting_inv lim s \<longleftrightarrow> accept_inv lim s \<and> (\<not> bad_interface_state_detected s \<longrightarrow>
     (\<forall>c \<in> keys (record_status_map s). between_calls c s)
     \<and> (\<forall>r. \<not> ready (descriptor r) (request_map s) r))"

text \<open>What the call leaves alone, but for the requests it makes.\<close>

definition accept_frame :: "interface \<Rightarrow> interface \<Rightarrow> bool" where
  "accept_frame s0 s \<longleftrightarrow> same_config s0 s \<and> request_buffer_on_throw s = request_buffer_on_throw s0
     \<and> (\<not> bad_interface_state_detected s \<longrightarrow> (\<forall>r. assigned s r \<longleftrightarrow> assigned s0 r))"

section \<open>Cleaning up\<close>

lemma no_request_from_iff:
  assumes "om_wf (request_map s)"
  shows "no_request_from d s \<longleftrightarrow> requests_of d s = {}"
proof -
  let ?m = "filter (\<lambda>p. \<not> fst p < FcgiRequestIdentifier d 0) (request_map s)"
  have m: "dropWhile (\<lambda>p. fst p < FcgiRequestIdentifier d 0) (request_map s) = ?m"
    using assms by (intro dropWhile_sorted) (simp add: om_wf_def)
  have req: "requests_of d s = {r \<in> fst ` set ?m. descriptor r = d}"
    by (auto simp: requests_of_def keys_def below_connection_iff)
  show ?thesis
  proof (cases ?m)
    case Nil
    then show ?thesis unfolding no_request_from_def m req by simp
  next
    case (Cons p ps)
    have wf: "om_wf ?m" by (rule om_wf_filter [OF assms])
    have "p \<in> set ?m" using Cons by simp
    then have p: "\<not> descriptor (fst p) < d" by (simp add: below_connection_iff)
    have later: "fst p < r" if "r \<in> fst ` set ps" for r
      using wf that unfolding Cons by (cases p) (auto simp: om_wf_Cons)
    have "d < descriptor r" if "d < descriptor (fst p)" "r \<in> fst ` set ps" for r
    proof -
      have "\<not> fst p < FcgiRequestIdentifier (descriptor (fst p)) 0" by (simp add: below_connection_iff)
      then have "\<not> r < FcgiRequestIdentifier (descriptor (fst p)) 0"
        using later [OF that(2)] less_trans by blast
      then show ?thesis using that(1) by (simp add: below_connection_iff)
    qed
    then show ?thesis using p unfolding no_request_from_def m req Cons by auto
  qed
qed

text \<open>The application has a request of the descriptor.\<close>

definition in_use :: "interface \<Rightarrow> fd \<Rightarrow> bool" where
  "in_use s d \<longleftrightarrow> (\<exists>r. descriptor r = d \<and> assigned s r)"

text \<open>
  The dummies and the connections in \<open>X\<close> have been dealt with: those with a request in use are dummies,
  the others have been closed, each once.
\<close>

definition handled :: "interface \<Rightarrow> fd set \<Rightarrow> interface \<Rightarrow> bool" where
  "handled s0 X s \<longleftrightarrow>
     keys (dummy_descriptor_set s) = (keys (dummy_descriptor_set s0) - X) \<union> {d \<in> X. in_use s0 d}
     \<and> open_fds (os s) = (\<lambda>d. if d \<in> X then if in_use s0 d then Some Listening_socket else None
                             else open_fds (os s0) d)
     \<and> (\<exists>closed. close_calls (os s) = close_calls (os s0) @ closed \<and> distinct closed
          \<and> set closed = {d \<in> X. \<not> in_use s0 d})"

lemma handled_none: "handled s {} s"
  by (simp add: handled_def)

lemma handled_cong:
  "handled s0 X s \<Longrightarrow> dummy_descriptor_set s' = dummy_descriptor_set s \<Longrightarrow> open_fds (os s') = open_fds (os s) \<Longrightarrow>
     close_calls (os s') = close_calls (os s) \<Longrightarrow> handled s0 X s'"
  by (simp only: handled_def)

text \<open>One more: it stays or becomes a dummy, or it is closed.\<close>

lemma handled_kept:
  assumes "handled s0 X s" and "in_use s0 d" and "d \<notin> X"
      and "keys (dummy_descriptor_set s') = insert d (keys (dummy_descriptor_set s))"
      and "open_fds (os s') = (open_fds (os s))(d := Some Listening_socket)"
      and "close_calls (os s') = close_calls (os s)"
  shows "handled s0 (insert d X) s'"
proof -
  have "{e \<in> insert d X. \<not> in_use s0 e} = {e \<in> X. \<not> in_use s0 e}" using assms(2) by auto
  then show ?thesis using assms by (auto simp: handled_def fun_eq_iff)
qed

lemma handled_closed:
  assumes "handled s0 X s" and "\<not> in_use s0 d" and "d \<notin> X"
      and "keys (dummy_descriptor_set s') = keys (dummy_descriptor_set s) - {d}"
      and "open_fds (os s') = (open_fds (os s))(d := None)"
      and "close_calls (os s') = close_calls (os s) @ [d]"
  shows "handled s0 (insert d X) s'"
proof -
  obtain closed where cl: "close_calls (os s) = close_calls (os s0) @ closed" "distinct closed"
      "set closed = {e \<in> X. \<not> in_use s0 e}" using assms(1) by (auto simp: handled_def)
  have "\<exists>closed. close_calls (os s') = close_calls (os s0) @ closed \<and> distinct closed
      \<and> set closed = {e \<in> insert d X. \<not> in_use s0 e}"
    using cl assms(2,3,6) by (intro exI [of _ "closed @ [d]"]) auto
  moreover have "open_fds (os s') = (\<lambda>e. if e \<in> insert d X then if in_use s0 e then Some Listening_socket else None
      else open_fds (os s0) e)"
    using assms(1,2,5) by (auto simp: handled_def fun_eq_iff)
  moreover have "keys (dummy_descriptor_set s')
      = (keys (dummy_descriptor_set s0) - insert d X) \<union> {e \<in> insert d X. in_use s0 e}"
    using assms(1,2,4) by (auto simp: handled_def)
  ultimately show ?thesis unfolding handled_def by blast
qed

text \<open>The state during the cleanup, when the dummies and the connections in \<open>X\<close> have been dealt with.\<close>

definition cleaning :: "interface \<Rightarrow> fd set \<Rightarrow> interface \<Rightarrow> bool" where
  "cleaning s0 X s \<longleftrightarrow> books_inv s \<and> \<not> bad_interface_state_detected s \<and> framing_inv s \<and> limits_inv s
     \<and> application_closure_request_set s = application_closure_request_set s0 \<and> accept_frame s0 s
     \<and> dom (open_fds (os s)) \<subseteq> dom (open_fds (os s0))
     \<and> keys (record_status_map s) = keys (record_status_map s0) - X
     \<and> handled s0 X s
     \<and> (\<forall>d \<in> keys (record_status_map s).
          om_find d (record_status_map s) = om_find d (record_status_map s0)
          \<and> om_find d (write_mutex_map s) = om_find d (write_mutex_map s0))
     \<and> (\<forall>r. descriptor r \<in> keys (record_status_map s) \<longrightarrow>
          om_find r (request_map s) = om_find r (request_map s0))"

definition cleaning_failed :: "interface \<Rightarrow> exn \<Rightarrow> interface \<Rightarrow> bool" where
  "cleaning_failed s0 e s \<longleftrightarrow> descriptors_inv s \<and> accept_frame s0 s
     \<and> dom (open_fds (os s)) \<subseteq> dom (open_fds (os s0))
     \<and> (bad_interface_state_detected s \<and> e = LogicError \<or> (\<exists>n. e = SystemError n))
     \<and> (bad_interface_state_detected s \<or> (\<exists>X \<subseteq> keys (dummy_descriptor_set s0). cleaning s0 X s))"

lemma cleaning_start: "server_upto {} s \<Longrightarrow> cleaning s {} s"
  by (simp add: cleaning_def server_upto_def accept_frame_def handled_none)

lemma descriptors_set_bad [simp]: "descriptors_inv (set_bad s) = descriptors_inv s"
  by (simp add: descriptors_inv_def)

lemma handled_set_bad [simp]: "handled s0 X (set_bad s) = handled s0 X s"
  by (simp add: handled_def)

lemma cleaning_bad: "cleaning s0 X s \<Longrightarrow> e = LogicError \<or> (\<exists>n. e = SystemError n) \<Longrightarrow> cleaning_failed s0 e (set_bad s)"
  by (simp add: cleaning_def cleaning_failed_def accept_frame_def same_config_def books_inv_def)

text \<open>A dummy descriptor without requests.\<close>

lemma dummy_books:
  assumes "books_inv s" and "d \<in> keys (dummy_descriptor_set s)" and "requests_of d s = {}"
      and "open_fds k = (open_fds (os s))(d := None)"
  shows "books_inv (s\<lparr>dummy_descriptor_set := om_erase d (dummy_descriptor_set s),
     request_count_map := om_erase d (request_count_map s), os := k\<rparr>)" (is "books_inv ?s")
proof -
  have inv: "descriptors_inv s" "counts_inv s" "requests_inv s" "statuses_inv s"
    using assms(1) by (simp_all add: books_inv_def)
  have wf: "om_wf (dummy_descriptor_set s)" "om_wf (request_count_map s)"
    using inv(1) by (simp_all add: descriptors_inv_def)
  have "d \<notin> keys (record_status_map s)" "open_fds (os s) d = Some Listening_socket"
    using inv(1) assms(2) by (auto simp: descriptors_inv_def)
  note d = this
  have none: "descriptor r \<noteq> d" if "r \<in> keys (request_map s)" for r
    using assms(3) that by (auto simp: requests_of_def)
  have "descriptors_inv ?s" using inv(1) d assms(2,4) wf
    by (auto simp: descriptors_inv_def om_wf_erase keys_erase)
  moreover have "requests_of c ?s = requests_of c s" for c by (simp add: requests_of_def)
  then have "counts_inv ?s" using inv(2) d wf none
    by (auto simp: counts_inv_def keys_erase om_find_erase split: if_splits)
  moreover have "requests_inv ?s" using inv(3) none wf
    by (auto simp: requests_inv_def keys_erase om_find_Some_keys)
  moreover have "statuses_inv ?s" using inv(4) by (simp add: statuses_inv_def)
  ultimately show ?thesis by (simp add: books_inv_def)
qed

lemma cleaning_assigned: "cleaning s0 X s \<Longrightarrow> assigned s r \<longleftrightarrow> assigned s0 r"
  by (simp add: cleaning_def accept_frame_def)

text \<open>All requests of a dummy are in use.\<close>

lemma dummy_in_use:
  assumes "cleaning s0 X s" and "d \<in> keys (dummy_descriptor_set s)"
  shows "in_use s0 d \<longleftrightarrow> requests_of d s \<noteq> {}"
proof -
  have "requests_inv s" using assms(1) by (simp add: cleaning_def books_inv_def)
  then have "assigned s r \<longleftrightarrow> r \<in> keys (request_map s)" if "descriptor r = d" for r
    using assms(2) that by (auto simp: requests_inv_def request_ok_def assigned_def keys_iff)
  then show ?thesis using cleaning_assigned [OF assms(1)] by (auto simp: in_use_def requests_of_def)
qed

lemma dummy_open:
  assumes "cleaning s0 X s" and "d \<in> keys (dummy_descriptor_set s)"
  shows "d \<notin> keys (record_status_map s)" "open_fds (os s) d = Some Listening_socket"
  using assms by (auto simp: cleaning_def books_inv_def descriptors_inv_def)

lemma dummy_kept:
  assumes "cleaning s0 X s" and "d \<in> keys (dummy_descriptor_set s)" and "d \<notin> X" and "requests_of d s \<noteq> {}"
  shows "cleaning s0 (insert d X) s"
proof -
  note o = dummy_open [OF assms(1,2)]
  have u: "in_use s0 d" using dummy_in_use [OF assms(1,2)] assms(4) by simp
  have "handled s0 X s" using assms(1) by (simp add: cleaning_def)
  moreover have "keys (dummy_descriptor_set s) = insert d (keys (dummy_descriptor_set s))"
    using assms(2) by auto
  moreover have "open_fds (os s) = (open_fds (os s))(d := Some Listening_socket)"
    using o(2) by (simp add: fun_eq_iff)
  ultimately have "handled s0 (insert d X) s" using handled_kept [OF _ u assms(3)] by blast
  moreover have "keys (record_status_map s) = keys (record_status_map s0) - insert d X"
    using assms(1) o(1) by (auto simp: cleaning_def)
  ultimately show ?thesis using assms(1) unfolding cleaning_def by simp
qed

lemma dummy_step:
  assumes "cleaning s0 X s" and "d \<in> keys (dummy_descriptor_set s)" and "d \<notin> X" and "requests_of d s = {}"
  shows "case RemoveDummy d s of
       (Ok _, s') \<Rightarrow> cleaning s0 (insert d X) s' \<and> dummy_descriptor_set s' = om_erase d (dummy_descriptor_set s)
     | (Throw e, s') \<Rightarrow> cleaning_failed s0 e s'
     | (Blocked, _) \<Rightarrow> True
     | _ \<Rightarrow> False"
proof -
  have books: "books_inv s" using assms(1) by (simp add: cleaning_def)
  have op: "open_fds (os s) d = Some Listening_socket" and "d \<in> keys (request_count_map s)"
    using books assms(2) by (auto simp: books_inv_def descriptors_inv_def counts_inv_def)
  then have mem: "om_mem d (request_count_map s)" by (simp add: om_mem_keys)
  let ?s = "\<lambda>k. s\<lparr>dummy_descriptor_set := om_erase d (dummy_descriptor_set s),
     request_count_map := om_erase d (request_count_map s), os := k\<rparr>"
  note o = dummy_open [OF assms(1,2)]
  have u: "\<not> in_use s0 d" using dummy_in_use [OF assms(1,2)] assms(4) by simp
  have wf: "om_wf (dummy_descriptor_set s)" using books by (simp add: books_inv_def descriptors_inv_def)
  have ok: "cleaning s0 (insert d X) (?s k)" if "open_fds k = (open_fds (os s))(d := None)" "wire k = wire (os s)"
      "peer_gone k = peer_gone (os s)" "close_calls k = close_calls (os s) @ [d]" for k
  proof -
    have "handled s0 X s" using assms(1) by (simp add: cleaning_def)
    then have "handled s0 (insert d X) (?s k)"
      by (rule handled_closed [OF _ u assms(3)]) (simp_all add: that wf keys_erase)
    moreover have "keys (record_status_map s) = keys (record_status_map s0) - insert d X"
      using assms(1) o(1) by (auto simp: cleaning_def)
    moreover have "dom (open_fds k) \<subseteq> dom (open_fds (os s0))"
      using assms(1) by (auto simp: that(1) cleaning_def split: if_splits)
    moreover have "framing_inv (?s k)" "limits_inv (?s k)" "accept_frame s0 (?s k)"
      using assms(1) that by (auto simp: cleaning_def framing_inv_def limits_inv_def accept_frame_def
          same_config_def assigned_def)
    ultimately show ?thesis using assms(1) dummy_books [OF books assms(2,4) that(1)]
      unfolding cleaning_def by simp
  qed
  note bad = cleaning_bad [OF ok]
  show ?thesis
  proof (cases "script (os s)")
    case Nil
    then show ?thesis using mem op by (simp add: RemoveDummy_def run_simps sys_close_def)
  next
    case (Cons a as)
    show ?thesis
    proof (cases a)
      case (Count n)
      then show ?thesis using mem op Cons ok by (simp add: RemoveDummy_def run_simps sys_close_def)
    next
      case (Errno e)
      then show ?thesis using mem op Cons ok bad by (simp add: RemoveDummy_def run_simps sys_close_def)
    qed
  qed
qed

lemma dummy_loop:
  "hoare (\<lambda>s. cleaning s0 X s \<and> distinct ds \<and> set ds \<subseteq> keys (dummy_descriptor_set s) - X) (DummyLoop ds)
     (\<lambda>_. cleaning s0 (X \<union> set ds)) (cleaning_failed s0)"
proof (induction ds arbitrary: X)
  case Nil
  show ?case by (simp add: hoare_def)
next
  case (Cons d ds)
  let ?P = "\<lambda>s. cleaning s0 (insert d X) s \<and> distinct ds \<and> set ds \<subseteq> keys (dummy_descriptor_set s) - insert d X"
  show ?case
  proof (rule hoare_know)
    fix s assume s: "cleaning s0 X s \<and> distinct (d # ds) \<and> set (d # ds) \<subseteq> keys (dummy_descriptor_set s) - X"
    then have wf: "om_wf (request_map s)" "om_wf (dummy_descriptor_set s)"
      by (simp_all add: cleaning_def books_inv_def descriptors_inv_def)
    have "hoare (\<lambda>t. t = s) (when_then (no_request_from d s) (RemoveDummy d)) (\<lambda>_. ?P) (cleaning_failed s0)"
      using s dummy_step [of s0 X s d] dummy_kept [of s0 X s d] wf
      by (auto simp: hoare_def when_then_def no_request_from_iff keys_erase split: prod.splits outcome.splits)
    moreover have "hoare ?P (DummyLoop ds) (\<lambda>_. cleaning s0 (X \<union> set (d # ds))) (cleaning_failed s0)"
      using Cons.IH [of "insert d X"] by simp
    ultimately have "hoare (\<lambda>t. t = s) (and_then (when_then (no_request_from d s) (RemoveDummy d)) (DummyLoop ds))
        (\<lambda>_. cleaning s0 (X \<union> set (d # ds))) (cleaning_failed s0)"
      by (rule hoare_bind [rotated])
    then show "hoare (\<lambda>t. t = s) (DummyLoop (d # ds)) (\<lambda>_. cleaning s0 (X \<union> set (d # ds))) (cleaning_failed s0)"
      by (simp add: hoare_def)
  qed
qed

lemma books_inv_os: "books_inv s \<Longrightarrow> open_fds k = open_fds (os s) \<Longrightarrow> books_inv (s\<lparr>os := k\<rparr>)"
  by (auto simp: books_inv_def descriptors_inv_def counts_inv_def requests_inv_def statuses_inv_def
      requests_of_def)

lemma pipe_step:
  assumes "X \<subseteq> keys (dummy_descriptor_set s0)"
  shows "hoare (cleaning s0 X) ClearSelfPipe (\<lambda>_. cleaning s0 X) (cleaning_failed s0)"
proof (rule hoareI)
  fix s assume s: "cleaning s0 X s"
  let ?d = "self_pipe_write_descriptor s"
  have "?d \<notin> keys (write_mutex_map s)"
    using s connection_not_pipe [of s ?d] by (auto simp: cleaning_def books_inv_def)
  then have ne: "c \<noteq> ?d" if "om_find c (write_mutex_map s) = Some v" for c v
    using that om_find_Some_keys by force
  have ok: "cleaning s0 X (s\<lparr>os := k\<rparr>)"
    if k: "open_fds k = open_fds (os s)" "wire k = (wire (os s))(?d := p)" "peer_gone k = peer_gone (os s)"
      "close_calls k = close_calls (os s)" for k p
  proof -
    have "handled s0 X s" using s by (simp add: cleaning_def)
    then have "handled s0 X (s\<lparr>os := k\<rparr>)" by (rule handled_cong) (simp_all add: k)
    moreover
    have "books_inv (s\<lparr>os := k\<rparr>)" using s k(1) by (simp add: cleaning_def books_inv_os)
    moreover have "framing_inv (s\<lparr>os := k\<rparr>)" using s k ne by (auto simp: cleaning_def framing_inv_def)
    ultimately show ?thesis using s k(1)
      by (auto simp: cleaning_def limits_inv_def accept_frame_def same_config_def assigned_def)
  qed
  note bad = cleaning_bad [OF ok]
  have fail: "cleaning_failed s0 (SystemError e) t" if "cleaning s0 X t" for t e
  proof -
    have "descriptors_inv t" "accept_frame s0 t" "dom (open_fds (os t)) \<subseteq> dom (open_fds (os s0))"
      using that by (simp_all add: cleaning_def books_inv_def)
    then show ?thesis using that assms unfolding cleaning_failed_def by blast
  qed
  show "case ClearSelfPipe s of (Ok x, s') \<Rightarrow> cleaning s0 X s'
     | (Throw e, s') \<Rightarrow> cleaning_failed s0 e s' | (Blocked, s') \<Rightarrow> True
     | (Terminate, s') \<Rightarrow> False | (Diverge, s') \<Rightarrow> False | (Undefined, s') \<Rightarrow> False"
    using ok bad fail
    by (auto simp: ClearSelfPipe_def Let_def split: option.splits prod.splits answer.splits)
qed

text \<open>The connections scheduled for closure.\<close>

definition not_held :: "fd \<Rightarrow> interface \<Rightarrow> bool" where
  "not_held c s \<longleftrightarrow> (\<exists>corrupt. om_find c (write_mutex_map s) = Some (False, corrupt))"

lemma removal_step:
  assumes "cleaning s0 X s" and "c \<in> keys (record_status_map s0)" and "c \<notin> X"
  shows "case RemoveConnection c s of
       (Ok True, s') \<Rightarrow> cleaning s0 (insert c X) s' \<and> not_held c s0
     | (Ok False, s') \<Rightarrow> s' = s
     | (Throw e, s') \<Rightarrow> cleaning_failed s0 e (set_bad s')
     | (Blocked, _) \<Rightarrow> True
     | _ \<Rightarrow> False"
proof -
  have books: "books_inv s" using assms(1) by (simp add: cleaning_def)
  have c: "c \<in> keys (record_status_map s)" using assms by (simp add: cleaning_def)
  then have "c \<in> keys (write_mutex_map s)" using books by (simp add: books_inv_def descriptors_inv_def)
  then obtain held corrupt where m: "om_find c (write_mutex_map s) = Some (held, corrupt)"
    by (auto simp: keys_Some)
  have op: "open_fds (os s) c \<noteq> None" using books c by (simp add: books_inv_def descriptors_inv_def)
  have removed: "cleaning s0 (insert c X) s'" if b: "books_inv s'" and r: "connection_removed c s s'" for s'
  proof -
    have as: "assigned s' r \<longleftrightarrow> assigned s r" for r
      using r by (auto simp: connection_removed_def Let_def cleaned_def assigned_def requests_of_def
          set_connection_closed_by_interface_def keys_iff split: option.splits if_splits)
    have kept: "has_assigned (requests_of c s) (request_map s) \<longleftrightarrow> in_use s0 c"
      unfolding in_use_def cleaning_assigned [OF assms(1), symmetric]
      by (auto simp: has_assigned_def requests_of_def assigned_def keys_iff)
    have nd: "c \<notin> keys (dummy_descriptor_set s)"
      using books c by (auto simp: books_inv_def descriptors_inv_def)
    have "handled s0 X s" using assms(1) by (simp add: cleaning_def)
    then have "handled s0 (insert c X) s'"
      using handled_kept [of s0 X s c s'] handled_closed [of s0 X s c s'] assms(3) r kept nd
      by (cases "in_use s0 c") (simp_all add: connection_removed_def Let_def)
    moreover have same: "om_find r (request_map s') = om_find r (request_map s)" if "descriptor r \<noteq> c" for r
      using r that by (auto simp: connection_removed_def Let_def cleaned_def requests_of_def)
    moreover have mutex: "om_find d (write_mutex_map s) = Some v" if "om_find d (write_mutex_map s') = Some v" for d v
      using that om_find_Some_keys [OF that] r by (auto simp: connection_removed_def Let_def)
    moreover have fr: "framing_inv s'"
      using assms(1) r by (auto simp: cleaning_def framing_inv_def connection_removed_def Let_def dest: mutex)
    moreover have "limits_inv s'" using assms(1) r
      by (simp add: cleaning_def limits_inv_def connection_removed_def same_config_def Let_def)
    moreover have "accept_frame s0 s'" using assms(1) r as
      by (simp add: cleaning_def accept_frame_def connection_removed_def same_config_def Let_def)
    moreover have "dom (open_fds (os s')) \<subseteq> dom (open_fds (os s0))"
      using assms(1) r op by (auto simp: cleaning_def connection_removed_def Let_def split: if_splits)
    ultimately show ?thesis using assms(1) b r fr same
      by (auto simp: cleaning_def connection_removed_def Let_def)
  qed
  have failed: "cleaning_failed s0 e (set_bad s')"
    if "descriptors_inv s'" "same_config s s'" "dom (open_fds (os s')) \<subseteq> dom (open_fds (os s))"
      "request_buffer_on_throw s' = request_buffer_on_throw s" "e = SystemError n" for s' e n
  proof -
    have "dom (open_fds (os s')) \<subseteq> dom (open_fds (os s0))"
      using assms(1) that(3) by (simp only: cleaning_def) blast
    then show ?thesis using assms(1) that
      by (simp add: cleaning_failed_def) (simp add: cleaning_def accept_frame_def same_config_def)
  qed
  have "om_find c (write_mutex_map s0) = Some (held, corrupt)"
    using assms(1) c m by (simp add: cleaning_def)
  then have "not_held c s0" if "\<not> held" using that by (auto simp: not_held_def)
  then show ?thesis using RemoveConnection_run [OF books m] removed failed
    by (auto split: prod.splits outcome.splits bool.splits)
qed

lemma closure_loop:
  "hoare (\<lambda>s. cleaning s0 X s \<and> distinct cs \<and> set cs \<subseteq> keys (record_status_map s0) - X) (ClosureLoop cs)
     (\<lambda>_ s. cleaning s0 (X \<union> set cs) s \<and> (\<forall>c \<in> set cs. not_held c s0))
     (\<lambda>e s. cleaning_failed s0 e (set_bad s))"
proof (induction cs arbitrary: X)
  case Nil
  show ?case by (simp add: hoare_def)
next
  case (Cons c cs)
  let ?E = "\<lambda>e s. cleaning_failed s0 e (set_bad s)"
  let ?Q = "\<lambda>_ s. cleaning s0 (X \<union> set (c # cs)) s \<and> (\<forall>c \<in> set (c # cs). not_held c s0)"
  let ?R = "\<lambda>x s. (cleaning s0 (if x then insert c X else X) s \<and> distinct cs
     \<and> set cs \<subseteq> keys (record_status_map s0) - insert c X) \<and> (x \<longrightarrow> not_held c s0)"
  have first: "hoare (\<lambda>s. cleaning s0 X s \<and> distinct (c # cs) \<and> set (c # cs) \<subseteq> keys (record_status_map s0) - X)
      (RemoveConnection c) ?R ?E"
  proof (rule hoareI)
    fix s assume "cleaning s0 X s \<and> distinct (c # cs) \<and> set (c # cs) \<subseteq> keys (record_status_map s0) - X"
    then show "case RemoveConnection c s of (Ok x, s') \<Rightarrow> ?R x s' | (Throw e, s') \<Rightarrow> ?E e s'
       | (Blocked, s') \<Rightarrow> True | (Terminate, s') \<Rightarrow> False | (Diverge, s') \<Rightarrow> False | (Undefined, s') \<Rightarrow> False"
      using removal_step [of s0 X s c] by (auto split: prod.splits outcome.splits bool.splits)
  qed
  show ?case unfolding ClosureLoop.simps
  proof (rule hoare_bind [OF _ first])
    fix x
    show "hoare (?R x) (if \<not> x then throw LogicError else ClosureLoop cs) ?Q ?E"
    proof (cases x)
      case True
      have "hoare (\<lambda>s. (cleaning s0 (insert c X) s \<and> distinct cs
          \<and> set cs \<subseteq> keys (record_status_map s0) - insert c X) \<and> not_held c s0) (ClosureLoop cs) ?Q ?E"
        by (rule hoare_with, rule hoare_weaken [OF Cons.IH [of "insert c X"]]) auto
      then show ?thesis using True by simp
    next
      case False
      then show ?thesis using cleaning_bad [of s0 X] by (simp add: hoare_def)
    qed
  qed
qed

text \<open>When all of them have been removed the set is cleared.\<close>

lemma cleaned_upto:
  assumes "server_upto {} s0" and "cleaning s0 X s" and "keys (application_closure_request_set s0) \<subseteq> X"
  shows "server_upto {} (s\<lparr>application_closure_request_set := []\<rparr>)" (is "server_upto {} ?s")
proof -
  have "books_inv ?s" using assms(2)
    by (auto simp: cleaning_def books_inv_def descriptors_inv_def counts_inv_def requests_inv_def
        statuses_inv_def requests_of_def)
  moreover have "closure_upto {} ?s"
  proof -
    have "\<not> corrupt" if m: "om_find c (write_mutex_map s) = Some (held, corrupt)" for c held corrupt
    proof -
      have "c \<in> keys (record_status_map s)"
        using om_find_Some_keys [OF m] assms(2) by (simp add: cleaning_def books_inv_def descriptors_inv_def)
      then have "om_find c (write_mutex_map s0) = Some (held, corrupt)"
          "c \<notin> keys (application_closure_request_set s0)"
        using m assms(2,3) by (auto simp: cleaning_def)
      then show ?thesis using assms(1) by (auto simp: server_upto_def closure_inv_def)
    qed
    then show ?thesis by (auto simp: closure_inv_def)
  qed
  moreover have between: "status_ok c (request_map s) rs \<and> \<not> IsRecordComplete rs"
    if f: "om_find c (record_status_map s) = Some rs" for c rs
  proof -
    have c: "c \<in> keys (record_status_map s)" using om_find_Some_keys [OF f] .
    then have "om_find c (record_status_map s0) = Some rs" "c \<notin> keys (application_closure_request_set s0)"
      using f assms(2,3) by (auto simp: cleaning_def)
    then have "status_ok c (request_map s0) rs \<and> \<not> IsRecordComplete rs"
      using assms(1) by (simp add: server_upto_def reading_inv_def)
    moreover have "om_find r (request_map s) = om_find r (request_map s0)" if "descriptor r = c" for r
      using that c assms(2) by (simp add: cleaning_def)
    ultimately show ?thesis using status_ok_cong by blast
  qed
  then have "reading_inv ?s" by (simp add: reading_inv_def)
  moreover have "framing_inv ?s" "limits_inv ?s" "\<not> bad_interface_state_detected ?s"
    using assms(2) by (simp_all add: cleaning_def framing_inv_def limits_inv_def)
  ultimately show ?thesis by (simp add: server_upto_def)
qed

text \<open>Every pending request belongs to a connection.\<close>

lemma ready_open:
  assumes "books_inv s" and "ready (descriptor r) (request_map s) r"
  shows "descriptor r \<in> keys (record_status_map s)"
proof -
  obtain rd where rd: "om_find r (request_map s) = Some rd" "request_status rd = kRequestPending"
    using assms(2) by (auto simp: ready_def)
  then have "descriptor r \<in> keys (record_status_map s) \<union> keys (dummy_descriptor_set s)"
    using assms(1) om_find_Some_keys [OF rd(1)] by (auto simp: books_inv_def counts_inv_def)
  moreover have "descriptor r \<notin> keys (dummy_descriptor_set s)"
    using assms(1) rd by (auto simp: books_inv_def requests_inv_def request_ok_def)
  ultimately show ?thesis by simp
qed

lemma ready_cleaning:
  assumes "cleaning s0 X s" and "ready (descriptor r) (request_map s) r"
  shows "descriptor r \<in> keys (record_status_map s)" "ready (descriptor r) (request_map s0) r"
proof -
  show c: "descriptor r \<in> keys (record_status_map s)"
    using assms by (intro ready_open) (simp_all add: cleaning_def)
  then have "om_find r (request_map s) = om_find r (request_map s0)" using assms(1) by (simp add: cleaning_def)
  then show "ready (descriptor r) (request_map s0) r" using assms(2) by (simp add: ready_def)
qed

lemma cleaning_upto:
  assumes "server_upto {} s0" and "cleaning s0 X s" and "X \<subseteq> keys (dummy_descriptor_set s0)"
  shows "server_upto {} s"
proof -
  have "X \<inter> keys (record_status_map s0) = {}"
    using assms(1,3) by (auto simp: server_upto_def books_inv_def descriptors_inv_def)
  note disjoint = this
  have k: "keys (record_status_map s) = keys (record_status_map s0)"
      "keys (write_mutex_map s) = keys (record_status_map s)"
    using assms(2) disjoint by (auto simp: cleaning_def books_inv_def descriptors_inv_def)
  have "om_find c (write_mutex_map s0) = Some v" if "om_find c (write_mutex_map s) = Some v" for c v
    using that om_find_Some_keys [OF that] k assms(2) by (simp add: cleaning_def)
  then have "closure_inv s" using assms k(1) by (auto simp: server_upto_def closure_inv_def cleaning_def)
  moreover have "reading_inv s" unfolding reading_inv_def
  proof (intro allI impI)
    fix c rs assume f: "om_find c (record_status_map s) = Some rs" "c \<notin> keys (application_closure_request_set s)"
    have c: "c \<in> keys (record_status_map s)" using om_find_Some_keys [OF f(1)] .
    then have "om_find c (record_status_map s0) = Some rs" "c \<notin> keys (application_closure_request_set s0)"
      using f assms(2) by (simp_all add: cleaning_def)
    then have "status_ok c (request_map s0) rs \<and> \<not> IsRecordComplete rs"
      using assms(1) by (simp add: server_upto_def reading_inv_def)
    moreover have "om_find r (request_map s) = om_find r (request_map s0)" if "descriptor r = c" for r
      using that c assms(2) by (simp add: cleaning_def)
    ultimately show "status_ok c (request_map s) rs \<and> \<not> IsRecordComplete rs" using status_ok_cong by blast
  qed
  ultimately show ?thesis using assms(2) by (simp add: server_upto_def cleaning_def)
qed

lemma accept_invD:
  assumes "accept_inv lim s" and "\<not> bad_interface_state_detected s"
  shows "server_upto {} s" "fds_inv lim s" "interface_identifier s \<noteq> 0" "ready_closing s"
  using assms by (simp_all add: accept_inv_def server_any_def)

lemma fds_dom: "fds_inv lim s0 \<Longrightarrow> dom (open_fds (os s)) \<subseteq> dom (open_fds (os s0)) \<Longrightarrow> fds_inv lim s"
  unfolding fds_inv_def by blast

lemma cleaning_failed_accept:
  assumes "accept_inv lim s0" and "\<not> bad_interface_state_detected s0" and "cleaning_failed s0 e s"
  shows "accept_inv lim s"
proof -
  note a = accept_invD [OF assms(1,2)]
  have "server_upto {} s \<and> ready_closing s" if nb: "\<not> bad_interface_state_detected s"
  proof -
    obtain X where X: "X \<subseteq> keys (dummy_descriptor_set s0)" and c: "cleaning s0 X s"
      using assms(3) nb by (auto simp: cleaning_failed_def)
    have "ready_closing s" using a(4) ready_cleaning [OF c] c
      by (simp add: ready_closing_def) (simp add: cleaning_def)
    then show ?thesis using cleaning_upto [OF a(1) c X] by simp
  qed
  moreover have "fds_inv lim s" using fds_dom [OF a(2)] assms(3) by (simp add: cleaning_failed_def)
  moreover have "interface_identifier s \<noteq> 0" "descriptors_inv s"
    using assms(3) a(3) by (simp_all add: cleaning_failed_def accept_frame_def same_config_def)
  ultimately show ?thesis by (simp add: accept_inv_def server_any_def)
qed

lemma cleaned_waiting:
  assumes "accept_inv lim s0" and "\<not> bad_interface_state_detected s0"
      and "cleaning s0 X s" and "keys (application_closure_request_set s0) \<subseteq> X"
  shows "waiting_inv lim (s\<lparr>application_closure_request_set := []\<rparr>)" (is "waiting_inv lim ?s")
    and "accept_frame s0 (s\<lparr>application_closure_request_set := []\<rparr>)"
proof -
  note a = accept_invD [OF assms(1,2)]
  have up: "server_upto {} ?s" by (rule cleaned_upto [OF a(1) assms(3,4)])
  have none: "\<not> ready (descriptor r) (request_map s) r" for r
  proof
    assume "ready (descriptor r) (request_map s) r"
    from ready_cleaning [OF assms(3) this]
    have "descriptor r \<in> keys (record_status_map s)" "descriptor r \<in> keys (application_closure_request_set s0)"
      using a(4) by (simp_all add: ready_closing_def)
    then show False using assms(3,4) by (auto simp: cleaning_def)
  qed
  have "\<forall>c \<in> keys (record_status_map ?s). between_calls c ?s"
    using up by (auto simp: server_upto_def intro: between_calls_open)
  moreover have "fds_inv lim ?s" using fds_dom [OF a(2), of s] assms(3) by (simp add: cleaning_def fds_inv_def)
  moreover have "interface_identifier ?s \<noteq> 0"
    using assms(3) a(3) by (simp add: cleaning_def accept_frame_def same_config_def)
  ultimately show "waiting_inv lim ?s" using none server_upto_any [OF up]
    by (simp add: waiting_inv_def accept_inv_def ready_closing_def)
  show "accept_frame s0 ?s"
    using assms(3) by (simp add: cleaning_def accept_frame_def same_config_def assigned_def)
qed

definition accept_error :: "interface \<Rightarrow> exn \<Rightarrow> bool" where
  "accept_error s e \<longleftrightarrow> (\<exists>n. e = SystemError n)
     \<or> bad_interface_state_detected s \<and> (e = LogicError \<or> e = RuntimeError)"

text \<open>The descriptors that a cleanup deals with.\<close>

definition to_be_closed :: "interface \<Rightarrow> fd set" where
  "to_be_closed s = keys (dummy_descriptor_set s) \<union> keys (application_closure_request_set s)"

lemma cleanup_step:
  assumes "accept_inv lim s0"
  shows "hoare (\<lambda>s. s = s0) CleanupConnections
     (\<lambda>_ s. waiting_inv lim s \<and> \<not> bad_interface_state_detected s \<and> accept_frame s0 s
        \<and> application_closure_request_set s = [] \<and> handled s0 (to_be_closed s0) s
        \<and> keys (record_status_map s) = keys (record_status_map s0) - keys (application_closure_request_set s0)
        \<and> (\<forall>c \<in> keys (application_closure_request_set s0). not_held c s0))
     (\<lambda>e s. accept_inv lim s \<and> accept_frame s0 s \<and> accept_error s e)"
    (is "hoare _ _ ?Q ?E")
proof (cases "bad_interface_state_detected s0")
  case True
  then show ?thesis using assms
    by (simp add: hoare_def CleanupConnections_def InterfaceCheck_def bind_def gets_def ret_def throw_def
        accept_frame_def accept_error_def)
next
  case good: False
  note a = accept_invD [OF assms good]
  have fail: "?E e s" if "cleaning_failed s0 e s" for e s
    using that cleaning_failed_accept [OF assms good that] by (auto simp: cleaning_failed_def accept_error_def)
  let ?cs = "map fst (application_closure_request_set s0)"
  have cs: "distinct ?cs" "set ?cs = keys (application_closure_request_set s0)"
      "keys (application_closure_request_set s0) \<subseteq> keys (record_status_map s0)"
    using a(1) by (simp_all add: server_upto_def books_inv_def descriptors_inv_def om_wf_distinct keys_def
        closure_inv_def)
  let ?X = "keys (dummy_descriptor_set s0)"
  have disjoint: "?X \<inter> keys (record_status_map s0) = {}"
    using a(1) by (simp add: server_upto_def books_inv_def descriptors_inv_def)
  have union: "?X \<union> keys (application_closure_request_set s0) = to_be_closed s0"
    by (simp add: to_be_closed_def)
  have "hoare (\<lambda>s. cleaning s0 ?X s \<and> distinct ?cs \<and> set ?cs \<subseteq> keys (record_status_map s0) - ?X)
      (and_then (ClosureLoop ?cs) (modify (\<lambda>s. s\<lparr>application_closure_request_set := []\<rparr>))) ?Q
      (\<lambda>e s. cleaning_failed s0 e (set_bad s))"
  proof (rule hoare_bind [OF _ closure_loop])
    have gone: "keys (record_status_map s0) - to_be_closed s0
        = keys (record_status_map s0) - keys (application_closure_request_set s0)"
      using disjoint by (auto simp: to_be_closed_def)
    have "?Q () (s\<lparr>application_closure_request_set := []\<rparr>)"
      if "cleaning s0 (to_be_closed s0) s" "\<forall>c \<in> keys (application_closure_request_set s0). not_held c s0" for s
    proof -
      have "handled s0 (to_be_closed s0) (s\<lparr>application_closure_request_set := []\<rparr>)"
        by (rule handled_cong [of s0 _ s]) (use that(1) in \<open>simp_all add: cleaning_def\<close>)
      moreover have "keys (record_status_map s) = keys (record_status_map s0) - keys (application_closure_request_set s0)"
        "\<not> bad_interface_state_detected s"
        using that(1) gone by (simp_all add: cleaning_def)
      ultimately show ?thesis
        using cleaned_waiting [OF assms good that(1)] that(2) by (simp add: to_be_closed_def)
    qed
    then show "hoare (\<lambda>s. cleaning s0 (?X \<union> set ?cs) s \<and> (\<forall>c \<in> set ?cs. not_held c s0)) (modify (\<lambda>s. s\<lparr>application_closure_request_set := []\<rparr>)) ?Q
      (\<lambda>e s. cleaning_failed s0 e (set_bad s))"
      unfolding cs(2) union by (simp only: hoare_def op_apply prod.case outcome.case) blast
  qed
  then have loop: "hoare (cleaning s0 ?X)
      (and_then (ClosureLoop ?cs) (modify (\<lambda>s. s\<lparr>application_closure_request_set := []\<rparr>))) ?Q
      (\<lambda>e s. cleaning_failed s0 e (set_bad s))"
    by (rule hoare_pre) (use cs disjoint in auto)
  have close: "hoare (cleaning s0 ?X) CloseRequestedConnections ?Q (cleaning_failed s0)"
    unfolding CloseRequestedConnections_def
  proof (rule hoare_on_throw)
    show "hoare (cleaning s0 ?X) (bind (gets (\<lambda>s. map fst (application_closure_request_set s)))
        (\<lambda>cs. and_then (ClosureLoop cs) (modify (\<lambda>s. s\<lparr>application_closure_request_set := []\<rparr>)))) ?Q
        (\<lambda>e s. cleaning_failed s0 e (set_bad s))"
      using loop by (simp add: hoare_def) (simp add: cleaning_def)
  qed (simp add: hoare_def)
  let ?ds = "map fst (dummy_descriptor_set s0)"
  have ds: "{} \<union> set ?ds = ?X" by (simp add: keys_def)
  have start: "cleaning s0 {} s0 \<and> distinct ?ds \<and> set ?ds \<subseteq> ?X - {}"
    using a(1) cleaning_start [OF a(1)]
    by (simp add: server_upto_def books_inv_def descriptors_inv_def om_wf_distinct keys_def)
  have body: "hoare (\<lambda>s. cleaning s0 {} s \<and> distinct ?ds \<and> set ?ds \<subseteq> keys (dummy_descriptor_set s) - {})
      (and_then (DummyLoop ?ds) (and_then ClearSelfPipe CloseRequestedConnections)) ?Q (cleaning_failed s0)"
    by (rule hoare_bind [OF hoare_bind [OF close pipe_step [OF order_refl]] dummy_loop [of s0 "{}" ?ds, unfolded ds]])
  have run: "CleanupConnections s0 = and_then (DummyLoop (map fst (dummy_descriptor_set s0)))
         (and_then ClearSelfPipe CloseRequestedConnections) s0"
    using good by (simp add: CleanupConnections_def InterfaceCheck_def)
  show ?thesis
    using hoareD [OF body start] fail
    by (simp add: hoare_def run split: prod.splits outcome.splits)
qed

section \<open>The theorems\<close>

text \<open>
  C6. The cleanup at the beginning of \<open>AcceptRequests\<close>. If it comes to its end, the connections that
  were scheduled for closure, on none of which a write mutex was held, are exactly those that are
  gone from the maps, and the set of closures is empty. Of these connections and of the dummy
  descriptors, exactly those for which the application has a request are dummies now, with their
  descriptor reserved by the listening socket; all others have been closed, by one call of \<open>close\<close> each,
  and no other descriptor has been closed or changed. Every other connection is ready to be read, no
  completed request waits, the requests that the application has are the same, and the invariant is
  kept. An exception is a \<open>system_error\<close>, or the interface is corrupt; also then the invariant for the
  rest of its life is kept.
\<close>

theorem CleanupConnections_correct:
  assumes "accept_inv lim s"
  shows "case CleanupConnections s of
       (Ok _, s') \<Rightarrow> waiting_inv lim s' \<and> \<not> bad_interface_state_detected s' \<and> accept_frame s s'
         \<and> application_closure_request_set s' = []
         \<and> keys (record_status_map s') = keys (record_status_map s) - keys (application_closure_request_set s)
         \<and> keys (dummy_descriptor_set s') = {d \<in> to_be_closed s. in_use s d}
         \<and> open_fds (os s') = (\<lambda>d. if d \<in> to_be_closed s
              then if in_use s d then Some Listening_socket else None else open_fds (os s) d)
         \<and> (\<exists>closed. close_calls (os s') = close_calls (os s) @ closed \<and> distinct closed
              \<and> set closed = {d \<in> to_be_closed s. \<not> in_use s d})
         \<and> (\<forall>c \<in> keys (application_closure_request_set s). not_held c s)
     | (Throw e, s') \<Rightarrow> accept_inv lim s' \<and> accept_frame s s'
         \<and> ((\<exists>n. e = SystemError n)
            \<or> bad_interface_state_detected s' \<and> (e = LogicError \<or> e = RuntimeError))
     | (Blocked, s') \<Rightarrow> True
     | _ \<Rightarrow> False"
proof -
  have "(keys (dummy_descriptor_set s) - to_be_closed s) \<union> {d \<in> to_be_closed s. in_use s d}
      = {d \<in> to_be_closed s. in_use s d}"
    by (auto simp: to_be_closed_def)
  note h = hoareD [OF cleanup_step [OF assms] refl, unfolded handled_def this]
  obtain out s' where run: "CleanupConnections s = (out, s')" by fastforce
  show ?thesis
  proof (cases out)
    case (Ok u)
    show ?thesis using h unfolding run Ok prod.case outcome.case
      by (elim conjE) (intro conjI; assumption)
  qed (use h in \<open>simp_all only: run prod.case outcome.case accept_error_def\<close>)
qed

text \<open>The example interface, with its connection scheduled for closure.\<close>

definition example_closing :: "RequestStatus \<Rightarrow> script \<Rightarrow> interface" where
  "example_closing st as = schedule_closure 7 (example_interface st as)"

lemma example_accept_inv: "accept_inv 1024 (example_closing st as)"
proof -
  have "server_upto {} (example_closing st as)"
    unfolding example_closing_def
    by (rule server_upto_schedule [where P = "{}"]) (simp_all add: server_upto_none example_server_inv)
  moreover have "ready_closing (example_closing st as)"
    by (auto simp: ready_closing_def ready_def example_closing_def schedule_closure_def split: if_splits)
  ultimately show ?thesis
    by (simp add: accept_inv_def server_upto_any)
       (simp add: fds_inv_def example_closing_def schedule_closure_def example_interface_def)
qed

lemma example_cleanup_run:
  "fst (CleanupConnections (example_closing kRequestAssigned [Errno EAGAIN, Count 0])) = Ok ()"
  by code_simp

theorem CleanupConnections_correct_witness:
  "\<exists>s'. CleanupConnections (example_closing kRequestAssigned [Errno EAGAIN, Count 0]) = (Ok (), s')
     \<and> waiting_inv 1024 s' \<and> record_status_map s' = [] \<and> assigned s' (FcgiRequestIdentifier 7 1)"
proof -
  let ?s = "example_closing kRequestAssigned [Errno EAGAIN, Count 0]"
  obtain s' where s': "CleanupConnections ?s = (Ok (), s')"
    using example_cleanup_run by (metis (full_types) old.unit.exhaust prod.collapse)
  have k: "keys (record_status_map ?s) = {7}" "7 \<in> keys (application_closure_request_set ?s)"
      "assigned ?s (FcgiRequestIdentifier 7 1)"
    by (simp_all add: example_closing_def schedule_closure_def assigned_def)
  have "record_status_map s' = []" if "keys (record_status_map s') = {}"
    using that by (simp add: keys_def)
  then show ?thesis
    using CleanupConnections_correct [OF example_accept_inv, of kRequestAssigned "[Errno EAGAIN, Count 0]"] k
    by (simp add: s' accept_frame_def)
qed

text \<open>A connection whose write mutex is held: the set of connections to close is not worked off.\<close>

lemma closing_held:
  assumes "accept_inv lim s" and "\<not> bad_interface_state_detected s"
      and "c \<in> keys (application_closure_request_set s)" and "\<not> not_held c s"
  shows "case CloseRequestedConnections s of
       (Throw e, s') \<Rightarrow> bad_interface_state_detected s'
     | (Blocked, s') \<Rightarrow> True
     | _ \<Rightarrow> False"
proof -
  let ?cs = "map fst (application_closure_request_set s)"
  note a = accept_invD [OF assms(1,2)]
  have "distinct ?cs" "set ?cs = keys (application_closure_request_set s)"
      "keys (application_closure_request_set s) \<subseteq> keys (record_status_map s)"
    using a(1) by (simp_all add: server_upto_def books_inv_def descriptors_inv_def om_wf_distinct keys_def
        closure_inv_def)
  then have "cleaning s {} s \<and> distinct ?cs \<and> set ?cs \<subseteq> keys (record_status_map s) - {}" "c \<in> set ?cs"
    using cleaning_start [OF a(1)] assms(3) by simp_all
  with hoareD [OF closure_loop this(1)] assms(4)
  have "case ClosureLoop ?cs s of (Ok x, s') \<Rightarrow> False | (Throw e, s') \<Rightarrow> True | (Blocked, s') \<Rightarrow> True
     | (Terminate, s') \<Rightarrow> False | (Diverge, s') \<Rightarrow> False | (Undefined, s') \<Rightarrow> False"
    by (auto split: prod.splits outcome.splits)
  then show ?thesis
    by (simp add: CloseRequestedConnections_def on_throw_def try_catch_def bind_def split: prod.splits outcome.splits)
qed

definition example_held :: "script \<Rightarrow> interface" where
  "example_held as = (example_interface kRequestAssigned as)\<lparr>write_mutex_map := [(7, (True, False))]\<rparr>"

text \<open>How this comes about: the peer closes the connection on which a request writes.\<close>

lemma held_mutex_run:
  "let (r1, s1) = ReadRecords 7 (example_held [Count 0, Errno EAGAIN]);
       (r2, s2) = CleanupConnections s1
   in r1 = Ok [] \<and> r2 = Throw LogicError \<and> bad_interface_state_detected s2"
  by code_simp

text \<open>
  C38. A request that is being written holds the write mutex of its connection. If the connection has
  been scheduled for closure in the meantime (\<open>ReadRecords\<close> does so when the peer closes it), the next
  cleanup does not wait for the request: it cannot return, and the exception it throws leaves the whole
  interface marked as corrupt.
\<close>

theorem held_mutex_corrupts_interface:
  assumes "accept_inv lim s" and "\<not> bad_interface_state_detected s"
      and "c \<in> keys (application_closure_request_set s)"
      and "om_find c (write_mutex_map s) = Some (True, corrupt)"
  shows "case CloseRequestedConnections s of
       (Throw e, s') \<Rightarrow> bad_interface_state_detected s'
     | (Blocked, s') \<Rightarrow> True
     | _ \<Rightarrow> False"
  by (rule closing_held [OF assms(1-3)]) (simp add: not_held_def assms(4))

lemma example_held_inv: "accept_inv 1024 (schedule_closure 7 (example_held as))" (is "accept_inv 1024 ?s")
proof -
  let ?t = "example_closing kRequestAssigned as"
  have s: "?s = ?t\<lparr>write_mutex_map := [(7, (True, False))]\<rparr>"
    by (simp add: example_held_def example_closing_def schedule_closure_def)
  have "server_upto {} ?t" "fds_inv 1024 ?t" "ready_closing ?t" "interface_identifier ?t \<noteq> 0"
    using example_accept_inv [of kRequestAssigned as]
    by (simp_all add: accept_inv_def server_any_def) (simp_all add: example_closing_def schedule_closure_def)
  then show ?thesis unfolding s
    by (simp add: accept_inv_def server_any_def server_upto_def books_inv_def descriptors_inv_def
        counts_inv_def requests_inv_def statuses_inv_def closure_inv_def framing_inv_def limits_inv_def
        reading_inv_def fds_inv_def ready_closing_def requests_of_def)
       (simp add: example_closing_def schedule_closure_def om_wf_def)
qed

lemma example_held_run:
  "fst (CloseRequestedConnections (schedule_closure 7 (example_held []))) = Throw LogicError"
  by code_simp

theorem held_mutex_corrupts_interface_witness:
  "\<exists>s'. CloseRequestedConnections (schedule_closure 7 (example_held [])) = (Throw LogicError, s')
     \<and> bad_interface_state_detected s'"
proof -
  let ?s = "schedule_closure 7 (example_held [])"
  obtain s' where s': "CloseRequestedConnections ?s = (Throw LogicError, s')"
    using example_held_run by (metis prod.collapse)
  have "\<not> bad_interface_state_detected ?s" "7 \<in> keys (application_closure_request_set ?s)"
      "om_find 7 (write_mutex_map ?s) = Some (True, False)"
    by (simp_all add: example_held_def schedule_closure_def)
  from held_mutex_corrupts_interface [OF example_held_inv this] show ?thesis by (simp add: s')
qed

end
