(* ===== verification/Accept_Correct.thy ===== *)
theory Accept_Correct
  imports Accept_Safety
begin

text \<open>
  The second part of \<open>AcceptRequests\<close>: waiting for input, reading the connections, making request
  objects and accepting connections; and the theorem about the whole call.
\<close>

section \<open>Waiting\<close>

lemma waiting_os:
  assumes "waiting_inv lim s" and "open_fds k = open_fds (os s)" and "wire k = wire (os s)"
      and "peer_gone k = peer_gone (os s)"
  shows "waiting_inv lim (s\<lparr>os := k\<rparr>)"
proof -
  have "server_any {} (s\<lparr>os := k\<rparr>)"
    using assms server_upto_os [of "{}" s k]
    by (simp add: waiting_inv_def accept_inv_def server_any_def descriptors_inv_def)
  then show ?thesis using assms
    by (simp add: waiting_inv_def accept_inv_def fds_inv_def ready_closing_def between_calls_def)
qed

lemma accept_frame_os: "accept_frame s (s\<lparr>os := k\<rparr>)"
  by (simp add: accept_frame_def same_config_def assigned_def)

lemma accept_set_bad:
  "accept_inv lim s \<Longrightarrow> accept_inv lim (set_bad s)"
  by (simp add: accept_inv_def server_any_def fds_inv_def)

lemma wait_step:
  assumes "waiting_inv lim s0" and "lim \<le> FD_SETSIZE"
  shows "hoare (\<lambda>s. s = s0) WaitForInput
     (\<lambda>r s. waiting_inv lim s \<and> accept_frame s0 s \<and> (r \<noteq> None \<longrightarrow> \<not> bad_interface_state_detected s))
     (\<lambda>e s. accept_inv lim s \<and> accept_frame s0 s \<and> accept_error s e)"
proof -
  let ?fds = "listening_descriptor s0 # self_pipe_read_descriptor s0 # map fst (record_status_map s0)"
  have di: "descriptors_inv s0" and fds: "fds_inv lim s0"
    using assms(1) by (simp_all add: waiting_inv_def accept_inv_def server_any_def)
  have "0 \<le> c \<and> c < 1024" if "c \<in> set ?fds" for c
  proof -
    have "open_fds (os s0) c \<noteq> None" using di that by (auto simp: descriptors_inv_def keys_def)
    then have "0 \<le> c \<and> c < lim" using fds unfolding fds_inv_def by blast
    then show ?thesis using assms(2) by simp
  qed
  then have "list_all (\<lambda>c. 0 \<le> c \<and> c < 1024) ?fds" unfolding list_all_iff by blast
  then have set: "FD_SET_all ?fds s0 = (Ok (), s0)" by (simp add: FD_SET_all_def)
  have os: "waiting_inv lim (s0\<lparr>os := k\<rparr>)" "accept_inv lim (s0\<lparr>os := k\<rparr>)"
    if "open_fds k = open_fds (os s0)" "wire k = wire (os s0)" "peer_gone k = peer_gone (os s0)" for k
    using waiting_os [OF assms(1) that] by (simp_all add: waiting_inv_def)
  have bad: "accept_frame s0 (set_bad (s0\<lparr>os := k\<rparr>))" for k
    by (simp add: accept_frame_def same_config_def)
  have run: "WaitForInput s0 = bind (sys_select ?fds) (\<lambda>select_return. case select_return of
            None \<Rightarrow> bind (gets (\<lambda>s. errno (os s))) (\<lambda>e.
              if e = EINTR then ret None
              else and_then (when_then (e = EBADF) (modify set_bad)) (throw (SystemError e)))
          | Some ready_set \<Rightarrow> and_then InterfaceCheck (ret (Some ready_set))) s0"
    by (simp add: WaitForInput_def bind_Ok [where m = "FD_SET_all ?fds", OF set])
  have "case WaitForInput s0 of
       (Ok r, s) \<Rightarrow> waiting_inv lim s \<and> accept_frame s0 s \<and> (r \<noteq> None \<longrightarrow> \<not> bad_interface_state_detected s)
     | (Throw e, s) \<Rightarrow> accept_inv lim s \<and> accept_frame s0 s \<and> accept_error s e
     | (Blocked, s) \<Rightarrow> True | (Terminate, s) \<Rightarrow> False | (Diverge, s) \<Rightarrow> False | (Undefined, s) \<Rightarrow> False"
  proof (cases "script (os s0)")
    case Nil
    then show ?thesis by (simp add: run sys_select_def bind_def)
  next
    case (Cons a as)
    show ?thesis
    proof (cases a)
      case (Count n)
      let ?s = "s0\<lparr>os := (os s0)\<lparr>script := as\<rparr>\<rparr>" and ?ready = "filter (readable (os s0)) ?fds"
      have w: "waiting_inv lim ?s" "accept_inv lim ?s" by (rule os; simp)+
      have "WaitForInput s0 = (if ?ready = [] then (Blocked, s0)
          else if bad_interface_state_detected s0 then (Throw RuntimeError, ?s) else (Ok (Some ?ready), ?s))"
        using Cons Count by (simp add: run sys_select_def bind_def Let_def InterfaceCheck_def del: filter.simps)
      moreover have "accept_frame s0 ?s" by (rule accept_frame_os)
      moreover have "accept_error ?s RuntimeError" if "bad_interface_state_detected s0"
        using that by (simp add: accept_error_def)
      ultimately show ?thesis using w by (simp del: filter.simps)
    next
      case (Errno e)
      have err: "accept_error s (SystemError e)" for s by (simp add: accept_error_def)
      let ?s = "s0\<lparr>os := (os s0)\<lparr>errno := e, script := as\<rparr>\<rparr>"
      have w: "waiting_inv lim ?s" "accept_inv lim ?s" by (rule os; simp)+
      have "WaitForInput s0 = (if e = EINTR then (Ok None, ?s)
          else if e = EBADF then (Throw (SystemError e), set_bad ?s) else (Throw (SystemError e), ?s))"
        using Cons Errno by (simp add: run sys_select_def bind_def Let_def when_then_def)
      then show ?thesis using w accept_frame_os [of s0] bad accept_set_bad [OF w(2)] err
        by (cases "e = EINTR"; cases "e = EBADF") simp_all
    qed
  qed
  then show ?thesis by (intro hoareI) (simp only:)
qed

section \<open>The requests made in a call\<close>

text \<open>The requests \<open>qs\<close> have been given to the application since \<open>s0\<close>, each once, and no others.\<close>

definition handed :: "interface \<Rightarrow> interface \<Rightarrow> FcgiRequest list \<Rightarrow> bool" where
  "handed s0 s qs \<longleftrightarrow> distinct (map request_identifier qs)
     \<and> (\<forall>q \<in> set qs. linked s q \<and> \<not> completed q \<and> \<not> assigned s0 (request_identifier q))
     \<and> (\<forall>r. assigned s r \<longleftrightarrow> assigned s0 r \<or> r \<in> request_identifier ` set qs)"

lemma linked_config: "same_config s s' \<Longrightarrow> linked s' q = linked s q"
  by (simp add: linked_def same_config_def)

lemma handed_frame:
  "handed s0 s qs \<Longrightarrow> same_config s s' \<Longrightarrow> (\<And>r. assigned s' r \<longleftrightarrow> assigned s r) \<Longrightarrow> handed s0 s' qs"
  by (simp add: handed_def linked_config)

text \<open>
  The state between two turns of the loop over the connections, of which those in \<open>cs\<close> have not been
  read.
\<close>

definition serving :: "int \<Rightarrow> interface \<Rightarrow> fd set \<Rightarrow> interface \<Rightarrow> bool" where
  "serving lim s0 cs s \<longleftrightarrow> server_upto {} s \<and> fds_inv lim s \<and> interface_identifier s \<noteq> 0
     \<and> same_config s0 s \<and> request_buffer_on_throw s = request_buffer_on_throw s0
     \<and> (\<forall>c \<in> cs. between_calls c s \<and> (\<forall>r. \<not> ready c (request_map s) r))"

definition looping :: "int \<Rightarrow> interface \<Rightarrow> fd set \<Rightarrow> interface \<times> accept_locals \<Rightarrow> bool" where
  "looping lim s0 cs = (\<lambda>(s, l). serving lim s0 cs s \<and> ready_closing s \<and> handed s0 s (requests l)
     \<and> length_at_loop l = length (requests l))"

text \<open>The state while request objects are made from the completed requests \<open>rs\<close> of connection \<open>c\<close>.\<close>

definition making :: "int \<Rightarrow> interface \<Rightarrow> fd set \<Rightarrow> fd \<Rightarrow> FcgiRequestIdentifier list \<Rightarrow>
    interface \<times> accept_locals \<Rightarrow> bool" where
  "making lim s0 cs c rs = (\<lambda>(s, l). serving lim s0 cs s \<and> c \<notin> cs \<and> c \<in> keys (record_status_map s)
     \<and> (\<forall>r. descriptor r \<noteq> c \<longrightarrow> ready (descriptor r) (request_map s) r \<longrightarrow>
          descriptor r \<in> keys (application_closure_request_set s))
     \<and> distinct rs \<and> (\<forall>r. r \<in> set rs \<longleftrightarrow> ready c (request_map s) r)
     \<and> handed s0 s (requests l))"

lemma on_server_hoare:
  assumes "\<And>s l. P (s, l) \<Longrightarrow> case m s of (Ok x, s') \<Rightarrow> Q x (s', l) | (Throw e, s') \<Rightarrow> E e (s', l)
       | (Blocked, _) \<Rightarrow> True | _ \<Rightarrow> False"
  shows "hoare P (on_server m) Q E"
  using assms by (force simp: hoare_def on_server_def split: prod.splits outcome.splits)

lemma between_calls_cong:
  assumes "between_calls c s" and "om_find c (record_status_map s') = om_find c (record_status_map s)"
      and "\<And>r. descriptor r = c \<Longrightarrow> om_find r (request_map s') = om_find r (request_map s)"
  shows "between_calls c s'"
proof -
  obtain rs where "om_find c (record_status_map s) = Some rs" "status_ok c (request_map s) rs"
      "\<not> IsRecordComplete rs" using assms(1) by (auto simp: between_calls_def)
  then show ?thesis using assms(2) status_ok_cong [OF _ assms(3)] by (simp add: between_calls_def)
qed

lemma ready_cong:
  "om_find r m' = om_find r m \<Longrightarrow> ready c m' r = ready c m r"
  by (simp add: ready_def)

lemma make_request:
  assumes "making lim s0 cs c (r # rs) (s, l)"
  shows "\<exists>q s'. FcgiRequest_new r (interface_identifier s) True (Some r) (Some c) (Some c)
        (self_pipe_write_descriptor s) s = (Ok q, s')
     \<and> making lim s0 cs c rs (s', l\<lparr>requests := requests l @ [q]\<rparr>)"
proof -
  have m: "serving lim s0 cs s" "c \<notin> cs" "c \<in> keys (record_status_map s)" "distinct (r # rs)"
      "\<forall>x. x \<in> set (r # rs) \<longleftrightarrow> ready c (request_map s) x" "handed s0 s (requests l)"
      "\<forall>r. descriptor r \<noteq> c \<longrightarrow> ready (descriptor r) (request_map s) r \<longrightarrow>
          descriptor r \<in> keys (application_closure_request_set s)"
    using assms by (simp_all add: making_def)
  have "ready c (request_map s) r" by (rule iffD1 [OF m(5) [rule_format] list.set_intros(1)])
  then obtain rd where rd: "descriptor r = c" "om_find r (request_map s) = Some rd"
      "request_status rd = kRequestPending" "received rd" by (auto simp: ready_def)
  have sv: "server_upto {} s" "interface_identifier s \<noteq> 0" "fds_inv lim s"
    using m(1) by (simp_all add: serving_def)
  have "descriptor r \<in> keys (record_status_map s)" using m(3) rd(1) by simp
  note new = FcgiRequest_new_step [OF sv(1) rd(2,4) this sv(2)]
  have "request_status rd \<noteq> kRequestAssigned" using rd(3) by simp
  from new [unfolded if_not_P [OF this], unfolded rd(1)]
  obtain q s' where q: "FcgiRequest_new r (interface_identifier s) True (Some r) (Some c) (Some c)
        (self_pipe_write_descriptor s) s = (Ok q, s')" "server_upto {} s'" "request_step r s s'" "linked s' q"
      "assigned s' (request_identifier q)" "\<not> completed q" "request_identifier q = r"
    by blast
  have as: "assigned s' r" using q(5,7) by simp
  have st: "same_config s s'" "record_status_map s' = record_status_map s"
      "request_buffer_on_throw s' = request_buffer_on_throw s"
      "\<And>x. x \<noteq> r \<Longrightarrow> om_find x (request_map s') = om_find x (request_map s)"
      "keys (application_closure_request_set s) \<subseteq> keys (application_closure_request_set s')"
      "open_fds (os s') = open_fds (os s)"
    using q(3) by (simp_all add: request_step_def)
  have not_ready: "\<not> ready c (request_map s') r" using as by (auto simp: ready_def assigned_def)
  have ready: "ready d (request_map s') x = ready d (request_map s) x" if "x \<noteq> r" for d x
    using st(4) [OF that] by (rule ready_cong)
  have "serving lim s0 cs s'"
  proof -
    have "between_calls d s' \<and> (\<forall>x. \<not> ready d (request_map s') x)" if "d \<in> cs" for d
    proof -
      have d: "d \<noteq> c" using that m(2) by auto
      have "between_calls d s" "\<forall>x. \<not> ready d (request_map s) x" using m(1) that by (simp_all add: serving_def)
      moreover have "\<not> ready d (request_map s') r" using d rd(1) by (simp add: ready_def)
      moreover have "om_find x (request_map s') = om_find x (request_map s)" if "descriptor x = d" for x
        using st(4) [of x] that d rd(1) by auto
      ultimately show ?thesis using between_calls_cong [of d s s'] st(2) ready by metis
    qed
    then show ?thesis using m(1) q(2) st by (auto simp: serving_def fds_inv_def same_config_def)
  qed
  moreover have "handed s0 s' (requests l @ [q])"
  proof -
    have "\<not> assigned s r" using rd(2,3) by (simp add: assigned_def)
    moreover have "assigned s' x \<longleftrightarrow> assigned s x \<or> x = r" for x
      using as st(4) by (cases "x = r") (auto simp: assigned_def)
    ultimately show ?thesis using m(6) q(4,6,7) linked_config [OF st(1)] by (auto simp: handed_def)
  qed
  moreover have "\<forall>x. x \<in> set rs \<longleftrightarrow> ready c (request_map s') x"
    using m(4,5) not_ready ready by (metis distinct.simps(2) list.set_intros set_ConsD)
  moreover have "\<forall>x. descriptor x \<noteq> c \<longrightarrow> ready (descriptor x) (request_map s') x \<longrightarrow>
          descriptor x \<in> keys (application_closure_request_set s')"
  proof (intro allI impI)
    fix x assume x: "descriptor x \<noteq> c" "ready (descriptor x) (request_map s') x"
    then have "x \<noteq> r" using rd(1) by auto
    then have "ready (descriptor x) (request_map s) x" using ready x(2) by simp
    then show "descriptor x \<in> keys (application_closure_request_set s')" using m(7) x(1) st(5) by blast
  qed
  ultimately show ?thesis using q(1) m(2,3,4) st(2) by (auto simp: making_def)
qed

lemma make_requests:
  "making lim s0 cs c rs (s, l) \<Longrightarrow> \<exists>s' l'. MakeRequests c rs (s, l) = (Ok (), (s', l'))
     \<and> making lim s0 cs c [] (s', l')"
proof (induction rs arbitrary: s l)
  case Nil
  then show ?case by simp
next
  case (Cons r rs)
  obtain q s' where q: "FcgiRequest_new r (interface_identifier s) True (Some r) (Some c) (Some c)
        (self_pipe_write_descriptor s) s = (Ok q, s')"
      "making lim s0 cs c rs (s', l\<lparr>requests := requests l @ [q]\<rparr>)"
    using make_request [OF Cons.prems] by blast
  from Cons.IH [OF q(2)] show ?case using q(1)
    by (simp add: on_server_def bind_def FcgiRequest_move_default)
qed

section \<open>Reading the connections\<close>

text \<open>A connection is read; the others are left as they are.\<close>

lemma connection_read_step:
  assumes "looping lim s0 cs (s, l)" and "c \<in> cs"
  shows "case ReadRecords c s of
       (Ok rs, s') \<Rightarrow> (if rs = [] then looping lim s0 (cs - {c}) (s', l) else making lim s0 (cs - {c}) c rs (s', l))
     | (Throw e, s') \<Rightarrow> looping lim s0 {} (s', l) \<and> (\<exists>n. e = SystemError n)
     | (Blocked, _) \<Rightarrow> True
     | _ \<Rightarrow> False"
proof -
  have sv: "serving lim s0 cs s" "ready_closing s" "handed s0 s (requests l)"
      "length_at_loop l = length (requests l)"
    using assms(1) by (simp_all add: looping_def)
  have inv: "server_inv s" "between_calls c s" "\<forall>r. \<not> ready c (request_map s) r"
    using sv(1) assms(2) by (simp_all add: serving_def server_upto_none)
  have kept: "serving lim s0 (cs - {c}) s' \<and> handed s0 s' (requests l) \<and> c \<in> keys (record_status_map s')
      \<and> (\<forall>r. descriptor r \<noteq> c \<longrightarrow> ready (descriptor r) (request_map s') r \<longrightarrow>
          descriptor r \<in> keys (application_closure_request_set s'))"
    if i: "server_inv s'" "isolated c s s'" for s'
  proof -
    have iso: "same_config s s'" "\<And>r. assigned s' r \<longleftrightarrow> assigned s r"
        "request_buffer_on_throw s' = request_buffer_on_throw s"
        "open_fds (os s') = open_fds (os s)" "keys (record_status_map s') = keys (record_status_map s)"
        "keys (application_closure_request_set s) \<subseteq> keys (application_closure_request_set s')"
        "\<And>d. d \<noteq> c \<Longrightarrow> om_find d (record_status_map s') = om_find d (record_status_map s)"
        "\<And>r. descriptor r \<noteq> c \<Longrightarrow> om_find r (request_map s') = om_find r (request_map s)"
      using i(2) by (simp_all add: isolated_def)
    have others: "between_calls d s' \<and> (\<forall>r. \<not> ready d (request_map s') r)" if d: "d \<in> cs" "d \<noteq> c" for d
    proof
      have "between_calls d s" "\<forall>r. \<not> ready d (request_map s) r" using sv(1) d(1) by (simp_all add: serving_def)
      then show "between_calls d s'" using between_calls_cong [of d s s'] iso(7,8) d(2) by metis
      show "\<forall>r. \<not> ready d (request_map s') r"
      proof
        fix r show "\<not> ready d (request_map s') r"
          using \<open>\<forall>r. \<not> ready d (request_map s) r\<close> ready_cong [OF iso(8), of r d] d(2)
          by (cases "descriptor r = d") (auto simp: ready_def)
      qed
    qed
    have id: "interface_identifier s' \<noteq> 0"
      using sv(1) iso(1) unfolding serving_def same_config_def by metis
    have "serving lim s0 (cs - {c}) s'"
      using sv(1) i(1) iso(3,4) others same_config_trans [OF _ iso(1)] id
      by (simp add: serving_def server_upto_none fds_inv_def)
    moreover have "handed s0 s' (requests l)" by (rule handed_frame [OF sv(3) iso(1,2)])
    moreover have "c \<in> keys (record_status_map s')"
      using inv(2) iso(5) by (auto simp: between_calls_def keys_iff)
    moreover have "descriptor r \<in> keys (application_closure_request_set s')"
      if "descriptor r \<noteq> c" "ready (descriptor r) (request_map s') r" for r
      using that ready_cong [OF iso(8) [OF that(1)]] sv(2) iso(6) unfolding ready_closing_def by blast
    ultimately show ?thesis by blast
  qed
  have closing: "ready_closing s'" if "c \<in> keys (application_closure_request_set s')"
      "\<forall>r. descriptor r \<noteq> c \<longrightarrow> ready (descriptor r) (request_map s') r \<longrightarrow>
          descriptor r \<in> keys (application_closure_request_set s')" for s'
    using that by (metis ready_closing_def)
  have none: "ready_closing s'" if "ready_list c (request_map s') []"
      "\<forall>r. descriptor r \<noteq> c \<longrightarrow> ready (descriptor r) (request_map s') r \<longrightarrow>
          descriptor r \<in> keys (application_closure_request_set s')" for s'
    using that by (auto simp: ready_list_def ready_closing_def)
  have ok: "if rs = [] then looping lim s0 (cs - {c}) (s', l) else making lim s0 (cs - {c}) c rs (s', l)"
    if "server_inv s'" "isolated c s s'"
      "ready_list c (request_map s') rs \<or> rs = [] \<and> c \<in> keys (application_closure_request_set s')" for rs s'
    using kept [OF that(1,2)] that(3) closing [of s'] none [of s'] sv(4)
    by (auto simp: looping_def making_def ready_list_def)
  have fail: "looping lim s0 {} (s', l)" if "server_inv s'" "isolated c s s'"
      "c \<in> keys (application_closure_request_set s')" for s'
    using kept [OF that(1,2)] that(3) closing [of s'] sv(4) by (auto simp: looping_def serving_def)
  obtain out s' where run: "ReadRecords c s = (out, s')" by (cases "ReadRecords c s")
  note post = ReadRecords_step [OF inv, unfolded run prod.case]
  show ?thesis unfolding run prod.case
  proof (cases out)
    case (Ok rs)
    show "case out of
       Ok rs \<Rightarrow> if rs = [] then looping lim s0 (cs - {c}) (s', l) else making lim s0 (cs - {c}) c rs (s', l)
     | Throw e \<Rightarrow> looping lim s0 {} (s', l) \<and> (\<exists>n. e = SystemError n)
     | Terminate \<Rightarrow> False | Blocked \<Rightarrow> True | Diverge \<Rightarrow> False | Undefined \<Rightarrow> False"
      using post ok [of s' rs] unfolding Ok outcome.case by blast
  qed (use post fail in simp_all)
qed

lemma made_looping:
  assumes "making lim s0 cs c [] (s, l)"
  shows "looping lim s0 cs (s, l\<lparr>length_at_loop := length (requests l)\<rparr>)"
proof -
  have "ready_closing s"
  proof (unfold ready_closing_def, intro allI impI)
    fix r assume "ready (descriptor r) (request_map s) r"
    then show "descriptor r \<in> keys (application_closure_request_set s)"
      using assms by (cases "descriptor r = c") (auto simp: making_def)
  qed
  then show ?thesis using assms by (simp add: making_def looping_def)
qed

lemma looping_locals:
  "looping lim s0 cs (s, l) \<Longrightarrow> requests l' = requests l \<Longrightarrow> length_at_loop l' = length_at_loop l \<Longrightarrow>
     looping lim s0 cs (s, l')"
  by (simp add: looping_def)

lemma looping_mono: "looping lim s0 cs (s, l) \<Longrightarrow> cs' \<subseteq> cs \<Longrightarrow> looping lim s0 cs' (s, l)"
  by (auto simp: looping_def serving_def)

lemma connection_step:
  assumes "looping lim s0 cs (s, l)" and "c \<in> cs"
  shows "case ReadConnection ready_set c (s, l) of
       (Ok _, p) \<Rightarrow> looping lim s0 (cs - {c}) p
     | (Throw e, p) \<Rightarrow> looping lim s0 {} p \<and> (\<exists>n. e = SystemError n)
     | (Blocked, _) \<Rightarrow> True
     | _ \<Rightarrow> False"
proof (cases "c \<in> set ready_set")
  case False
  have "looping lim s0 (cs - {c}) (s, l\<lparr>current_connection := c\<rparr>)"
    by (rule looping_locals [OF looping_mono [OF assms(1)]]) auto
  then show ?thesis using False by (simp add: ReadConnection_def)
next
  case True
  let ?l = "l\<lparr>current_connection := c, connections_read := Suc (connections_read l)\<rparr>"
  have "looping lim s0 cs (s, ?l)" by (rule looping_locals [OF assms(1)]) auto
  note post = connection_read_step [OF this assms(2)]
  obtain out s' where run: "ReadRecords c s = (out, s')" by (cases "ReadRecords c s")
  show ?thesis
  proof (cases out)
    case (Ok rs)
    show ?thesis
    proof (cases "rs = []")
      case True
      then show ?thesis using post \<open>c \<in> set ready_set\<close>
        by (simp add: ReadConnection_def on_server_def bind_def run Ok)
    next
      case False
      then have m: "making lim s0 (cs - {c}) c rs (s', ?l)" using post by (simp add: run Ok)
      obtain s2 l2 where mk: "MakeRequests c rs (s', ?l) = (Ok (), (s2, l2))"
          "making lim s0 (cs - {c}) c [] (s2, l2)"
        using make_requests [OF m] by blast
      have "\<not> bad_interface_state_detected s'" "c \<in> keys (write_mutex_map s')"
        using m by (auto simp: making_def serving_def server_upto_def books_inv_def descriptors_inv_def)
      then show ?thesis using False True mk(1) made_looping [OF mk(2)]
        by (simp add: ReadConnection_def on_server_def bind_def run Ok InterfaceCheck_def om_mem_keys)
    qed
  qed (use post True in \<open>simp_all add: ReadConnection_def on_server_def bind_def run\<close>)
qed

lemma connection_loop:
  "hoare (\<lambda>p. looping lim s0 (set cs) p \<and> distinct cs) (ConnectionLoop ready_set n cs)
     (\<lambda>_. looping lim s0 {}) (\<lambda>e p. looping lim s0 {} p \<and> (\<exists>n. e = SystemError n))"
proof (induction cs)
  case Nil
  show ?case by (simp add: hoare_def)
next
  case (Cons c cs)
  have read: "hoare (\<lambda>p. looping lim s0 (set (c # cs)) p \<and> distinct (c # cs)) (ReadConnection ready_set c)
      (\<lambda>_ p. looping lim s0 (set cs) p \<and> distinct cs)
      (\<lambda>e p. looping lim s0 {} p \<and> (\<exists>n. e = SystemError n))"
  proof (rule hoareI)
    fix p assume p: "looping lim s0 (set (c # cs)) p \<and> distinct (c # cs)"
    obtain s l where sl: "p = (s, l)" by (cases p)
    have "set (c # cs) - {c} = set cs" using p by auto
    then show "case ReadConnection ready_set c p of
         (Ok x, p') \<Rightarrow> looping lim s0 (set cs) p' \<and> distinct cs
       | (Throw e, p') \<Rightarrow> looping lim s0 {} p' \<and> (\<exists>n. e = SystemError n)
       | (Blocked, p') \<Rightarrow> True | (Terminate, p') \<Rightarrow> False | (Diverge, p') \<Rightarrow> False | (Undefined, p') \<Rightarrow> False"
      using connection_step [of lim s0 "set (c # cs)" s l c ready_set] p
      by (auto simp: sl split: prod.splits outcome.splits)
  qed
  have skip: "looping lim s0 {} p" if "looping lim s0 (set (c # cs)) p" for p
    using that looping_mono by (cases p) blast
  show ?case unfolding ConnectionLoop.simps
    by (rule step_gets, rule step_if [OF hoare_bind [OF Cons.IH read] step_ret]) (use skip in blast)
qed

text \<open>New connections.\<close>

lemma accepted_frame:
  assumes "registered lim s x s' \<or> untouched s s'"
  shows "request_map s' = request_map s" "same_config s s'"
    "application_closure_request_set s' = application_closure_request_set s"
    "request_buffer_on_throw s' = request_buffer_on_throw s"
proof -
  obtain a b c k where "s' = s\<lparr>record_status_map := a, write_mutex_map := b, request_count_map := c, os := k\<rparr>"
  proof (cases "registered lim s x s'")
    case True
    then show ?thesis using registeredD(1) that by blast
  next
    case False
    then have "untouched s s'" using assms by simp
    then have "s' = s\<lparr>record_status_map := record_status_map s, write_mutex_map := write_mutex_map s,
        request_count_map := request_count_map s, os := os s'\<rparr>" using untouchedD(1) by simp
    then show ?thesis using that by blast
  qed
  then show "request_map s' = request_map s" "same_config s s'"
    "application_closure_request_set s' = application_closure_request_set s"
    "request_buffer_on_throw s' = request_buffer_on_throw s" by (simp_all add: same_config_def)
qed

lemma accept_step:
  assumes "looping lim s0 {} (s, l)"
  shows "case AcceptConnection lim s of
       (Ok x, s') \<Rightarrow> looping lim s0 {} (s', l)
     | (Throw e, s') \<Rightarrow> looping lim s0 {} (s', l) \<and> (\<exists>n. e = SystemError n)
     | (Blocked, _) \<Rightarrow> True
     | _ \<Rightarrow> False"
proof -
  have sv: "server_upto {} s" "fds_inv lim s" using assms by (simp_all add: looping_def serving_def)
  have kept: "looping lim s0 {} (s', l)" if a: "registered lim s x s' \<or> untouched s s'" "server_upto {} s'" "fds_inv lim s'" for x s'
  proof -
    note f = accepted_frame [OF a(1)]
    have "assigned s' r \<longleftrightarrow> assigned s r" for r using f(1) by (simp add: assigned_def)
    then have "handed s0 s' (requests l)" using handed_frame [OF _ f(2)] assms by (simp add: looping_def)
    moreover have "ready_closing s'" using assms f by (simp add: looping_def ready_closing_def)
    moreover have "interface_identifier s' \<noteq> 0" "same_config s0 s'"
      using assms f(2) same_config_trans [OF _ f(2)]
      unfolding looping_def serving_def same_config_def split_conv by metis+
    ultimately show ?thesis using assms a(2,3) f(4) by (simp add: looping_def serving_def)
  qed
  show ?thesis using AcceptConnection_step [OF sv] kept
    by (fastforce simp: accepted_def split: prod.splits outcome.splits)
qed

lemma accept_loop:
  "hoare (\<lambda>s. looping lim s0 {} (s, l) \<and> length (script (os s)) < fuel) (AcceptLoop fuel lim)
     (\<lambda>_ s. looping lim s0 {} (s, l)) (\<lambda>e s. looping lim s0 {} (s, l) \<and> (\<exists>n. e = SystemError n))"
proof (induction fuel)
  case 0
  show ?case by (simp add: hoare_def)
next
  case (Suc fuel)
  show ?case unfolding AcceptLoop.simps
  proof (rule hoare_bind [where R = "\<lambda>_ s. looping lim s0 {} (s, l) \<and> length (script (os s)) < fuel"])
    show "hoare (\<lambda>s. looping lim s0 {} (s, l) \<and> length (script (os s)) < Suc fuel) (AcceptConnection lim)
        (\<lambda>_ s. looping lim s0 {} (s, l) \<and> length (script (os s)) < fuel)
        (\<lambda>e s. looping lim s0 {} (s, l) \<and> (\<exists>n. e = SystemError n))"
      using accept_step by (fastforce simp: hoare_def dest: accept_shorter split: prod.splits outcome.splits)
  qed (intro step_if step_ret Suc.IH, simp)
qed

lemma read_and_accept:
  assumes "keys (record_status_map s0) = keys (record_status_map s)" and "looping lim s0 (keys (record_status_map s)) (s, l)"
  shows "hoare (\<lambda>p. p = (s, l)) (ReadAndAccept lim ready_set) (\<lambda>_. looping lim s0 {})
     (\<lambda>e p. looping lim s0 {} p \<and> (\<exists>n. e = SystemError n))" (is "hoare _ _ ?Q ?E")
proof -
  let ?cs = "map fst (record_status_map s)"
  have cs: "set ?cs = keys (record_status_map s)" "distinct ?cs"
    using assms(2) by (simp_all add: keys_def looping_def serving_def server_upto_def books_inv_def
        descriptors_inv_def om_wf_distinct)
  have accept: "hoare (looping lim s0 {}) (on_server (bind (gets (\<lambda>s. Suc (length (script (os s)))))
      (\<lambda>fuel. AcceptLoop fuel lim))) ?Q ?E"
  proof (rule on_server_hoare)
    fix s l assume p: "looping lim s0 {} (s, l)"
    have "bind (gets (\<lambda>s. Suc (length (script (os s))))) (\<lambda>fuel. AcceptLoop fuel lim) s
        = AcceptLoop (Suc (length (script (os s)))) lim s" by simp
    then show "case bind (gets (\<lambda>s. Suc (length (script (os s))))) (\<lambda>fuel. AcceptLoop fuel lim) s of
         (Ok x, s') \<Rightarrow> looping lim s0 {} (s', l)
       | (Throw e, s') \<Rightarrow> looping lim s0 {} (s', l) \<and> (\<exists>n. e = SystemError n)
       | (Blocked, _) \<Rightarrow> True | _ \<Rightarrow> False"
      using hoareD [OF accept_loop [of lim s0 l "Suc (length (script (os s)))"], of s] p
      by (simp only: less_Suc_eq_le order_refl simp_thms)
  qed
  have rest: "hoare (looping lim s0 {}) (bind (local connections_read) (\<lambda>n.
      when_then (n < length ready_set) (on_server (bind (gets (\<lambda>s. Suc (length (script (os s)))))
        (\<lambda>fuel. AcceptLoop fuel lim))))) ?Q ?E"
    by (rule step_gets) (simp add: when_then_def accept step_ret)
  have "hoare (\<lambda>p. looping lim s0 (set ?cs) p \<and> distinct ?cs)
      (and_then (ConnectionLoop ready_set (length ready_set) ?cs) (bind (local connections_read) (\<lambda>n.
      when_then (n < length ready_set) (on_server (bind (gets (\<lambda>s. Suc (length (script (os s)))))
        (\<lambda>fuel. AcceptLoop fuel lim)))))) ?Q ?E"
    by (rule hoare_bind [OF rest connection_loop])
  from hoareD [OF this, of "(s, l)"] assms(2) cs show ?thesis
    by (simp add: hoare_def ReadAndAccept_def on_server_def bind_def [of "\<lambda>(s, l). _ s l"] gets_def)
qed

text \<open>The exception handler saves all requests that have been made.\<close>

definition saved :: "int \<Rightarrow> interface \<Rightarrow> interface \<Rightarrow> bool" where
  "saved lim s0 s \<longleftrightarrow> accept_inv lim s \<and> same_config s0 s \<and> \<not> bad_interface_state_detected s
     \<and> (\<exists>qs. request_buffer_on_throw s = request_buffer_on_throw s0 @ qs \<and> handed s0 s qs)"

lemma serving_accept:
  "serving lim s0 cs s \<Longrightarrow> ready_closing s \<Longrightarrow> accept_inv lim s \<and> \<not> bad_interface_state_detected s"
  by (simp add: serving_def accept_inv_def server_upto_any) (simp add: server_upto_def)

lemma save_requests:
  assumes "looping lim s0 {} (s, l)"
  shows "\<exists>s'. SaveRequests e (s, l) = (Throw e, (s', l)) \<and> saved lim s0 s'"
proof -
  have a: "accept_inv lim s" "\<not> bad_interface_state_detected s" "same_config s0 s"
      "request_buffer_on_throw s = request_buffer_on_throw s0" "handed s0 s (requests l)"
      "length_at_loop l = length (requests l)"
    using assms serving_accept by (auto simp: looping_def serving_def)
  show ?thesis
  proof (cases "requests l = []")
    case True
    then have "saved lim s0 s" using a by (auto simp: saved_def)
    then show ?thesis using True by (simp add: SaveRequests_def)
  next
    case False
    let ?s = "s\<lparr>request_buffer_on_throw := request_buffer_on_throw s @ requests l\<rparr>"
    have "SaveRequests e (s, l) = (Throw e, (?s, l))" using False a(2,6)
      by (simp add: SaveRequests_def on_server_def bind_def gets_def modify_def when_then_def ret_def)
    moreover have "server_upto {} ?s" using a(1,2)
      by (auto simp: accept_inv_def server_any_def server_upto_def books_inv_def descriptors_inv_def
          counts_inv_def requests_inv_def statuses_inv_def requests_of_def framing_inv_def limits_inv_def
          reading_inv_def closure_inv_def)
    then have "accept_inv lim ?s" using a(1,2) server_upto_any [of "{}" ?s]
      by (simp add: accept_inv_def fds_inv_def ready_closing_def)
    moreover have "same_config s0 ?s" using a(3) by (simp add: same_config_def)
    moreover have "handed s0 ?s (requests l)"
      by (rule handed_frame [OF a(5)]) (simp_all add: same_config_def assigned_def)
    ultimately show ?thesis using a(2,4) by (auto simp: saved_def)
  qed
qed

lemma process_step:
  assumes "waiting_inv lim s0" and "\<not> bad_interface_state_detected s0"
  shows "case ProcessInput lim ready_set s0 of
       (Ok qs, s') \<Rightarrow> accept_inv lim s' \<and> \<not> bad_interface_state_detected s' \<and> same_config s0 s'
         \<and> request_buffer_on_throw s' = request_buffer_on_throw s0 \<and> handed s0 s' qs
     | (Throw e, s') \<Rightarrow> saved lim s0 s' \<and> (\<exists>n. e = SystemError n)
     | (Blocked, _) \<Rightarrow> True
     | _ \<Rightarrow> False"
proof -
  let ?l = "\<lparr>requests = [], length_at_loop = 0, connections_read = 0, current_connection = 0\<rparr>"
  have inv: "accept_inv lim s0" "\<forall>c \<in> keys (record_status_map s0). between_calls c s0"
      "\<And>r. \<not> ready (descriptor r) (request_map s0) r"
    using assms by (simp_all add: waiting_inv_def)
  have none: "\<not> ready c (request_map s0) r" for c r using inv(3) [of r] by (auto simp: ready_def)
  have "looping lim s0 (keys (record_status_map s0)) (s0, ?l)"
    using accept_invD [OF inv(1) assms(2)] inv(2) none
    by (simp add: looping_def serving_def handed_def)
  note body = hoareD [OF read_and_accept [OF refl this] refl, of ready_set]
  obtain out s l where run: "ReadAndAccept lim ready_set (s0, ?l) = (out, (s, l))" by (metis prod.collapse)
  show ?thesis
  proof (cases out)
    case (Ok u)
    then have lp: "looping lim s0 {} (s, l)" using body run by simp
    then show ?thesis using serving_accept run Ok
      by (auto simp: ProcessInput_def try_catch_def bind_def gets_def looping_def serving_def)
  next
    case (Throw e)
    then have lp: "looping lim s0 {} (s, l)" "\<exists>n. e = SystemError n" using body run by simp_all
    obtain s' where "SaveRequests e (s, l) = (Throw e, (s', l))" "saved lim s0 s'"
      using save_requests [OF lp(1)] by blast
    then show ?thesis using run Throw lp(2) by (simp add: ProcessInput_def try_catch_def bind_def)
  qed (use body run in \<open>simp_all add: ProcessInput_def try_catch_def bind_def\<close>)
qed

section \<open>The whole call\<close>

lemma handed_before:
  "handed s1 s qs \<Longrightarrow> (\<And>r. assigned s1 r \<longleftrightarrow> assigned s0 r) \<Longrightarrow> handed s0 s qs"
  by (simp add: handed_def)

lemma handed_none: "same_config s0 s \<Longrightarrow> (\<And>r. assigned s r \<longleftrightarrow> assigned s0 r) \<Longrightarrow> handed s0 s []"
  by (simp add: handed_def)

definition call_result :: "int \<Rightarrow> interface \<Rightarrow> FcgiRequest list \<Rightarrow> interface \<Rightarrow> bool" where
  "call_result lim s0 qs s \<longleftrightarrow> accept_inv lim s \<and> same_config s0 s
     \<and> request_buffer_on_throw s = request_buffer_on_throw s0
     \<and> (if bad_interface_state_detected s then qs = [] else handed s0 s qs)"

definition call_error :: "int \<Rightarrow> interface \<Rightarrow> exn \<Rightarrow> interface \<Rightarrow> bool" where
  "call_error lim s0 e s \<longleftrightarrow> accept_inv lim s \<and> same_config s0 s \<and> accept_error s e
     \<and> (\<exists>qs. request_buffer_on_throw s = request_buffer_on_throw s0 @ qs
          \<and> (if bad_interface_state_detected s then qs = [] else handed s0 s qs))"

lemma call_error_before:
  assumes "accept_inv lim s" and "accept_frame s0 s" and "accept_error s e"
  shows "call_error lim s0 e s"
  using assms handed_none [of s0 s] by (auto simp: call_error_def accept_frame_def)

lemma after_cleanup_step:
  assumes "waiting_inv lim s0" and "lim \<le> FD_SETSIZE"
  shows "hoare (\<lambda>s. s = s0) (AcceptAfterCleanup lim) (call_result lim s0) (call_error lim s0)"
  unfolding AcceptAfterCleanup_def
proof (rule hoare_bind [OF _ hoare_weaken [OF wait_step [OF assms]]])
  fix r :: "fd list option"
  show "hoare (\<lambda>s. waiting_inv lim s \<and> accept_frame s0 s \<and> (r \<noteq> None \<longrightarrow> \<not> bad_interface_state_detected s))
      (case r of None \<Rightarrow> ret [] | Some ready_set \<Rightarrow> ProcessInput lim ready_set)
      (call_result lim s0) (call_error lim s0)"
  proof (cases r)
    case None
    have "call_result lim s0 [] s" if "waiting_inv lim s" "accept_frame s0 s" for s
      using that handed_none [of s0 s] by (auto simp: call_result_def accept_frame_def waiting_inv_def)
    then show ?thesis unfolding None option.case by (intro step_ret) blast
  next
    case (Some ready_set)
    show ?thesis unfolding Some option.case
    proof (rule hoareI)
      fix s assume "waiting_inv lim s \<and> accept_frame s0 s
          \<and> (Some ready_set \<noteq> None \<longrightarrow> \<not> bad_interface_state_detected s)"
      then have s: "waiting_inv lim s" "\<not> bad_interface_state_detected s" "same_config s0 s"
          "request_buffer_on_throw s = request_buffer_on_throw s0" "\<And>r. assigned s r \<longleftrightarrow> assigned s0 r"
        by (simp_all add: accept_frame_def)
      have ok: "call_result lim s0 qs s'" if "accept_inv lim s'" "\<not> bad_interface_state_detected s'"
          "same_config s s'" "request_buffer_on_throw s' = request_buffer_on_throw s" "handed s s' qs" for qs s'
        using that s same_config_trans [OF s(3) that(3)] handed_before [OF that(5) s(5)]
        by (simp add: call_result_def)
      have fail: "call_error lim s0 e s'" if "saved lim s s'" "\<exists>n. e = SystemError n" for e s'
        using that s same_config_trans [OF s(3)] handed_before [OF _ s(5)]
        by (auto simp: call_error_def saved_def accept_error_def)
      show "case ProcessInput lim ready_set s of (Ok x, s') \<Rightarrow> call_result lim s0 x s'
         | (Throw e, s') \<Rightarrow> call_error lim s0 e s' | (Blocked, s') \<Rightarrow> True | (Terminate, s') \<Rightarrow> False | (Diverge, s') \<Rightarrow> False
         | (Undefined, s') \<Rightarrow> False"
        using process_step [OF s(1,2), of ready_set] ok fail
        by (auto split: prod.splits outcome.splits)
    qed
  qed
qed (simp_all add: call_error_before)

lemma accept_requests_step:
  assumes "accept_inv lim s" and "lim \<le> FD_SETSIZE" and "request_buffer_on_throw s = []"
  shows "hoare (\<lambda>t. t = s) (AcceptRequests lim) (call_result lim s) (call_error lim s)"
proof -
  have h: "hoare (\<lambda>t. t = s) (and_then CleanupConnections (AcceptAfterCleanup lim)) (call_result lim s) (call_error lim s)"
  proof (rule hoare_bind [OF _ hoare_weaken [OF cleanup_step [OF assms(1)]]])
    show "hoare (\<lambda>t. waiting_inv lim t \<and> \<not> bad_interface_state_detected t \<and> accept_frame s t)
        (AcceptAfterCleanup lim) (call_result lim s) (call_error lim s)"
    proof (rule hoareI)
      fix t assume "waiting_inv lim t \<and> \<not> bad_interface_state_detected t \<and> accept_frame s t"
      then have t: "waiting_inv lim t" "same_config s t" "request_buffer_on_throw t = request_buffer_on_throw s"
          "\<And>r. assigned t r \<longleftrightarrow> assigned s r" by (simp_all add: accept_frame_def)
      have ok: "call_result lim s qs s'" if "call_result lim t qs s'" for qs s'
        using that t(3) same_config_trans [OF t(2)] handed_before [OF _ t(4)]
        by (auto simp: call_result_def split: if_splits)
      have fail: "call_error lim s e s'" if "call_error lim t e s'" for e s'
        using that t(3) same_config_trans [OF t(2)] handed_before [OF _ t(4)]
        by (auto simp: call_error_def split: if_splits)
      show "case AcceptAfterCleanup lim t of (Ok x, s') \<Rightarrow> call_result lim s x s'
         | (Throw e, s') \<Rightarrow> call_error lim s e s' | (Blocked, s') \<Rightarrow> True | (Terminate, s') \<Rightarrow> False | (Diverge, s') \<Rightarrow> False
         | (Undefined, s') \<Rightarrow> False"
        using hoareD [OF after_cleanup_step [OF t(1) assms(2)] refl] ok fail
        by (auto split: prod.splits outcome.splits)
    qed
  qed (simp_all add: call_error_before)
  have "AcceptRequests lim s = and_then CleanupConnections (AcceptAfterCleanup lim) s"
    using assms(3) by (simp add: AcceptRequests_def)
  then show ?thesis using h by (simp add: hoare_def)
qed

text \<open>
  C2. \<open>AcceptRequests\<close>, when no descriptor of the process is beyond what an \<open>fd_set\<close> has room for, and
  whatever the peers have sent and the system calls answer. It never uses an invalid iterator and
  never ends the program, its loops all end, the invariant is kept, and the configuration is not changed. Requests that
  an earlier call has saved are returned at once. Otherwise the list returned holds request objects
  for requests that the application did not have before, each once, every request that has become
  assigned in the call is among them, and the application keeps every request it had. If an exception
  is thrown, the interface is corrupt, or it is a \<open>system_error\<close> and the requests that were made
  are saved for the next call.
\<close>

theorem AcceptRequests_correct:
  assumes "accept_inv lim s" and "lim \<le> FD_SETSIZE"
  shows "case AcceptRequests lim s of
       (Ok qs, s') \<Rightarrow>
         if request_buffer_on_throw s \<noteq> []
         then qs = request_buffer_on_throw s \<and> s' = s\<lparr>request_buffer_on_throw := []\<rparr>
         else accept_inv lim s' \<and> same_config s s' \<and> request_buffer_on_throw s' = []
           \<and> (if bad_interface_state_detected s' then qs = [] else handed s s' qs)
     | (Throw e, s') \<Rightarrow> request_buffer_on_throw s = [] \<and> accept_inv lim s' \<and> same_config s s'
         \<and> (if bad_interface_state_detected s' then request_buffer_on_throw s' = []
            else (\<exists>n. e = SystemError n) \<and> handed s s' (request_buffer_on_throw s'))
     | (Blocked, s') \<Rightarrow> True
     | _ \<Rightarrow> False"
proof (cases "request_buffer_on_throw s = []")
  case False
  then show ?thesis by (simp add: AcceptRequests_def)
next
  case True
  then show ?thesis
    using hoareD [OF accept_requests_step [OF assms True] refl]
    by (auto simp: call_result_def call_error_def accept_error_def split: prod.splits outcome.splits if_splits)
qed

definition example_input :: interface where
  "example_input = example_read\<lparr>os := (os example_read)\<lparr>script :=
     [Errno EAGAIN, Count 1, Count 11, Errno EINTR, Count 9, Errno EAGAIN]\<rparr>\<rparr>"

lemma example_input_inv: "accept_inv 1024 example_input"
proof -
  have "server_upto {} example_read" by (simp add: server_upto_none example_read_inv)
  moreover have "ready_closing example_read"
    by (auto simp: ready_closing_def ready_def example_read_def received_def RequestData_new_def split: if_splits)
  moreover have "between_calls c example_read" if "c \<in> keys (record_status_map example_read)" for c
    using that by (simp add: example_read_def between_calls_def status_ok_new)
  moreover have "\<not> ready (descriptor r) (request_map example_read) r" for r
    by (simp add: ready_def example_read_def received_def RequestData_new_def)
  ultimately have "waiting_inv 1024 example_read"
    by (simp add: waiting_inv_def accept_inv_def server_upto_any)
       (simp add: fds_inv_def example_read_def example_interface_def)
  then have "waiting_inv 1024 example_input"
    unfolding example_input_def by (rule waiting_os) simp_all
  then show ?thesis by (simp add: waiting_inv_def)
qed

lemma example_input_run:
  "(case AcceptRequests 1024 example_input of
     (Ok qs, s') \<Rightarrow> map request_identifier qs = [FcgiRequestIdentifier 7 1] \<and> \<not> bad_interface_state_detected s'
   | _ \<Rightarrow> False)"
  by code_simp

theorem AcceptRequests_correct_witness:
  "\<exists>q s'. AcceptRequests 1024 example_input = (Ok [q], s') \<and> accept_inv 1024 s'
     \<and> request_identifier q = FcgiRequestIdentifier 7 1 \<and> assigned s' (FcgiRequestIdentifier 7 1)"
proof -
  obtain qs s' where run: "AcceptRequests 1024 example_input = (Ok qs, s')"
      "map request_identifier qs = [FcgiRequestIdentifier 7 1]" "\<not> bad_interface_state_detected s'"
    using example_input_run by (auto split: prod.splits outcome.splits)
  then obtain q where q: "qs = [q]" "request_identifier q = FcgiRequestIdentifier 7 1" by auto
  have "request_buffer_on_throw example_input = []"
    by (simp add: example_input_def example_read_def example_interface_def)
  then have "accept_inv 1024 s'" "handed example_input s' [q]"
    using AcceptRequests_correct [OF example_input_inv, of] run q by (simp_all split: if_splits)
  then show ?thesis using run(1) q by (auto simp: handed_def)
qed

text \<open>
  C40. A connection whose descriptor is not less than \<open>FD_SETSIZE\<close>: waiting for input is undefined
  behaviour, because \<open>FD_SET\<close> is used without a check. The kernel gives such descriptors to a process
  whose limit of open files has been raised.
\<close>

theorem FD_SET_overflow:
  assumes "c \<in> keys (record_status_map s)" and "FD_SETSIZE \<le> c"
  shows "fst (AcceptAfterCleanup lim s) = Undefined"
proof -
  have "\<not> list_all (\<lambda>c. 0 \<le> c \<and> c < 1024) (map fst (record_status_map s))"
    using assms unfolding list_all_iff keys_def by force
  then show ?thesis
    by (simp add: AcceptAfterCleanup_def WaitForInput_def FD_SET_all_def bind_def gets_def undefined_behaviour_def)
qed

theorem FD_SET_overflow_witness:
  "fst (AcceptAfterCleanup 2048 ((example_interface kRequestPending [Count 1])
     \<lparr>record_status_map := [(1024, RecordStatus_new 1024)]\<rparr>)) = Undefined"
  by (rule FD_SET_overflow [of 1024]) (simp_all add: keys_def)

section \<open>The loop of accept ends\<close>

text \<open>A call that does not return \<open>-1\<close>, after which the loop calls again.\<close>

definition accepts :: "int \<Rightarrow> interface \<Rightarrow> interface \<Rightarrow> bool" where
  "accepts lim s s' \<longleftrightarrow> (\<exists>x. AcceptConnection lim s = (Ok x, s') \<and> x \<noteq> - 1)"

text \<open>
  C39. The loop over \<open>AcceptConnection\<close> ends. Each call takes an answer of the script, so that with more
  turns than there are answers the loop is not cut off. It makes finitely many calls that do not return
  \<open>-1\<close> and one last call: the loop returns if that call returns \<open>-1\<close>, throws what it throws, and waits
  if it waits for the kernel. In particular the loop returns at once if no connection is pending
  (\<open>accept\<close> answers \<open>EAGAIN\<close>).
\<close>

theorem AcceptLoop_ends:
  assumes "length (script (os s)) < fuel"
  shows "(\<exists>t. (accepts lim)\<^sup>*\<^sup>* s t \<and> (case AcceptConnection lim t of
       (Ok x, t') \<Rightarrow> x = - 1 \<and> AcceptLoop fuel lim s = (Ok (), t')
     | (Throw e, t') \<Rightarrow> AcceptLoop fuel lim s = (Throw e, t')
     | (Blocked, t') \<Rightarrow> AcceptLoop fuel lim s = (Blocked, t')
     | _ \<Rightarrow> False))
   \<and> (\<forall>as. script (os s) = Errno EAGAIN # as \<longrightarrow>
        AcceptLoop fuel lim s = (Ok (), s\<lparr>os := (os s)\<lparr>errno := EAGAIN, script := as\<rparr>\<rparr>))"
proof
  show "\<exists>t. (accepts lim)\<^sup>*\<^sup>* s t \<and> (case AcceptConnection lim t of
       (Ok x, t') \<Rightarrow> x = - 1 \<and> AcceptLoop fuel lim s = (Ok (), t')
     | (Throw e, t') \<Rightarrow> AcceptLoop fuel lim s = (Throw e, t')
     | (Blocked, t') \<Rightarrow> AcceptLoop fuel lim s = (Blocked, t')
     | _ \<Rightarrow> False)" (is "\<exists>t. ?last fuel s t")
    using assms
  proof (induction fuel arbitrary: s)
    case (Suc fuel)
    obtain out s' where run: "AcceptConnection lim s = (out, s')" by fastforce
    have "out \<notin> {Undefined, Terminate, Diverge}"
      using accept_calm [of lim s] run by simp
    show ?case
    proof (cases "\<exists>x. out = Ok x \<and> x \<noteq> - 1")
      case True
      then have go: "accepts lim s s'" "AcceptLoop (Suc fuel) lim s = AcceptLoop fuel lim s'"
        using run by (auto simp: accepts_def bind_def)
      have "length (script (os s')) < fuel" using True run accept_shorter Suc.prems by fastforce
      from Suc.IH [OF this] obtain t where t: "?last fuel s' t" ..
      have "(accepts lim)\<^sup>*\<^sup>* s t"
        by (rule converse_rtranclp_into_rtranclp [OF go(1) t [THEN conjunct1]])
      then have "?last (Suc fuel) s t" unfolding go(2) using t [THEN conjunct2] by (rule conjI)
      then show ?thesis by (rule exI)
    next
      case False
      then show ?thesis using run \<open>out \<notin> _\<close>
        by (intro exI [of _ s]) (cases out; simp add: bind_def)
    qed
  qed simp
  obtain n where "fuel = Suc n" using assms by (cases fuel) auto
  then show "\<forall>as. script (os s) = Errno EAGAIN # as \<longrightarrow>
        AcceptLoop fuel lim s = (Ok (), s\<lparr>os := (os s)\<lparr>errno := EAGAIN, script := as\<rparr>\<rparr>)"
    by (simp add: AcceptConnection_def sys_accept_def bind_def Let_def)
qed

theorem AcceptLoop_ends_witness:
  "fst (AcceptLoop 9 1024 (example_interface kRequestPending [Errno EAGAIN, Count 9])) = Ok ()
     \<and> script (os (snd (AcceptLoop 9 1024 (example_interface kRequestPending [Errno EAGAIN, Count 9])))) = [Count 9]"
  using AcceptLoop_ends [of "example_interface kRequestPending [Errno EAGAIN, Count 9]" 9 1024] by simp

end
