(* ===== verification/Server_Construct.thy ===== *)
theory Server_Construct
  imports Accept_Correct "HOL-Library.Char_ord"
begin

unbundle bit_operations_syntax

text \<open>
  The constructor of \<open>FcgiServerInterface\<close> (\<open>fcgi/src/fcgi_server_interface.cc\<close>) and the simple
  observers of the class. The constructor works on the storage of the new object, of which only the
  static members and the kernel have a meaning before.
\<close>

section \<open>Observers\<close>

definition connection_count :: "interface \<Rightarrow> nat" where
  "connection_count s = length (record_status_map s) + length (dummy_descriptor_set s)"

definition get_overload :: "interface \<Rightarrow> bool" where
  "get_overload s = application_overload s"

definition set_overload :: "bool \<Rightarrow> interface \<Rightarrow> interface" where
  "set_overload overload_status s = s\<lparr>application_overload := overload_status\<rparr>"

section \<open>The steps of the constructor\<close>

text \<open>The member initializers: those of the class definition and those of the constructor.\<close>

definition initialize_members :: "fd \<Rightarrow> int \<Rightarrow> int \<Rightarrow> int \<Rightarrow> interface \<Rightarrow> interface" where
  "initialize_members listening max_connections max_requests app_status s = s\<lparr>
     listening_descriptor := listening, app_status_on_abort := app_status,
     maximum_connection_count := max_connections, maximum_request_count_per_connection := max_requests,
     socket_domain := 0, valid_ip_address_set := [], application_overload := False,
     self_pipe_read_descriptor := 0, record_status_map := [], dummy_descriptor_set := [],
     request_buffer_on_throw := [], self_pipe_write_descriptor := 0, write_mutex_map := [],
     application_closure_request_set := [], request_count_map := [], request_map := [],
     bad_interface_state_detected := False\<rparr>"

text \<open>A system call that is not repeated: the value of its answer, or its failure.\<close>

definition sys_once :: "nat option iop" where
  "sys_once = (\<lambda>s. let k = os s in
     case script k of
       [] \<Rightarrow> (Blocked, s)
     | Errno e # as \<Rightarrow> (Ok None, s\<lparr>os := k\<lparr>errno := e, script := as\<rparr>\<rparr>)
     | Count n # as \<Rightarrow> (Ok (Some n), s\<lparr>os := k\<lparr>script := as\<rparr>\<rparr>))"

text \<open>\<open>throw std::system_error\<close> if the call fails.\<close>

definition sys_or_throw :: "nat iop" where
  "sys_or_throw = bind sys_once (\<lambda>r. case r of None \<Rightarrow> throw_errno | Some n \<Rightarrow> ret n)"

definition set_flags :: "fd \<Rightarrow> int \<Rightarrow> interface \<Rightarrow> interface" where
  "set_flags c flags s = s\<lparr>os := (os s)\<lparr>status_flags := (status_flags (os s))(c := flags)\<rparr>\<rparr>"

definition MakeListeningNonBlocking :: "fd \<Rightarrow> unit iop" where
  "MakeListeningNonBlocking listening =
     bind sys_or_throw (\<lambda>_.
     bind (gets (\<lambda>s. status_flags (os s) listening OR O_NONBLOCK)) (\<lambda>flags.
     bind sys_or_throw (\<lambda>_. modify (set_flags listening flags))))"

text \<open>\<open>SO_DOMAIN\<close>, \<open>SO_TYPE\<close> and \<open>SO_ACCEPTCONN\<close>.\<close>

definition CheckListeningSocket :: "unit iop" where
  "CheckListeningSocket =
     bind sys_or_throw (\<lambda>domain. and_then (modify (\<lambda>s. s\<lparr>socket_domain := int domain\<rparr>))
     (bind sys_or_throw (\<lambda>type.
       if type \<noteq> SOCK_STREAM then throw RuntimeError
       else bind sys_or_throw (\<lambda>accepting.
         if accepting \<noteq> 1 then throw RuntimeError else ret ()))))"

text \<open>
  The tokens of \<open>FCGI_WEB_SERVER_ADDRS\<close>: the parts between the commas; an empty part after the last
  comma is no token.
\<close>

fun address_tokens :: "string \<Rightarrow> string \<Rightarrow> string list" where
  "address_tokens token [] = (if token = [] then [] else [token])"
| "address_tokens token (ch # chs) =
     (if ch = CHR '','' then token # address_tokens [] chs else address_tokens (token @ [ch]) chs)"

text \<open>
  The set of authorized addresses. \<open>inet_text domain token\<close> is the text that \<open>inet_ntop\<close> gives for the
  address \<open>inet_pton\<close> reads, if it reads one; the two functions of the C library do not fail for the
  two internet domains.
\<close>

definition authorized_addresses :: "(int \<Rightarrow> string \<Rightarrow> string option) \<Rightarrow> int \<Rightarrow> string \<Rightarrow> (string, unit) std_map"
where
  "authorized_addresses inet_text domain addresses =
     fold (\<lambda>token m. case inet_text domain token of None \<Rightarrow> m | Some text \<Rightarrow> om_insert text () m)
       (address_tokens [] addresses) []"

definition ReadAuthorizedAddresses ::
  "(int \<Rightarrow> string \<Rightarrow> string option) \<Rightarrow> string option \<Rightarrow> unit iop"
where
  "ReadAuthorizedAddresses inet_text environment =
     bind (gets socket_domain) (\<lambda>domain.
       let ip_address_list = (case environment of None \<Rightarrow> [] | Some addresses \<Rightarrow> addresses) in
       if (domain = AF_INET \<or> domain = AF_INET6) \<and> ip_address_list \<noteq> []
       then and_then
         (modify (\<lambda>s. s\<lparr>valid_ip_address_set := authorized_addresses inet_text domain ip_address_list\<rparr>))
         (bind (gets valid_ip_address_set) (\<lambda>addresses.
            if addresses = [] then throw RuntimeError else ret ()))
       else ret ())"

text \<open>The identifiers: a new one that is not zero, also when the previous one is the largest.\<close>

definition TakeIdentifier :: "unit iop" where
  "TakeIdentifier =
     bind (gets interface_identifier) (\<lambda>present.
       if present \<noteq> 0 then throw RuntimeError
       else and_then
         (modify (\<lambda>s. s\<lparr>previous_interface_identifier :=
            (if previous_interface_identifier s < - 1 then previous_interface_identifier s + 1 else 1)\<rparr>))
         (modify (\<lambda>s. s\<lparr>interface_identifier := previous_interface_identifier s\<rparr>)))"

text \<open>
  \<open>pipe\<close>: the two descriptors are two answers; the kernel gives descriptors that are not open, and
  below the limit of the process.
\<close>

definition sys_pipe :: "int \<Rightarrow> (fd \<times> fd) option iop" where
  "sys_pipe lim = (\<lambda>s. let k = os s in
     case script k of
       Errno e # as \<Rightarrow> (Ok None, s\<lparr>os := k\<lparr>errno := e, script := as\<rparr>\<rparr>)
     | Count r # Count w # as \<Rightarrow>
         if r = w \<or> open_fds k (int r) \<noteq> None \<or> open_fds k (int w) \<noteq> None \<or> int r \<ge> lim \<or> int w \<ge> lim
         then (Blocked, s)
         else (Ok (Some (int r, int w)), s\<lparr>os := k\<lparr>script := as,
             open_fds := (open_fds k)(int r \<mapsto> Pipe_end, int w \<mapsto> Pipe_end),
             wire := (wire k)(int w := [])\<rparr>\<rparr>)
     | _ \<Rightarrow> (Blocked, s))"

definition CreateSelfPipe :: "int \<Rightarrow> unit iop" where
  "CreateSelfPipe lim =
     bind (sys_pipe lim) (\<lambda>created. case created of
       None \<Rightarrow> and_then (modify (\<lambda>s. s\<lparr>interface_identifier := 0\<rparr>)) throw_errno
     | Some (r, w) \<Rightarrow> modify (\<lambda>s. s\<lparr>self_pipe_read_descriptor := r, self_pipe_write_descriptor := w\<rparr>))"

text \<open>
  One turn of the loop over the two ends. The flag is added to the value returned by \<open>F_GETFL\<close> before
  it is compared with \<open>-1\<close>, which does not change a \<open>-1\<close>; the error thrown has the \<open>errno\<close> that
  the calls of \<open>close\<close> have left.
\<close>

definition MakePipeEndNonBlocking :: "fd \<Rightarrow> unit iop" where
  "MakePipeEndNonBlocking d =
     bind sys_once (\<lambda>f_getfl. bind (gets (\<lambda>s. status_flags (os s) d)) (\<lambda>flags.
       let f_getfl_return = (case f_getfl of None \<Rightarrow> - 1 | Some _ \<Rightarrow> flags) OR O_NONBLOCK in
       bind sys_once (\<lambda>f_setfl. and_then
         (when_then (f_setfl \<noteq> None) (modify (set_flags d f_getfl_return)))
         (if f_getfl_return = - 1 \<or> f_setfl = None
          then bind (gets (\<lambda>s. (self_pipe_read_descriptor s, self_pipe_write_descriptor s))) (\<lambda>(r, w).
            and_then (modify (\<lambda>s. s\<lparr>interface_identifier := 0\<rparr>))
              (and_then (close_managed r) (and_then (close_managed w) throw_errno)))
          else ret ()))))"

definition FcgiServerInterface_new ::
  "int \<Rightarrow> (int \<Rightarrow> string \<Rightarrow> string option) \<Rightarrow> string option \<Rightarrow> fd \<Rightarrow> int \<Rightarrow> int \<Rightarrow> int \<Rightarrow> unit iop"
where
  "FcgiServerInterface_new lim inet_text environment listening max_connections max_requests app_status =
     and_then (modify (initialize_members listening max_connections max_requests app_status))
       (if max_connections \<le> 0 \<or> max_requests \<le> 0 then throw InvalidArgument
        else and_then (MakeListeningNonBlocking listening)
          (and_then CheckListeningSocket
            (and_then (ReadAuthorizedAddresses inet_text environment)
              (and_then TakeIdentifier
                (and_then (CreateSelfPipe lim)
                  (bind (gets (\<lambda>s. (self_pipe_read_descriptor s, self_pipe_write_descriptor s))) (\<lambda>(r, w).
                    and_then (MakePipeEndNonBlocking r) (MakePipeEndNonBlocking w))))))))"

section \<open>The constructor is correct\<close>

text \<open>
  The states of the constructor: before it takes an identifier, with it, and with the self-pipe.
  \<open>s1\<close> is the state after the initialization of the members.
\<close>

definition nonblocking :: "fd \<Rightarrow> interface \<Rightarrow> bool" where
  "nonblocking c s \<longleftrightarrow> bit (status_flags (os s) c) 11"

definition checked :: "interface \<Rightarrow> interface \<Rightarrow> bool" where
  "checked s1 s \<longleftrightarrow> (\<exists>dom addresses k. open_fds k = open_fds (os s1)
     \<and> s = s1\<lparr>socket_domain := dom, valid_ip_address_set := addresses, os := k\<rparr>)"

definition identified :: "interface \<Rightarrow> interface \<Rightarrow> bool" where
  "identified s1 s \<longleftrightarrow> interface_identifier s1 = 0 \<and> (\<exists>dom addresses k i. open_fds k = open_fds (os s1)
     \<and> i \<noteq> 0 \<and> i \<noteq> previous_interface_identifier s1
     \<and> s = s1\<lparr>socket_domain := dom, valid_ip_address_set := addresses, interface_identifier := i,
          previous_interface_identifier := i, os := k\<rparr>)"

definition piped :: "int \<Rightarrow> interface \<Rightarrow> fd \<Rightarrow> fd \<Rightarrow> interface \<Rightarrow> bool" where
  "piped lim s1 r w s \<longleftrightarrow> interface_identifier s1 = 0 \<and> r \<noteq> w
     \<and> open_fds (os s1) r = None \<and> open_fds (os s1) w = None \<and> 0 \<le> r \<and> r < lim \<and> 0 \<le> w \<and> w < lim
     \<and> (\<exists>dom addresses k i. open_fds k = (open_fds (os s1))(r \<mapsto> Pipe_end, w \<mapsto> Pipe_end)
         \<and> i \<noteq> 0 \<and> i \<noteq> previous_interface_identifier s1
         \<and> s = s1\<lparr>socket_domain := dom, valid_ip_address_set := addresses, interface_identifier := i,
              previous_interface_identifier := i, self_pipe_read_descriptor := r,
              self_pipe_write_descriptor := w, os := k\<rparr>)"

definition not_constructed :: "interface \<Rightarrow> interface \<Rightarrow> bool" where
  "not_constructed s1 s \<longleftrightarrow> open_fds (os s) = open_fds (os s1)
     \<and> interface_identifier s = interface_identifier s1"

definition construct_error :: "interface \<Rightarrow> exn \<Rightarrow> interface \<Rightarrow> bool" where
  "construct_error s1 e s \<longleftrightarrow> not_constructed s1 s \<and> e \<noteq> InvalidArgument"

lemma checked_os: "checked s1 s \<Longrightarrow> open_fds k = open_fds (os s) \<Longrightarrow> checked s1 (s\<lparr>os := k\<rparr>)"
  unfolding checked_def by fastforce

lemma piped_os: "piped lim s1 r w s \<Longrightarrow> open_fds k = open_fds (os s) \<Longrightarrow> piped lim s1 r w (s\<lparr>os := k\<rparr>)"
  unfolding piped_def by fastforce

lemma checked_error: "checked s1 s \<Longrightarrow> e \<noteq> InvalidArgument \<Longrightarrow> construct_error s1 e s"
  by (auto simp: checked_def construct_error_def not_constructed_def)

lemma step_once:
  assumes "\<And>s k. P s \<Longrightarrow> open_fds k = open_fds (os s) \<Longrightarrow> status_flags k = status_flags (os s) \<Longrightarrow> P (s\<lparr>os := k\<rparr>)"
      and "\<And>x. hoare P (f x) Q E"
  shows "hoare P (bind sys_once f) Q E"
  by (rule step_syscall [OF _ assms(2)]) (auto simp: sys_once_def Let_def assms(1) split: list.splits answer.splits)

lemma step_or_throw:
  assumes "\<And>s k. P s \<Longrightarrow> open_fds k = open_fds (os s) \<Longrightarrow> status_flags k = status_flags (os s) \<Longrightarrow> P (s\<lparr>os := k\<rparr>)"
      and "\<And>x. hoare P (f x) Q E" and "\<And>s n. P s \<Longrightarrow> E (SystemError n) s"
  shows "hoare P (bind sys_or_throw f) Q E"
  unfolding sys_or_throw_def op_simps
proof (rule step_once)
  fix r :: "nat option"
  have "hoare P (bind (throw_errno :: nat iop) f) Q E"
    using assms(3) by (auto simp: hoare_def throw_errno_def bind_def gets_def throw_def)
  then show "hoare P (bind (case r of None \<Rightarrow> throw_errno | Some n \<Rightarrow> ret n) f) Q E"
    using assms(2) by (cases r) simp_all
qed (rule assms(1))

lemma listening_step:
  "hoare (checked s1) (MakeListeningNonBlocking c) (\<lambda>_ s. checked s1 s \<and> nonblocking c s) (construct_error s1)"
  unfolding MakeListeningNonBlocking_def
proof (rule step_or_throw, rule checked_os)
  fix x
  show "hoare (checked s1) (bind (gets (\<lambda>s. status_flags (os s) c OR 2048))
       (\<lambda>flags. bind sys_or_throw (\<lambda>_. modify (set_flags c flags))))
     (\<lambda>_ s. checked s1 s \<and> nonblocking c s) (construct_error s1)"
  proof (rule hoare_bind [where R = "\<lambda>flags s. checked s1 s \<and> bit flags 11"])
    fix flags :: int
    show "hoare (\<lambda>s. checked s1 s \<and> bit flags 11) (bind sys_or_throw (\<lambda>_. modify (set_flags c flags)))
       (\<lambda>_ s. checked s1 s \<and> nonblocking c s) (construct_error s1)"
    proof (rule step_or_throw)
      fix x
      show "hoare (\<lambda>s. checked s1 s \<and> bit flags 11) (modify (set_flags c flags))
         (\<lambda>_ s. checked s1 s \<and> nonblocking c s) (construct_error s1)"
        using checked_os by (simp add: hoare_def nonblocking_def set_flags_def)
    qed (use checked_os checked_error in auto)
  qed (use bit_nonblock in \<open>simp add: hoare_def\<close>)
qed (use checked_error in auto)

definition checked_on :: "interface \<Rightarrow> fd \<Rightarrow> interface \<Rightarrow> bool" where
  "checked_on s1 c s \<longleftrightarrow> checked s1 s \<and> nonblocking c s"

lemma checked_on_os: "checked_on s1 c s \<Longrightarrow> open_fds k = open_fds (os s) \<Longrightarrow>
    status_flags k = status_flags (os s) \<Longrightarrow> checked_on s1 c (s\<lparr>os := k\<rparr>)"
  using checked_os by (simp add: checked_on_def nonblocking_def)

lemma checked_on_error: "checked_on s1 c s \<Longrightarrow> e \<noteq> InvalidArgument \<Longrightarrow> construct_error s1 e s"
  by (simp add: checked_on_def checked_error)

lemma checked_on_update:
  assumes "checked_on s1 c s"
  shows "checked_on s1 c (s\<lparr>socket_domain := d\<rparr>)" "checked_on s1 c (s\<lparr>valid_ip_address_set := a\<rparr>)"
proof -
  obtain dom addresses k where s: "open_fds k = open_fds (os s1)"
      "s = s1\<lparr>socket_domain := dom, valid_ip_address_set := addresses, os := k\<rparr>"
    using assms by (auto simp: checked_on_def checked_def)
  have "checked s1 (s1\<lparr>socket_domain := d', valid_ip_address_set := a', os := k\<rparr>)" for d' a'
    using s(1) by (auto simp: checked_def)
  moreover have "s\<lparr>socket_domain := d\<rparr> = s1\<lparr>socket_domain := d, valid_ip_address_set := addresses, os := k\<rparr>"
      "s\<lparr>valid_ip_address_set := a\<rparr> = s1\<lparr>socket_domain := dom, valid_ip_address_set := a, os := k\<rparr>"
    by (simp_all add: s(2))
  ultimately have "checked s1 (s\<lparr>socket_domain := d\<rparr>)" "checked s1 (s\<lparr>valid_ip_address_set := a\<rparr>)"
    by simp_all
  then show "checked_on s1 c (s\<lparr>socket_domain := d\<rparr>)" "checked_on s1 c (s\<lparr>valid_ip_address_set := a\<rparr>)"
    using assms by (simp_all add: checked_on_def nonblocking_def)
qed

lemma check_listening_step:
  "hoare (checked_on s1 c) CheckListeningSocket (\<lambda>_. checked_on s1 c) (construct_error s1)"
proof -
  have tail: "hoare (checked_on s1 c) (bind sys_or_throw (\<lambda>type.
       if type \<noteq> 1 then throw RuntimeError
       else bind sys_or_throw (\<lambda>accepting.
         if accepting \<noteq> 1 then throw RuntimeError else ret ()))) (\<lambda>_. checked_on s1 c) (construct_error s1)"
    by (intro step_or_throw step_if step_throw step_ret)
       (simp_all add: checked_on_os checked_on_error)
  show ?thesis unfolding CheckListeningSocket_def
  proof (rule step_or_throw)
    fix x
    show "hoare (checked_on s1 c) (and_then (modify (\<lambda>s. s\<lparr>socket_domain := int x\<rparr>)) (bind sys_or_throw (\<lambda>type.
       if type \<noteq> 1 then throw RuntimeError
       else bind sys_or_throw (\<lambda>accepting.
         if accepting \<noteq> 1 then throw RuntimeError else ret ())))) (\<lambda>_. checked_on s1 c) (construct_error s1)"
      by (rule hoare_bind [OF tail]) (simp add: hoare_def checked_on_update)
  qed (simp_all add: checked_on_os checked_on_error)
qed

lemma addresses_step:
  "hoare (checked_on s1 c) (ReadAuthorizedAddresses inet_text environment) (\<lambda>_. checked_on s1 c)
     (construct_error s1)"
proof -
  let ?set = "\<lambda>a s. s\<lparr>valid_ip_address_set := a\<rparr>"
  have "hoare (checked_on s1 c) (and_then (modify (?set a)) (bind (gets valid_ip_address_set)
      (\<lambda>addresses. if addresses = [] then throw RuntimeError else ret ())))
      (\<lambda>_. checked_on s1 c) (construct_error s1)" for a
    by (rule hoare_bind [where R = "\<lambda>_. checked_on s1 c"], intro step_gets step_if step_throw step_ret)
       (simp_all add: checked_on_error, simp add: hoare_def checked_on_update)
  then show ?thesis
    unfolding ReadAuthorizedAddresses_def Let_def by (intro step_gets step_if step_ret)
qed

text \<open>Taking an identifier.\<close>

lemma next_identifier: "(if i < - 1 then i + 1 else 1) \<noteq> 0 \<and> (if i < - 1 then i + 1 else 1) \<noteq> i"
  for i :: "64 word"
proof (cases "i < - 1")
  case True
  then have "i \<noteq> - 1" by auto
  then have "i + 1 \<noteq> 0" by (metis add_eq_0_iff2 minus_equation_iff)
  then show ?thesis using True by simp
next
  case False
  then have "i = - 1" using word_order.not_eq_extremum [of i] by blast
  then show ?thesis by simp
qed

lemma identifier_step:
  "hoare (checked_on s1 c) TakeIdentifier (\<lambda>_ s. identified s1 s \<and> nonblocking c s) (construct_error s1)"
proof (rule hoareI)
  fix s assume c: "checked_on s1 c s"
  then obtain dom addresses k where s: "open_fds k = open_fds (os s1)"
      "s = s1\<lparr>socket_domain := dom, valid_ip_address_set := addresses, os := k\<rparr>"
    by (auto simp: checked_on_def checked_def)
  let ?i = "if previous_interface_identifier s1 < - 1 then previous_interface_identifier s1 + 1 else 1"
  let ?s = "s1\<lparr>socket_domain := dom, valid_ip_address_set := addresses, interface_identifier := ?i,
      previous_interface_identifier := ?i, os := k\<rparr>"
  have run: "TakeIdentifier s = (if interface_identifier s1 \<noteq> 0 then (Throw RuntimeError, s) else (Ok (), ?s))"
    by (simp add: TakeIdentifier_def s(2))
  have "identified s1 ?s" if "interface_identifier s1 = 0"
    unfolding identified_def using that s(1) next_identifier [of "previous_interface_identifier s1"] by blast
  moreover have "nonblocking c ?s" using c by (simp add: checked_on_def nonblocking_def s(2))
  ultimately show "case TakeIdentifier s of (Ok x, s') \<Rightarrow> identified s1 s' \<and> nonblocking c s'
      | (Throw e, s') \<Rightarrow> construct_error s1 e s' | (Blocked, s') \<Rightarrow> True | (Terminate, s') \<Rightarrow> False | (Diverge, s') \<Rightarrow> False
      | (Undefined, s') \<Rightarrow> False"
    using checked_on_error [OF c] by (simp add: run)
qed

text \<open>The self-pipe.\<close>

lemma create_pipe_step:
  "hoare (\<lambda>s. identified s1 s \<and> nonblocking c s) (CreateSelfPipe lim)
     (\<lambda>_ s. \<exists>r w. piped lim s1 r w s \<and> nonblocking c s) (construct_error s1)"
proof (rule hoareI)
  fix s assume i: "identified s1 s \<and> nonblocking c s"
  then obtain dom addresses k i where s: "interface_identifier s1 = 0" "open_fds k = open_fds (os s1)"
      "i \<noteq> 0" "i \<noteq> previous_interface_identifier s1"
      "s = s1\<lparr>socket_domain := dom, valid_ip_address_set := addresses, interface_identifier := i,
          previous_interface_identifier := i, os := k\<rparr>"
    unfolding identified_def by blast
  have made: "piped lim s1 r w (s1\<lparr>socket_domain := dom, valid_ip_address_set := addresses,
        interface_identifier := i, previous_interface_identifier := i,
        self_pipe_read_descriptor := r, self_pipe_write_descriptor := w, os := k'\<rparr>)"
    if "r \<noteq> w" "open_fds (os s1) r = None" "open_fds (os s1) w = None" "0 \<le> r" "r < lim" "0 \<le> w" "w < lim"
      "open_fds k' = (open_fds (os s1))(r \<mapsto> Pipe_end, w \<mapsto> Pipe_end)" for r w k'
    unfolding piped_def using that s(1,3,4) by blast
  have flags: "bit (status_flags k c) 11" using i by (simp add: nonblocking_def s(5))
  let ?post = "\<lambda>r. case r of (Ok x, s') \<Rightarrow> \<exists>r w. piped lim s1 r w s' \<and> nonblocking c s'
      | (Throw e, s') \<Rightarrow> construct_error s1 e s' | (Blocked, s') \<Rightarrow> True | (Terminate, s') \<Rightarrow> False | (Diverge, s') \<Rightarrow> False
      | (Undefined, s') \<Rightarrow> False"
  show "?post (CreateSelfPipe lim s)"
  proof (cases "script k")
    case Nil
    then show ?thesis by (simp add: CreateSelfPipe_def sys_pipe_def bind_def s(5))
  next
    case (Cons a as)
    show ?thesis
    proof (cases a)
      case (Errno e)
      then show ?thesis using s(1,2) Cons
        by (simp add: CreateSelfPipe_def sys_pipe_def bind_def s(5) throw_errno_def construct_error_def
            not_constructed_def)
    next
      case (Count r)
      show ?thesis
      proof (cases "\<exists>w bs. as = Count w # bs \<and> r \<noteq> w \<and> open_fds k (int r) = None
          \<and> open_fds k (int w) = None \<and> int r < lim \<and> int w < lim")
        case True
        then obtain w bs where w: "as = Count w # bs" "int r \<noteq> int w" "open_fds (os s1) (int r) = None"
            "open_fds (os s1) (int w) = None" "int r < lim" "int w < lim" using s(2) by auto
        let ?k = "k\<lparr>script := bs, open_fds := (open_fds k)(int r \<mapsto> Pipe_end, int w \<mapsto> Pipe_end),
            wire := (wire k)(int w := [])\<rparr>"
        let ?s = "s1\<lparr>socket_domain := dom, valid_ip_address_set := addresses,
            interface_identifier := i, previous_interface_identifier := i,
            self_pipe_read_descriptor := int r, self_pipe_write_descriptor := int w, os := ?k\<rparr>"
        have "CreateSelfPipe lim s = (Ok (), ?s)"
          using Cons Count w s(2) by (simp add: CreateSelfPipe_def sys_pipe_def bind_def s(5))
        moreover have "piped lim s1 (int r) (int w) ?s" using made [OF w(2-4) _ w(5) _ w(6)] s(2) by simp
        moreover have "nonblocking c ?s" using flags by (simp add: nonblocking_def)
        ultimately show ?thesis by auto
      next
        case False
        have "fst (CreateSelfPipe lim s) = Blocked"
        proof (cases as)
          case (Cons b bs)
          then show ?thesis using \<open>script k = a # as\<close> Count False
            by (cases b) (auto simp: CreateSelfPipe_def sys_pipe_def bind_def s(5))
        qed (simp add: CreateSelfPipe_def sys_pipe_def bind_def s(5) \<open>script k = a # as\<close> Count)
        then show ?thesis by (cases "CreateSelfPipe lim s") simp
      qed
    qed
  qed
qed

lemma close_pipe_step:
  "hoare (\<lambda>s. open_fds (os s) = m(d \<mapsto> Pipe_end) \<and> interface_identifier s = 0) (close_managed d)
     (\<lambda>_ s. open_fds (os s) = m(d := None) \<and> interface_identifier s = 0) E"
  by (auto simp: hoare_def close_managed_def sys_close_def bind_def Let_def split: list.splits answer.splits)

lemma pipe_failure:
  "hoare (piped lim s1 r w)
     (and_then (modify (\<lambda>s. s\<lparr>interface_identifier := 0\<rparr>))
        (and_then (close_managed r) (and_then (close_managed w) throw_errno))) Q (construct_error s1)"
proof (rule hoare_facts)
  fix s assume "piped lim s1 r w s"
  then have p: "interface_identifier s1 = 0" "r \<noteq> w" "open_fds (os s1) r = None" "open_fds (os s1) w = None"
    by (simp_all add: piped_def)
  let ?m = "open_fds (os s1)"
  have m: "?m(r \<mapsto> Pipe_end, w \<mapsto> Pipe_end) = (?m(w \<mapsto> Pipe_end))(r \<mapsto> Pipe_end)"
      "(?m(w \<mapsto> Pipe_end))(r := None) = ?m(w \<mapsto> Pipe_end)" "?m(w := None) = ?m"
    using p by (auto simp: fun_eq_iff)
  have c1: "hoare (\<lambda>s. open_fds (os s) = (?m(w \<mapsto> Pipe_end))(r \<mapsto> Pipe_end) \<and> interface_identifier s = 0)
      (close_managed r) (\<lambda>_ s. open_fds (os s) = ?m(w \<mapsto> Pipe_end) \<and> interface_identifier s = 0) E" for E
    using close_pipe_step [of "?m(w \<mapsto> Pipe_end)" r E] unfolding m(2) .
  have c2: "hoare (\<lambda>s. open_fds (os s) = ?m(w \<mapsto> Pipe_end) \<and> interface_identifier s = 0)
      (close_managed w) (\<lambda>_ s. open_fds (os s) = ?m \<and> interface_identifier s = 0) E" for E
    using close_pipe_step [of ?m w E] unfolding m(3) .
  have e: "hoare (\<lambda>s. open_fds (os s) = ?m \<and> interface_identifier s = 0) throw_errno Q (construct_error s1)"
    by (rule step_throw_errno) (simp add: construct_error_def not_constructed_def p(1))
  have z: "hoare (piped lim s1 r w) (modify (\<lambda>s. s\<lparr>interface_identifier := 0\<rparr>))
      (\<lambda>_ s. open_fds (os s) = (?m(w \<mapsto> Pipe_end))(r \<mapsto> Pipe_end) \<and> interface_identifier s = 0) E" for E
    using m(1) by (auto simp: hoare_def piped_def)
  show "hoare (piped lim s1 r w) (and_then (modify (\<lambda>s. s\<lparr>interface_identifier := 0\<rparr>))
        (and_then (close_managed r) (and_then (close_managed w) throw_errno))) Q (construct_error s1)"
    by (rule hoare_bind [OF hoare_bind [OF hoare_bind [OF e c2] c1] z])
qed

lemma pipe_end_step:
  "hoare (\<lambda>s. piped lim s1 r w s \<and> (\<forall>c \<in> N. nonblocking c s)) (MakePipeEndNonBlocking d)
     (\<lambda>_ s. piped lim s1 r w s \<and> (\<forall>c \<in> insert d N. nonblocking c s)) (construct_error s1)"
  (is "hoare ?P _ ?Q ?E")
proof -
  have os: "?P (s\<lparr>os := k\<rparr>)" if "?P s" "open_fds k = open_fds (os s)" "status_flags k = status_flags (os s)" for s k
    using that piped_os by (simp add: nonblocking_def)
  have failure: "hoare ?P (bind (gets (\<lambda>s. (self_pipe_read_descriptor s, self_pipe_write_descriptor s)))
      (\<lambda>(r, w). and_then (modify (\<lambda>s. s\<lparr>interface_identifier := 0\<rparr>))
              (and_then (close_managed r) (and_then (close_managed w) throw_errno)))) ?Q ?E"
  proof (rule hoareI)
    fix s assume p: "?P s"
    then have "self_pipe_read_descriptor s = r" "self_pipe_write_descriptor s = w" by (auto simp: piped_def)
    then show "case bind (gets (\<lambda>s. (self_pipe_read_descriptor s, self_pipe_write_descriptor s)))
      (\<lambda>(r, w). and_then (modify (\<lambda>s. s\<lparr>interface_identifier := 0\<rparr>))
              (and_then (close_managed r) (and_then (close_managed w) throw_errno))) s of
         (Ok x, s') \<Rightarrow> ?Q x s' | (Throw e, s') \<Rightarrow> ?E e s' | (Blocked, s') \<Rightarrow> True | (Terminate, s') \<Rightarrow> False | (Diverge, s') \<Rightarrow> False
       | (Undefined, s') \<Rightarrow> False"
      using hoareD [OF pipe_failure [of lim s1 r w ?Q], of s] p by simp
  qed
  have set: "hoare ?P (and_then (when_then b (modify (set_flags d (f OR 2048))))
      (if x then bind (gets (\<lambda>s. (self_pipe_read_descriptor s, self_pipe_write_descriptor s)))
        (\<lambda>(r, w). and_then (modify (\<lambda>s. s\<lparr>interface_identifier := 0\<rparr>))
              (and_then (close_managed r) (and_then (close_managed w) throw_errno))) else ret ())) ?Q ?E"
    if "\<not> b \<longrightarrow> x" for b x and f :: int
  proof (rule hoare_bind [where R = "\<lambda>_ s. ?P s \<and> (b \<longrightarrow> nonblocking d s)"])
    fix u :: unit
    show "hoare (\<lambda>s. ?P s \<and> (b \<longrightarrow> nonblocking d s)) (if x
        then bind (gets (\<lambda>s. (self_pipe_read_descriptor s, self_pipe_write_descriptor s)))
        (\<lambda>(r, w). and_then (modify (\<lambda>s. s\<lparr>interface_identifier := 0\<rparr>))
              (and_then (close_managed r) (and_then (close_managed w) throw_errno))) else ret ()) ?Q ?E"
      by (rule step_if [OF hoare_pre [OF failure] step_ret]) (use that in auto)
    show "hoare ?P (when_then b (modify (set_flags d (f OR 2048)))) (\<lambda>_ s. ?P s \<and> (b \<longrightarrow> nonblocking d s)) ?E"
      using piped_os bit_nonblock
      by (cases b) (simp_all add: hoare_def when_then_def set_flags_def nonblocking_def)
  qed
  show ?thesis unfolding MakePipeEndNonBlocking_def Let_def
    by (intro step_once step_gets set os) auto
qed

text \<open>The interface that has been constructed.\<close>

lemma piped_interface:
  assumes "piped lim s1 r w s" and "s1 = initialize_members l mc mr st s0"
      and "open_fds (os s0) l = Some Listening_socket" and "fds_inv lim s0"
      and "0 < mc" and "mc \<le> int int_MAX" and "0 < mr" and "mr \<le> int int_MAX"
  shows "accept_inv lim s"
proof -
  have p: "r \<noteq> w" "open_fds (os s0) r = None" "open_fds (os s0) w = None" "0 \<le> r" "r < lim" "0 \<le> w" "w < lim"
    using assms(1,2) by (simp_all add: piped_def initialize_members_def)
  obtain dom addresses k i where s: "open_fds k = (open_fds (os s0))(r \<mapsto> Pipe_end, w \<mapsto> Pipe_end)" "i \<noteq> 0"
      "s = s1\<lparr>socket_domain := dom, valid_ip_address_set := addresses, interface_identifier := i,
              previous_interface_identifier := i, self_pipe_read_descriptor := r,
              self_pipe_write_descriptor := w, os := k\<rparr>"
    using assms(1,2) by (auto simp: piped_def initialize_members_def)
  note s' = s(3) [unfolded assms(2) initialize_members_def]
  have "l \<noteq> r" "l \<noteq> w" using assms(3) p by auto
  then have "descriptors_inv s" using p s(1) assms(3) by (simp add: s' descriptors_inv_def)
  moreover have "counts_inv s" by (simp add: s' counts_inv_def)
  moreover have "requests_inv s" "statuses_inv s" "framing_inv s" "reading_inv s" "closure_inv s" "limits_inv s"
      "ready_closing s"
    using assms(5-8) by (simp_all add: s' requests_inv_def statuses_inv_def framing_inv_def reading_inv_def
        closure_inv_def limits_inv_def ready_closing_def ready_def)
  moreover have "fds_inv lim s" using assms(4) s(1) p by (auto simp: s' fds_inv_def)
  moreover have "\<not> bad_interface_state_detected s" "interface_identifier s \<noteq> 0" using s(2) by (simp_all add: s')
  ultimately show ?thesis by (simp add: accept_inv_def server_any_def server_upto_def books_inv_def)
qed

lemma checked_self: "checked s s"
proof -
  have "s = s\<lparr>socket_domain := socket_domain s, valid_ip_address_set := valid_ip_address_set s, os := os s\<rparr>"
    by simp
  then show ?thesis unfolding checked_def by blast
qed

lemma construct_step:
  fixes l mc mr st s0
  defines "s1 \<equiv> initialize_members l mc mr st s0"
  assumes "0 < mc" and "0 < mr"
  shows "hoare (\<lambda>s. s = s0) (FcgiServerInterface_new lim inet_text environment l mc mr st)
     (\<lambda>_ s. \<exists>r w. piped lim s1 r w s \<and> nonblocking l s \<and> nonblocking r s \<and> nonblocking w s)
     (construct_error s1)" (is "hoare _ _ ?Q ?E")
proof -
  let ?P = "\<lambda>s. \<exists>r w. piped lim s1 r w s \<and> nonblocking l s"
  have ends: "hoare ?P (bind (gets (\<lambda>s. (self_pipe_read_descriptor s, self_pipe_write_descriptor s))) (\<lambda>(r, w).
      and_then (MakePipeEndNonBlocking r) (MakePipeEndNonBlocking w))) ?Q ?E"
  proof (intro hoare_ex)
    fix r w
    have "hoare (\<lambda>s. piped lim s1 r w s \<and> (\<forall>c \<in> {l}. nonblocking c s))
        (and_then (MakePipeEndNonBlocking r) (MakePipeEndNonBlocking w))
        (\<lambda>_ s. piped lim s1 r w s \<and> (\<forall>c \<in> insert w (insert r {l}). nonblocking c s)) ?E"
      by (rule hoare_bind [OF pipe_end_step pipe_end_step])
    then have h: "hoare (\<lambda>s. piped lim s1 r w s \<and> nonblocking l s)
        (and_then (MakePipeEndNonBlocking r) (MakePipeEndNonBlocking w)) ?Q ?E"
      by (rule hoare_weaken) auto
    show "hoare (\<lambda>s. piped lim s1 r w s \<and> nonblocking l s)
        (bind (gets (\<lambda>s. (self_pipe_read_descriptor s, self_pipe_write_descriptor s))) (\<lambda>(r, w).
          and_then (MakePipeEndNonBlocking r) (MakePipeEndNonBlocking w))) ?Q ?E"
    proof (rule hoareI)
      fix s assume p: "piped lim s1 r w s \<and> nonblocking l s"
      then have "self_pipe_read_descriptor s = r" "self_pipe_write_descriptor s = w" by (auto simp: piped_def)
      then show "case bind (gets (\<lambda>s. (self_pipe_read_descriptor s, self_pipe_write_descriptor s))) (\<lambda>(r, w).
          and_then (MakePipeEndNonBlocking r) (MakePipeEndNonBlocking w)) s of
           (Ok x, s') \<Rightarrow> ?Q x s' | (Throw e, s') \<Rightarrow> ?E e s' | (Blocked, s') \<Rightarrow> True | (Terminate, s') \<Rightarrow> False | (Diverge, s') \<Rightarrow> False
         | (Undefined, s') \<Rightarrow> False"
        using hoareD [OF h p] by simp
    qed
  qed
  have args: "\<not> (mc \<le> 0 \<or> mr \<le> 0)" using assms(2,3) by simp
  have start: "hoare (\<lambda>s. s = s0) (modify (initialize_members l mc mr st)) (\<lambda>_. checked s1) ?E"
    using checked_self [of s1] by (simp add: hoare_def s1_def)
  have on: "hoare (checked s1) (MakeListeningNonBlocking l) (\<lambda>_. checked_on s1 l) ?E"
    by (rule hoare_weaken [OF listening_step]) (simp_all add: checked_on_def)
  show ?thesis
    unfolding FcgiServerInterface_new_def if_not_P [OF args]
    by (rule hoare_bind [OF hoare_bind [OF hoare_bind [OF hoare_bind [OF hoare_bind [OF hoare_bind [OF ends
        create_pipe_step] identifier_step] addresses_step] check_listening_step] on] start])
qed

text \<open>
  C9. The constructor, for a listening socket and \<open>int\<close> arguments. An interface is constructed only if
  there was none and both limits are positive; then the invariant of the interface holds, the members
  have the given values, there are no connections and requests, the identifier is neither zero nor
  that of the interface before, also when the counter wraps around, and the listening socket and both
  ends of the self-pipe are non-blocking. If an exception is thrown no descriptor is left open and
  the identifier is as it was, and \<open>invalid_argument\<close> is thrown exactly if a limit is not positive.
\<close>

theorem FcgiServerInterface_new_correct:
  assumes "open_fds (os s) l = Some Listening_socket" and "fds_inv lim s"
      and "mc \<le> int int_MAX" and "mr \<le> int int_MAX"
  shows "case FcgiServerInterface_new lim inet_text environment l mc mr st s of
       (Ok _, s') \<Rightarrow> interface_identifier s = 0 \<and> 0 < mc \<and> 0 < mr \<and> accept_inv lim s'
         \<and> \<not> bad_interface_state_detected s'
         \<and> listening_descriptor s' = l \<and> app_status_on_abort s' = st \<and> maximum_connection_count s' = mc
         \<and> maximum_request_count_per_connection s' = mr \<and> record_status_map s' = [] \<and> request_map s' = []
         \<and> request_buffer_on_throw s' = [] \<and> application_closure_request_set s' = []
         \<and> interface_identifier s' \<noteq> 0 \<and> interface_identifier s' \<noteq> previous_interface_identifier s
         \<and> previous_interface_identifier s' = interface_identifier s'
         \<and> nonblocking l s' \<and> nonblocking (self_pipe_read_descriptor s') s'
         \<and> nonblocking (self_pipe_write_descriptor s') s'
     | (Throw e, s') \<Rightarrow> open_fds (os s') = open_fds (os s) \<and> interface_identifier s' = interface_identifier s
         \<and> (e = InvalidArgument \<longleftrightarrow> mc \<le> 0 \<or> mr \<le> 0)
     | (Blocked, _) \<Rightarrow> True
     | _ \<Rightarrow> False"
proof (cases "mc \<le> 0 \<or> mr \<le> 0")
  case True
  then show ?thesis
    by (simp add: FcgiServerInterface_new_def throw_def) (simp add: initialize_members_def)
next
  case False
  then have pos: "0 < mc" "0 < mr" by simp_all
  let ?s1 = "initialize_members l mc mr st s"
  have built: "accept_inv lim s' \<and> \<not> bad_interface_state_detected s' \<and> interface_identifier s = 0
      \<and> listening_descriptor s' = l \<and> app_status_on_abort s' = st \<and> maximum_connection_count s' = mc
      \<and> maximum_request_count_per_connection s' = mr \<and> record_status_map s' = [] \<and> request_map s' = []
      \<and> request_buffer_on_throw s' = [] \<and> application_closure_request_set s' = []
      \<and> interface_identifier s' \<noteq> 0 \<and> interface_identifier s' \<noteq> previous_interface_identifier s
      \<and> previous_interface_identifier s' = interface_identifier s'
      \<and> self_pipe_read_descriptor s' = r \<and> self_pipe_write_descriptor s' = w"
    if "piped lim ?s1 r w s'" for s' r w
    using piped_interface [OF that refl assms(1,2) pos(1) assms(3) pos(2) assms(4)] that
    by (auto simp: piped_def initialize_members_def)
  have failed: "open_fds (os s') = open_fds (os s) \<and> interface_identifier s' = interface_identifier s
      \<and> e \<noteq> InvalidArgument" if "construct_error ?s1 e s'" for e s'
    using that by (simp add: construct_error_def not_constructed_def initialize_members_def)
  obtain out s' where run: "FcgiServerInterface_new lim inet_text environment l mc mr st s = (out, s')"
    by (metis prod.collapse)
  note post = hoareD [OF construct_step [where lim = lim and inet_text = inet_text and environment = environment
      and l = l and st = st and ?s0.0 = s, OF pos] refl, unfolded run prod.case]
  show ?thesis unfolding run prod.case
  proof (cases out)
    case (Ok u)
    then obtain r w where "piped lim ?s1 r w s'" "nonblocking l s'" "nonblocking r s'" "nonblocking w s'"
      using post by auto
    then show "case out of Ok u \<Rightarrow> interface_identifier s = 0 \<and> 0 < mc \<and> 0 < mr \<and> accept_inv lim s'
         \<and> \<not> bad_interface_state_detected s'
         \<and> listening_descriptor s' = l \<and> app_status_on_abort s' = st \<and> maximum_connection_count s' = mc
         \<and> maximum_request_count_per_connection s' = mr \<and> record_status_map s' = [] \<and> request_map s' = []
         \<and> request_buffer_on_throw s' = [] \<and> application_closure_request_set s' = []
         \<and> interface_identifier s' \<noteq> 0 \<and> interface_identifier s' \<noteq> previous_interface_identifier s
         \<and> previous_interface_identifier s' = interface_identifier s'
         \<and> nonblocking l s' \<and> nonblocking (self_pipe_read_descriptor s') s'
         \<and> nonblocking (self_pipe_write_descriptor s') s'
       | Throw e \<Rightarrow> open_fds (os s') = open_fds (os s) \<and> interface_identifier s' = interface_identifier s
         \<and> (e = InvalidArgument \<longleftrightarrow> mc \<le> 0 \<or> mr \<le> 0)
       | Blocked \<Rightarrow> True | _ \<Rightarrow> False"
      using built [of r w s'] pos unfolding Ok outcome.case by metis
  qed (use post failed False in simp_all)
qed

definition example_new :: "64 word \<Rightarrow> (unit \<times> interface) option" where
  "example_new previous = (let s = (example_interface kRequestPending
       [Count 0, Count 0, Count 1, Count 1, Count 1, Count 8, Count 9, Count 0, Count 0, Count 0, Count 0])
       \<lparr>interface_identifier := 0, previous_interface_identifier := previous\<rparr>
     in case FcgiServerInterface_new 1024 (\<lambda>_ _. None) None 3 10 4 1 s of
       (Ok u, s') \<Rightarrow> Some (u, s') | _ \<Rightarrow> None)"

lemma example_new_run: "map_option (interface_identifier \<circ> snd) (example_new (- 1)) = Some 1"
  by code_simp

theorem FcgiServerInterface_new_correct_witness:
  "\<exists>s'. example_new (- 1) = Some ((), s') \<and> accept_inv 1024 s' \<and> interface_identifier s' = 1
     \<and> nonblocking 3 s'"
proof -
  let ?s = "(example_interface kRequestPending
       [Count 0, Count 0, Count 1, Count 1, Count 1, Count 8, Count 9, Count 0, Count 0, Count 0, Count 0])
       \<lparr>interface_identifier := 0, previous_interface_identifier := - 1\<rparr>"
  have pre: "open_fds (os ?s) 3 = Some Listening_socket" "fds_inv 1024 ?s" "10 \<le> int int_MAX" "4 \<le> int int_MAX"
    using example_fds by (simp_all add: example_interface_def fds_inv_def)
  obtain u s' where run: "FcgiServerInterface_new 1024 (\<lambda>_ _. None) None 3 10 4 1 ?s = (Ok u, s')"
      "interface_identifier s' = 1"
    using example_new_run by (auto simp: example_new_def Let_def split: prod.splits outcome.splits)
  from FcgiServerInterface_new_correct [OF pre, where inet_text = "\<lambda>_ _. None" and environment = None and st = 1] run
  show ?thesis by (simp add: example_new_def Let_def)
qed

end
