(* ===== verification/System.thy ===== *)
theory System
  imports "HOL-Library.Multiset" Server_Construct
begin

text \<open>
  The interface together with the requests that the application holds: a step relation whose steps
  are the calls that the threads of the application make and what the environment does in between,
  and the safety of every reachable state.

  The thread of the interface waits in \<open>select\<close> in the middle of \<open>AcceptRequests\<close>; the other steps may
  happen there. What \<open>AcceptRequests\<close> does before and after \<open>select\<close> is one step each, and a call on a
  request is one step: interleavings within these, where the code gives up the interface mutex for a
  while, are not histories of this relation.
\<close>

section \<open>Steps\<close>

record system =
  server :: interface
  waiting :: bool
  application :: "FcgiRequest list"

datatype request_call =
    Call_End int byte
  | Call_Write int bytes FcgiType
  | Call_AbortStatus

fun perform :: "request_call \<Rightarrow> bool rop" where
  "perform (Call_End app_status protocol_status) = EndRequestHelper app_status protocol_status"
| "perform (Call_Write iovec_MAX content type) = WriteHelper iovec_MAX content type"
| "perform Call_AbortStatus = AbortStatus"

text \<open>
  The environment sends bytes, closes connections, and decides what the system calls will answer; it
  does not touch the descriptors of the process or what has been sent.
\<close>

inductive system_step :: "int \<Rightarrow> system \<Rightarrow> system \<Rightarrow> bool" for lim where
  environment: "open_fds k = open_fds (os s) \<Longrightarrow> wire k = wire (os s) \<Longrightarrow> peer_gone k = peer_gone (os s) \<Longrightarrow>
    close_calls k = close_calls (os s) \<Longrightarrow>
    system_step lim \<lparr>server = s, waiting = w, application = qs\<rparr>
      \<lparr>server = s\<lparr>os := k\<rparr>, waiting = w, application = qs\<rparr>"
| overload: "system_step lim \<lparr>server = s, waiting = w, application = qs\<rparr>
      \<lparr>server = set_overload b s, waiting = w, application = qs\<rparr>"
| saved_requests: "request_buffer_on_throw s \<noteq> [] \<Longrightarrow> AcceptRequests lim s = (Ok new, s') \<Longrightarrow>
    system_step lim \<lparr>server = s, waiting = False, application = qs\<rparr>
      \<lparr>server = s', waiting = False, application = qs @ new\<rparr>"
| cleanup: "request_buffer_on_throw s = [] \<Longrightarrow> CleanupConnections s = (Ok u, s') \<Longrightarrow>
    system_step lim \<lparr>server = s, waiting = False, application = qs\<rparr>
      \<lparr>server = s', waiting = True, application = qs\<rparr>"
| cleanup_error: "request_buffer_on_throw s = [] \<Longrightarrow> CleanupConnections s = (Throw e, s') \<Longrightarrow>
    system_step lim \<lparr>server = s, waiting = False, application = qs\<rparr>
      \<lparr>server = s', waiting = False, application = qs\<rparr>"
| accept: "AcceptAfterCleanup lim s = (Ok new, s') \<Longrightarrow>
    system_step lim \<lparr>server = s, waiting = True, application = qs\<rparr>
      \<lparr>server = s', waiting = False, application = qs @ new\<rparr>"
| accept_error: "AcceptAfterCleanup lim s = (Throw e, s') \<Longrightarrow>
    system_step lim \<lparr>server = s, waiting = True, application = qs\<rparr>
      \<lparr>server = s', waiting = False, application = qs\<rparr>"
| call: "i < length qs \<Longrightarrow> perform c (s, qs ! i) = (Ok b, (s', q')) \<Longrightarrow>
    system_step lim \<lparr>server = s, waiting = w, application = qs\<rparr>
      \<lparr>server = s', waiting = w, application = qs[i := q']\<rparr>"
| call_error: "i < length qs \<Longrightarrow> perform c (s, qs ! i) = (Throw e, (s', q')) \<Longrightarrow>
    system_step lim \<lparr>server = s, waiting = w, application = qs\<rparr>
      \<lparr>server = s', waiting = w, application = qs[i := q']\<rparr>"
| destroy: "FcgiRequest_destructor (s, q) = (Ok u, (s', q')) \<Longrightarrow>
    system_step lim \<lparr>server = s, waiting = w, application = qs1 @ q # qs2\<rparr>
      \<lparr>server = s', waiting = w, application = qs1 @ qs2\<rparr>"
| move: "i < length qs \<Longrightarrow> FcgiRequest_move (qs ! i) = (q, left) \<Longrightarrow>
    system_step lim \<lparr>server = s, waiting = w, application = qs\<rparr>
      \<lparr>server = s, waiting = w, application = qs[i := left] @ [q]\<rparr>"
| move_assign: "i < length qs \<Longrightarrow> j < length qs \<Longrightarrow> i \<noteq> j \<Longrightarrow>
    FcgiRequest_move_assign False (qs ! j) (qs ! i) = Inr (q, left) \<Longrightarrow>
    system_step lim \<lparr>server = s, waiting = w, application = qs\<rparr>
      \<lparr>server = s, waiting = w, application = qs[j := q, i := left]\<rparr>"

section \<open>The invariant\<close>

abbreviation active :: "FcgiRequest \<Rightarrow> bool" where
  "active q \<equiv> \<not> null_request q \<and> \<not> completed q"

definition phase_inv :: "int \<Rightarrow> bool \<Rightarrow> interface \<Rightarrow> bool" where
  "phase_inv lim w s \<longleftrightarrow> (if w then waiting_inv lim s else accept_inv lim s)"

text \<open>
  Every request object is valid, and no two of those that are in use, with the ones that the interface
  has saved, are for the same request.
\<close>

definition valid_requests :: "interface \<Rightarrow> FcgiRequest list \<Rightarrow> bool" where
  "valid_requests s qs \<longleftrightarrow> (\<forall>q \<in> set qs. request_valid s q)
     \<and> (\<forall>q \<in> set qs. active q \<longrightarrow> associated_interface_id q = interface_identifier s)
     \<and> (\<not> bad_interface_state_detected s \<longrightarrow> distinct (map request_identifier (filter active qs)))"

definition system_inv :: "int \<Rightarrow> system \<Rightarrow> bool" where
  "system_inv lim S \<longleftrightarrow> phase_inv lim (waiting S) (server S)
     \<and> valid_requests (server S) (application S @ request_buffer_on_throw (server S))"

section \<open>A call on a request\<close>

lemma status_ok_given:
  assumes "status_ok c m rs" and "om_find r m = Some rd" and "received rd"
      and "\<And>x. x \<noteq> r \<Longrightarrow> om_find x m' = om_find x m"
  shows "status_ok c m' rs"
proof -
  have "accepted_ok m' rs" if a: "accepted_ok m rs"
  proof (cases "request_id rs = r")
    case True
    then show ?thesis using a assms(2,3)
      by (auto simp: accepted_ok_def keys_iff received_def stream_complete_def split: if_splits)
  next
    case False
    then show ?thesis using a assms(4) by (simp add: accepted_ok_def keys_iff)
  qed
  then show ?thesis using assms(1) by (auto simp: status_ok_def)
qed

lemma phase_any: "phase_inv lim w s \<Longrightarrow> server_any {} s \<and> fds_inv lim s \<and> interface_identifier s \<noteq> 0"
  by (auto simp: phase_inv_def waiting_inv_def accept_inv_def split: if_splits)

text \<open>The interface after a request has been used.\<close>

lemma phase_call:
  assumes "phase_inv lim w s" and "server_any {} s'" and "request_step r s s'"
      and "\<not> bad_interface_state_detected s \<Longrightarrow> assigned s r"
      and "\<not> bad_interface_state_detected s' \<Longrightarrow> assigned s' r \<or> r \<notin> keys (request_map s')"
  shows "phase_inv lim w s'"
proof -
  have st: "interface_identifier s' = interface_identifier s" "open_fds (os s') = open_fds (os s)"
      "record_status_map s' = record_status_map s"
      "keys (application_closure_request_set s) \<subseteq> keys (application_closure_request_set s')"
      "\<And>x. x \<noteq> r \<Longrightarrow> om_find x (request_map s') = om_find x (request_map s)"
      "bad_interface_state_detected s \<Longrightarrow> bad_interface_state_detected s'"
    using assms(3) by (simp_all add: request_step_def same_config_def)
  have a: "server_any {} s" "fds_inv lim s" "interface_identifier s \<noteq> 0" using phase_any [OF assms(1)] by simp_all
  have fds: "fds_inv lim s'" using a(2) st(2) by (simp add: fds_inv_def)
  have good: "ready_closing s' \<and> (w \<longrightarrow> (\<forall>c \<in> keys (record_status_map s'). between_calls c s')
      \<and> (\<forall>x. \<not> ready (descriptor x) (request_map s') x))" if "\<not> bad_interface_state_detected s'"
  proof -
    have nb: "\<not> bad_interface_state_detected s" using that st(6) by blast
    have "\<not> ready c (request_map s') r" for c
      using assms(5) [OF that] by (auto simp: ready_def assigned_def keys_iff)
    then have ready: "ready c (request_map s) x" if "ready c (request_map s') x" for c x
      using that st(5) [of x] by (cases "x = r") (auto simp: ready_def)
    have "ready_closing s" using assms(1) nb
      by (auto simp: phase_inv_def waiting_inv_def accept_inv_def split: if_splits)
    then have "ready_closing s'" using ready st(4) by (auto simp: ready_closing_def)
    moreover have "between_calls c s'" if w "c \<in> keys (record_status_map s')" for c
    proof -
      obtain rd where rd: "om_find r (request_map s) = Some rd" "request_status rd = kRequestAssigned"
        using assms(4) [OF nb] by (auto simp: assigned_def)
      then have rec: "received rd" using a(1) nb
        by (auto simp: server_any_def server_upto_def books_inv_def requests_inv_def request_ok_def)
      have "between_calls c s" using assms(1) that st(3) nb by (simp add: phase_inv_def waiting_inv_def)
      then obtain rs where "om_find c (record_status_map s) = Some rs" "status_ok c (request_map s) rs"
          "\<not> IsRecordComplete rs" by (auto simp: between_calls_def)
      then show ?thesis using st(3) status_ok_given [OF _ rd(1) rec st(5)] by (auto simp: between_calls_def)
    qed
    moreover have "\<not> ready (descriptor x) (request_map s') x" if w for x
      using assms(1) that ready nb by (auto simp: phase_inv_def waiting_inv_def)
    ultimately show ?thesis by blast
  qed
  then have "accept_inv lim s'" using assms(2) fds a(3) st(1) by (simp add: accept_inv_def)
  then show ?thesis using good by (auto simp: phase_inv_def waiting_inv_def)
qed

text \<open>The requests after one of them, \<open>q\<close>, has been used and has become \<open>q'\<close>.\<close>

lemma valid_other:
  assumes "request_valid s p" and "request_step r s s'"
      and "active p \<Longrightarrow> \<not> bad_interface_state_detected s' \<Longrightarrow> request_identifier p \<noteq> r"
  shows "request_valid s' p"
proof (cases "active p \<and> \<not> bad_interface_state_detected s'")
  case True
  have st: "same_config s s'" "bad_interface_state_detected s \<Longrightarrow> bad_interface_state_detected s'"
      "om_find (request_identifier p) (request_map s') = om_find (request_identifier p) (request_map s)"
    using assms(2,3) True by (simp_all add: request_step_def)
  then have "assigned s' (request_identifier p) = assigned s (request_identifier p)" by (simp add: assigned_def)
  then show ?thesis using assms(1) True st(2) linked_config [OF st(1)] st(1)
    by (auto simp: request_valid_def same_config_def)
qed (use assms(1) in \<open>auto simp: request_valid_def\<close>)

lemma valid_call:
  assumes "valid_requests s (ps @ q # rs)" and "active q" and "request_step (request_identifier q) s s'"
      and "request_identifier q' = request_identifier q" and "associated_interface_id q' = associated_interface_id q"
      and "request_valid s' q'"
  shows "valid_requests s' (ps @ q' # rs)" "valid_requests s' (ps @ rs)"
proof -
  let ?ids = "\<lambda>qs. map request_identifier (filter active qs)"
  have st: "interface_identifier s' = interface_identifier s"
      "bad_interface_state_detected s \<Longrightarrow> bad_interface_state_detected s'"
    using assms(3) by (simp_all add: request_step_def same_config_def)
  have d: "distinct (?ids ps @ request_identifier q # ?ids rs)" if "\<not> bad_interface_state_detected s'"
    using assms(1,2) that st(2) by (auto simp: valid_requests_def)
  have "request_identifier p \<noteq> request_identifier q"
    if "p \<in> set ps \<union> set rs" "active p" "\<not> bad_interface_state_detected s'" for p
  proof -
    have "request_identifier p \<in> set (?ids ps) \<union> set (?ids rs)" using that(1,2) by auto
    moreover have "request_identifier q \<notin> set (?ids ps) \<union> set (?ids rs)" using d [OF that(3)] by simp
    ultimately show ?thesis by metis
  qed
  then have others: "request_valid s' p" if "p \<in> set ps \<union> set rs" for p
    using valid_other [OF _ assms(3)] assms(1) that by (auto simp: valid_requests_def)
  have ids: "associated_interface_id p = interface_identifier s'" if "p \<in> set (ps @ q # rs)" "active p" for p
    using assms(1) that st(1) by (auto simp: valid_requests_def)
  show "valid_requests s' (ps @ rs)"
    using others d ids by (auto simp: valid_requests_def)
  show "valid_requests s' (ps @ q' # rs)"
    using others d ids [of q] ids assms(2,4,5,6) by (auto simp: valid_requests_def)
qed

lemma inactive_call: "\<not> active q \<Longrightarrow> perform c (s, q) = (r, (s', q')) \<Longrightarrow> s' = s \<and> q' = q"
  by (cases c) (auto simp: EndRequestHelper_def WriteHelper_def AbortStatus_def)

text \<open>What every call on a request in use keeps.\<close>

definition call_ok :: "interface \<Rightarrow> FcgiRequest \<Rightarrow> interface \<Rightarrow> FcgiRequest \<Rightarrow> bool" where
  "call_ok s q s' q' \<longleftrightarrow> server_any {} s' \<and> request_step (request_identifier q) s s' \<and> request_valid s' q'
     \<and> request_identifier q' = request_identifier q \<and> associated_interface_id q' = associated_interface_id q
     \<and> (\<not> bad_interface_state_detected s' \<longrightarrow>
          assigned s' (request_identifier q) \<or> request_identifier q \<notin> keys (request_map s'))"

lemma call_ok_ended:
  assumes "ended {} s p (s', q')" and "completed p" and "request_identifier p = request_identifier q"
      and "associated_interface_id p = associated_interface_id q"
      and "associated_interface_id q = interface_identifier s"
  shows "call_ok s q s' q'"
proof -
  have e: "q' = p" "server_any {} s'" "request_step (request_identifier q) s s'"
      "interface_identifier s' = associated_interface_id q \<and> \<not> bad_interface_state_detected s' \<longrightarrow>
        request_identifier q \<notin> keys (request_map s')"
    using assms(1,3,4) by (simp_all add: ended_def)
  have "interface_identifier s' = associated_interface_id q"
    using e(3) assms(5) by (simp add: request_step_def same_config_def)
  then show ?thesis using e assms(2-4) by (auto simp: call_ok_def request_valid_def)
qed

lemma perform_ok:
  assumes "server_any {} s" and "request_valid s q" and "active q"
      and "associated_interface_id q = interface_identifier s"
  shows "case perform c (s, q) of
       (Ok b, (s', q')) \<Rightarrow> call_ok s q s' q'
     | (Throw e, (s', q')) \<Rightarrow> call_ok s q s' q'
     | (Undefined, _) \<Rightarrow> False
     | _ \<Rightarrow> True"
proof -
  have q: "\<not> completed q" "\<not> null_request q" using assms(3) by simp_all
  have fin: "call_ok s q s' (finish q)" if "ended {} s (finish q) (s', finish q)" for s'
    by (rule call_ok_ended [OF that]) (simp_all add: assms(4))
  obtain out s' q' where run: "perform c (s, q) = (out, (s', q'))" by (metis prod.collapse)
  show ?thesis unfolding run prod.case
  proof (cases c)
    case (Call_End a p)
    have don: "call_ok s q s' (q\<lparr>completed := True\<rparr>)" if "ended {} s (q\<lparr>completed := True\<rparr>) (s', q\<lparr>completed := True\<rparr>)"
      by (rule call_ok_ended [OF that]) (simp_all add: assms(4))
    have ok: "call_ok s q s' (q\<lparr>completed := True\<rparr>)" if "server_upto {} s'" "request_step (request_identifier q) s s'"
        "request_identifier q \<notin> keys (request_map s')"
      using that server_upto_any by (simp add: call_ok_def request_valid_def)
    have "EndRequestHelper a p (s, q) = (out, (s', q'))" using run by (simp add: Call_End)
    note post = EndRequest_step [OF assms(1,2) q, of a p, unfolded this prod.case]
    show "case out of Ok b \<Rightarrow> call_ok s q s' q' | Throw e \<Rightarrow> call_ok s q s' q' | Undefined \<Rightarrow> False | _ \<Rightarrow> True"
    proof (cases out)
      case (Ok b)
      then show ?thesis using post ok fin by (cases b) auto
    qed (use post fin don in auto)
  next
    case (Call_Write lm content type)
    have "WriteHelper lm content type (s, q) = (out, (s', q'))" using run by (simp add: Call_Write)
    note post = WriteHelper_step [OF assms(1,2) q, where lm = lm and content = content and type = type,
      unfolded this prod.case]
    have ok: "call_ok s q s' q" if "server_any {} s'" "request_valid s' q" "request_step (request_identifier q) s s'"
      using that q assms(4) by (auto simp: call_ok_def request_valid_def request_step_def same_config_def)
    show "case out of Ok b \<Rightarrow> call_ok s q s' q' | Throw e \<Rightarrow> call_ok s q s' q' | Undefined \<Rightarrow> False | _ \<Rightarrow> True"
    proof (cases out)
      case (Ok b)
      then show ?thesis using post ok fin by (cases b) auto
    qed (use post fin in auto)
  next
    case Call_AbortStatus
    have r: "AbortStatus (s, q) = (out, (s', q'))" using run by (simp add: Call_AbortStatus)
    have present: "assigned s (request_identifier q) \<and> linked s q" if "\<not> bad_interface_state_detected s"
      using assms(2-4) that by (auto simp: request_valid_def)
    have same: "call_ok s q s (q\<lparr>was_aborted := b\<rparr>)" for b
    proof -
      have "linked s (q\<lparr>was_aborted := b\<rparr>) = linked s q" by (simp add: linked_def)
      then show ?thesis using assms(1,2,3) present by (auto simp: call_ok_def request_valid_def)
    qed
    have bad: "call_ok s q s (finish q)" if "bad_interface_state_detected s"
      using that assms(1) by (simp add: call_ok_def request_valid_def)
    have closed: "call_ok s q s' (finish q)" if "server_upto {} s'" "request_step (request_identifier q) s s'"
        "request_identifier q \<notin> keys (request_map s')" for s'
      using that server_upto_any by (simp add: call_ok_def request_valid_def)
    note post = AbortStatus_step [OF assms(1,2)]
    show "case out of Ok b \<Rightarrow> call_ok s q s' q' | Throw e \<Rightarrow> call_ok s q s' q' | Undefined \<Rightarrow> False | _ \<Rightarrow> True"
    proof (cases "was_aborted q")
      case True
      then have "out = Ok True" "s' = s" "q' = q\<lparr>was_aborted := True\<rparr>" using post r by simp_all
      then show ?thesis using same by simp
    next
      case False
      show ?thesis
      proof (cases "bad_interface_state_detected s")
        case True
        then have "out = Throw RuntimeError" "s' = s" "q' = finish q" using post r q False by simp_all
        then show ?thesis using bad True by simp
      next
        case good: False
        have n1: "\<not> (completed q \<or> was_aborted q \<or> null_request q)" using q False by simp
        have n2: "\<not> \<not> (interface_identifier s = associated_interface_id q \<and> \<not> bad_interface_state_detected s)"
          using good assms(4) by simp
        obtain rd where rd: "om_find (request_identifier q) (request_map s) = Some rd \<and> (if connection_closed_by_interface rd
            then \<exists>s'. AbortStatus (s, q) = (Ok True, (s', finish q)) \<and> server_upto {} s'
               \<and> request_step (request_identifier q) s s' \<and> request_identifier q \<notin> keys (request_map s')
            else AbortStatus (s, q) = (Ok (client_set_abort rd), (s, q\<lparr>was_aborted := client_set_abort rd\<rparr>)))"
          using post [unfolded if_not_P [OF n1] if_not_P [OF n2]] by (rule exE)
        then show ?thesis using closed same r by (auto split: if_splits)
      qed
    qed
  qed
qed

lemma destructor_ok:
  assumes "server_any {} s" and "request_valid s q" and "active q"
      and "associated_interface_id q = interface_identifier s"
  shows "case FcgiRequest_destructor (s, q) of
       (Ok u, (s', q')) \<Rightarrow> call_ok s q s' (finish q)
     | (Throw e, _) \<Rightarrow> False
     | (Undefined, _) \<Rightarrow> False
     | _ \<Rightarrow> True"
proof (cases "bad_interface_state_detected s")
  case True
  then have "FcgiRequest_destructor (s, q) = (Ok (), (s, q))"
    using destructor_step [OF assms(1,2)] by simp
  then show ?thesis using True assms(1) by (simp add: call_ok_def request_valid_def)
next
  case False
  then have c: "\<not> (completed q \<or> null_request q
      \<or> \<not> (interface_identifier s = associated_interface_id q \<and> \<not> bad_interface_state_detected s))"
    using assms(3,4) by simp
  show ?thesis using destructor_step [OF assms(1,2), unfolded if_not_P [OF c]]
    by (auto simp: call_ok_def request_valid_def split: prod.splits outcome.splits)
qed

section \<open>Every step keeps the invariant\<close>

lemma invariant_call:
  assumes "phase_inv lim w s" and "valid_requests s (ps @ q # rs)" and "active q" and "call_ok s q s' q'"
  shows "phase_inv lim w s'" "valid_requests s' (ps @ q' # rs)" "valid_requests s' (ps @ rs)"
proof -
  have v: "request_valid s q" "associated_interface_id q = interface_identifier s"
    using assms(2,3) by (simp_all add: valid_requests_def)
  have c: "server_any {} s'" "request_step (request_identifier q) s s'" "request_valid s' q'"
      "request_identifier q' = request_identifier q" "associated_interface_id q' = associated_interface_id q"
      "\<not> bad_interface_state_detected s' \<Longrightarrow>
          assigned s' (request_identifier q) \<or> request_identifier q \<notin> keys (request_map s')"
    using assms(4) by (simp_all add: call_ok_def)
  show "phase_inv lim w s'"
    by (rule phase_call [OF assms(1) c(1,2) _ c(6)]) (use v assms(3) in \<open>auto simp: request_valid_def\<close>)
  show "valid_requests s' (ps @ q' # rs)" "valid_requests s' (ps @ rs)"
    using valid_call [OF assms(2,3) c(2,4,5,3)] by simp_all
qed

lemma valid_requests_cong:
  assumes "valid_requests s qs" and "same_config s s'"
      and "bad_interface_state_detected s' = bad_interface_state_detected s"
      and "\<And>r. assigned s' r \<longleftrightarrow> assigned s r"
  shows "valid_requests s' qs"
proof -
  have "interface_identifier s' = interface_identifier s" using assms(2) by (simp add: same_config_def)
  then show ?thesis using assms(1,3,4) linked_config [OF assms(2)]
    by (simp add: valid_requests_def request_valid_def)
qed

lemma valid_requests_bad:
  assumes "valid_requests s qs" and "same_config s s'" and "bad_interface_state_detected s'"
  shows "valid_requests s' qs"
proof -
  have "interface_identifier s' = interface_identifier s" using assms(2) by (simp add: same_config_def)
  then show ?thesis using assms(1,3) by (auto simp: valid_requests_def request_valid_def)
qed

lemma valid_requests_frame:
  assumes "valid_requests s qs" and "accept_frame s s'" and "\<not> bad_interface_state_detected s"
  shows "valid_requests s' qs"
  using assms valid_requests_cong [of s qs s'] valid_requests_bad [of s qs s']
  by (cases "bad_interface_state_detected s'") (simp_all add: accept_frame_def)

text \<open>The requests that a call of \<open>AcceptRequests\<close> has made.\<close>

lemma valid_requests_handed:
  assumes "valid_requests s qs" and "handed s s' new" and "same_config s s'"
      and "\<not> bad_interface_state_detected s" and "\<not> bad_interface_state_detected s'"
  shows "valid_requests s' (qs @ new)"
proof -
  have id: "interface_identifier s' = interface_identifier s" using assms(3) by (simp add: same_config_def)
  have new: "linked s' q" "\<not> completed q" "\<not> assigned s (request_identifier q)"
      "assigned s' (request_identifier q)" if "q \<in> set new" for q
    using assms(2) that by (auto simp: handed_def)
  have mono: "assigned s' r" if "assigned s r" for r using assms(2) that by (simp add: handed_def)
  have old: "assigned s (request_identifier q)" if "q \<in> set qs" "active q" for q
    using assms(1,4) that by (auto simp: valid_requests_def request_valid_def)
  have "request_valid s' q" if "q \<in> set qs" for q
    using assms(1,4,5) that mono id linked_config [OF assms(3)]
    by (auto simp: valid_requests_def request_valid_def)
  moreover have "request_valid s' q \<and> associated_interface_id q = interface_identifier s'" if "q \<in> set new" for q
    using new [OF that] by (auto simp: request_valid_def linked_def)
  moreover have "request_identifier p \<noteq> request_identifier q" if "p \<in> set qs" "active p" "q \<in> set new" for p q
    using old [OF that(1,2)] new(3) [OF that(3)] by metis
  then have "set (map request_identifier (filter active qs)) \<inter> set (map request_identifier (filter active new)) = {}"
    by fastforce
  moreover have "distinct (map request_identifier (filter active new))"
    using assms(2) by (simp add: handed_def distinct_map_filter)
  moreover have "distinct (map request_identifier (filter active qs))"
    using assms(1,4) by (simp add: valid_requests_def)
  ultimately show ?thesis using assms(1) id by (auto simp: valid_requests_def)
qed

text \<open>Only which requests there are matters, and those not in use do not.\<close>

lemma valid_requests_perm:
  assumes "mset ps = mset qs" and "valid_requests s ps"
  shows "valid_requests s qs"
proof -
  have "set ps = set qs" using assms(1) by (rule mset_eq_setD)
  moreover have "distinct (map request_identifier (filter active ps)) = distinct (map request_identifier (filter active qs))"
    by (rule mset_eq_imp_distinct_iff) (simp only: mset_map mset_filter assms(1))
  ultimately show ?thesis using assms(2) by (simp add: valid_requests_def)
qed

lemma valid_requests_inactive: "\<not> active p \<Longrightarrow> valid_requests s (p # qs) \<longleftrightarrow> valid_requests s qs"
  by (auto simp: valid_requests_def request_valid_def)

lemma accept_inv_os:
  assumes "accept_inv lim s" and "open_fds k = open_fds (os s)" and "wire k = wire (os s)"
      and "peer_gone k = peer_gone (os s)"
  shows "accept_inv lim (s\<lparr>os := k\<rparr>)"
proof -
  have "server_any {} (s\<lparr>os := k\<rparr>)"
    using assms server_upto_os [of "{}" s k] by (simp add: accept_inv_def server_any_def descriptors_inv_def)
  then show ?thesis using assms by (simp add: accept_inv_def fds_inv_def ready_closing_def)
qed

lemma same_config_os [simp]: "same_config s (s\<lparr>os := k\<rparr>)"
  by (simp add: same_config_def)

lemma environment_step:
  assumes "phase_inv lim w s" and "valid_requests s qs" and "open_fds k = open_fds (os s)"
      and "wire k = wire (os s)" and "peer_gone k = peer_gone (os s)"
  shows "phase_inv lim w (s\<lparr>os := k\<rparr>)" "valid_requests (s\<lparr>os := k\<rparr>) qs"
  using assms(1) accept_inv_os [OF _ assms(3-5)] waiting_os [OF _ assms(3-5)]
    valid_requests_cong [OF assms(2), of "s\<lparr>os := k\<rparr>"]
  by (simp_all add: phase_inv_def assigned_def split: if_splits)

lemmas server_defs = server_any_def server_upto_def books_inv_def descriptors_inv_def counts_inv_def
  requests_inv_def statuses_inv_def closure_upto_def closure_inv_def framing_inv_def limits_inv_def reading_inv_def

lemma overload_step:
  "phase_inv lim w (set_overload b s) = phase_inv lim w s"
  "valid_requests (set_overload b s) qs = valid_requests s qs"
  by (simp_all add: phase_inv_def set_overload_def waiting_inv_def accept_inv_def server_defs fds_inv_def
        ready_closing_def between_calls_def requests_of_def valid_requests_def request_valid_def linked_def assigned_def)

lemma taken_step:
  "accept_inv lim (s\<lparr>request_buffer_on_throw := x\<rparr>) = accept_inv lim s"
  "valid_requests (s\<lparr>request_buffer_on_throw := x\<rparr>) qs = valid_requests s qs"
  by (simp_all add: accept_inv_def server_defs fds_inv_def ready_closing_def requests_of_def
        valid_requests_def request_valid_def linked_def assigned_def)

text \<open>A corrupt interface stays corrupt.\<close>

lemma cleanup_bad: "bad_interface_state_detected s \<Longrightarrow> CleanupConnections s = (Throw RuntimeError, s)"
  by (simp add: CleanupConnections_def InterfaceCheck_def bind_def)

lemma wait_bad:
  assumes "bad_interface_state_detected s" and "WaitForInput s = (r, s')"
  shows "bad_interface_state_detected s' \<and> (\<forall>x. r = Ok x \<longrightarrow> x = None)"
  using assms unfolding WaitForInput_def
  by (auto simp: bind_def FD_SET_all_def sys_select_def InterfaceCheck_def Let_def when_then_def
        simp del: filter.simps split: list.splits answer.splits if_splits)

lemma accept_bad:
  assumes "bad_interface_state_detected s" and "AcceptAfterCleanup lim s = (r, s')"
  shows "bad_interface_state_detected s'"
proof -
  obtain x t where w: "WaitForInput s = (x, t)" by fastforce
  then show ?thesis using wait_bad [OF assms(1) w] assms(2)
    by (auto simp: AcceptAfterCleanup_def bind_def split: outcome.splits)
qed

text \<open>The steps of \<open>AcceptRequests\<close>.\<close>

lemma cleanup_keeps:
  assumes "phase_inv lim False s" and "valid_requests s qs" and "CleanupConnections s = (out, s')"
  shows "(\<exists>u. out = Ok u) \<Longrightarrow> phase_inv lim True s'" "(\<exists>e. out = Throw e) \<Longrightarrow> phase_inv lim False s'"
    "(\<exists>x. out = Ok x) \<or> (\<exists>e. out = Throw e) \<Longrightarrow> valid_requests s' qs
       \<and> request_buffer_on_throw s' = request_buffer_on_throw s"
    "out \<noteq> Undefined" "out \<noteq> Terminate" "out \<noteq> Diverge"
proof -
  have a: "accept_inv lim s" using assms(1) by (simp add: phase_inv_def)
  note post = hoareD [OF cleanup_step [OF a] refl, unfolded assms(3) prod.case]
  show "(\<exists>u. out = Ok u) \<Longrightarrow> phase_inv lim True s'" "(\<exists>e. out = Throw e) \<Longrightarrow> phase_inv lim False s'"
      "out \<noteq> Undefined" "out \<noteq> Terminate" "out \<noteq> Diverge"
    using post by (auto simp: phase_inv_def)
  show "valid_requests s' qs \<and> request_buffer_on_throw s' = request_buffer_on_throw s"
    if "(\<exists>x. out = Ok x) \<or> (\<exists>e. out = Throw e)"
  proof (cases "bad_interface_state_detected s")
    case True
    then show ?thesis using assms(2,3) cleanup_bad [OF True] by simp
  next
    case False
    then show ?thesis using that post valid_requests_frame [OF assms(2) _ False]
      by (auto simp: accept_frame_def)
  qed
qed

lemma accept_keeps:
  assumes "phase_inv lim True s" and "valid_requests s (qs @ request_buffer_on_throw s)" and "lim \<le> FD_SETSIZE"
      and "AcceptAfterCleanup lim s = (out, s')"
  shows "out = Ok new \<Longrightarrow> phase_inv lim False s' \<and> valid_requests s' ((qs @ new) @ request_buffer_on_throw s')"
    "out = Throw e \<Longrightarrow> phase_inv lim False s' \<and> valid_requests s' (qs @ request_buffer_on_throw s')"
    "out \<noteq> Undefined" "out \<noteq> Terminate" "out \<noteq> Diverge"
proof -
  let ?held = "qs @ request_buffer_on_throw s"
  have w: "waiting_inv lim s" using assms(1) by (simp add: phase_inv_def)
  note post = hoareD [OF after_cleanup_step [OF w assms(3)] refl, unfolded assms(4) prod.case]
  then show "out \<noteq> Undefined" "out \<noteq> Terminate" "out \<noteq> Diverge" by auto
  have handed: "valid_requests s' (?held @ made)" if "same_config s s'"
      "if bad_interface_state_detected s' then made = [] else handed s s' made" for made
  proof (cases "bad_interface_state_detected s'")
    case True
    then show ?thesis using that valid_requests_bad [OF assms(2) that(1)] by simp
  next
    case False
    moreover have "\<not> bad_interface_state_detected s" using accept_bad [OF _ assms(4)] False by blast
    ultimately show ?thesis using that valid_requests_handed [OF assms(2)] by simp
  qed
  show "phase_inv lim False s' \<and> valid_requests s' ((qs @ new) @ request_buffer_on_throw s')" if "out = Ok new"
  proof -
    have r: "accept_inv lim s'" "same_config s s'" "request_buffer_on_throw s' = request_buffer_on_throw s"
        "if bad_interface_state_detected s' then new = [] else handed s s' new"
      using post that by (simp_all add: call_result_def)
    have "valid_requests s' ((qs @ new) @ request_buffer_on_throw s')"
      by (rule valid_requests_perm [OF _ handed [OF r(2,4)]]) (simp add: r(3))
    then show ?thesis using r(1) by (simp add: phase_inv_def)
  qed
  show "phase_inv lim False s' \<and> valid_requests s' (qs @ request_buffer_on_throw s')" if "out = Throw e"
  proof -
    have "call_error lim s e s'" using post that by simp
    then obtain made where r: "accept_inv lim s'" "same_config s s'"
        "request_buffer_on_throw s' = request_buffer_on_throw s @ made"
        "if bad_interface_state_detected s' then made = [] else handed s s' made"
      unfolding call_error_def by (elim conjE exE)
    show ?thesis using handed [OF r(2,4)] r(1,3) by (simp add: phase_inv_def)
  qed
qed

text \<open>The steps of the application.\<close>

lemma call_keeps:
  assumes "phase_inv lim w s" and "valid_requests s (qs @ request_buffer_on_throw s)" and "i < length qs"
      and "perform c (s, qs ! i) = (out, (s', q'))"
  shows "(\<exists>x. out = Ok x) \<or> (\<exists>e. out = Throw e) \<Longrightarrow>
      phase_inv lim w s' \<and> valid_requests s' (qs[i := q'] @ request_buffer_on_throw s')"
    "out \<noteq> Undefined"
proof -
  let ?ps = "take i qs" and ?rs = "drop (Suc i) qs @ request_buffer_on_throw s"
  have split: "qs @ request_buffer_on_throw s = ?ps @ qs ! i # ?rs"
    using id_take_nth_drop [OF assms(3)] by (metis append.assoc append_Cons)
  have v: "valid_requests s (?ps @ qs ! i # ?rs)" using assms(2) split by metis
  have a: "server_any {} s" using phase_any [OF assms(1)] by simp
  have q: "request_valid s (qs ! i)" "active (qs ! i) \<Longrightarrow> associated_interface_id (qs ! i) = interface_identifier s"
    using v by (simp_all add: valid_requests_def)
  have buffer: "request_buffer_on_throw s' = request_buffer_on_throw s" if "call_ok s (qs ! i) s' q'"
    using that by (simp add: call_ok_def request_step_def)
  have ok: "phase_inv lim w s' \<and> valid_requests s' (qs[i := q'] @ request_buffer_on_throw s')"
    if "active (qs ! i)" "call_ok s (qs ! i) s' q'"
    using invariant_call [OF assms(1) v that] buffer [OF that(2)]
    by (simp add: upd_conv_take_nth_drop [OF assms(3)])
  have same: "s' = s \<and> q' = qs ! i" if "\<not> active (qs ! i)" using inactive_call [OF that assms(4)] .
  show "phase_inv lim w s' \<and> valid_requests s' (qs[i := q'] @ request_buffer_on_throw s')"
    if "(\<exists>x. out = Ok x) \<or> (\<exists>e. out = Throw e)"
  proof (cases "active (qs ! i)")
    case True
    have "call_ok s (qs ! i) s' q'"
      using perform_ok [OF a q(1) True q(2) [OF True], of c] that assms(4) by auto
    then show ?thesis by (rule ok [OF True])
  next
    case False
    then show ?thesis using same assms(1,2) by simp
  qed
  show "out \<noteq> Undefined"
  proof (cases "active (qs ! i)")
    case True
    then show ?thesis using perform_ok [OF a q(1) True q(2) [OF True], of c] assms(4) by auto
  next
    case False
    then show ?thesis using assms(4)
      by (cases c) (auto simp: EndRequestHelper_def WriteHelper_def AbortStatus_def)
  qed
qed

lemma destroy_keeps:
  assumes "phase_inv lim w s" and "valid_requests s (ps @ q # rs)" and "FcgiRequest_destructor (s, q) = (out, (s', q'))"
  shows "out = Ok u \<Longrightarrow> phase_inv lim w s' \<and> valid_requests s' (ps @ rs)
      \<and> request_buffer_on_throw s' = request_buffer_on_throw s"
    "out \<noteq> Undefined" "out \<noteq> Throw e"
proof -
  have a: "server_any {} s" using phase_any [OF assms(1)] by simp
  have q: "request_valid s q" "active q \<Longrightarrow> associated_interface_id q = interface_identifier s"
    using assms(2) by (simp_all add: valid_requests_def)
  have same: "out = Ok () \<and> s' = s" if "\<not> active q"
  proof -
    have "completed q \<or> null_request q
        \<or> \<not> (interface_identifier s = associated_interface_id q \<and> \<not> bad_interface_state_detected s)"
      using that by blast
    from destructor_step [OF a q(1), unfolded if_P [OF this]] show ?thesis using assms(3) by simp
  qed
  note post = destructor_ok [OF a q(1), unfolded assms(3) prod.case]
  have "out \<noteq> Undefined \<and> out \<noteq> Throw e"
  proof (cases "active q")
    case True
    show ?thesis using post [OF True q(2) [OF True]] by (cases out) simp_all
  qed (use same in simp)
  then show "out \<noteq> Undefined" "out \<noteq> Throw e" by simp_all
  show "phase_inv lim w s' \<and> valid_requests s' (ps @ rs)
      \<and> request_buffer_on_throw s' = request_buffer_on_throw s" if "out = Ok u"
  proof (cases "active q")
    case True
    then have c: "call_ok s q s' (finish q)" using post [OF True q(2) [OF True]] that by simp
    then have "request_buffer_on_throw s' = request_buffer_on_throw s"
      by (simp add: call_ok_def request_step_def)
    then show ?thesis using invariant_call [OF assms(1,2) True c] by simp
  next
    case False
    have "mset (ps @ q # rs) = mset (q # ps @ rs)" by simp
    then have "valid_requests s (q # ps @ rs)" using assms(2) by (rule valid_requests_perm)
    then show ?thesis using same [OF False] assms(1) valid_requests_inactive [OF False] by simp
  qed
qed

lemma move_keeps:
  assumes "valid_requests s (qs @ bs)" and "i < length qs" and "FcgiRequest_move (qs ! i) = (q, left)"
  shows "valid_requests s ((qs[i := left] @ [q]) @ bs)"
proof -
  have q: "q = qs ! i" "\<not> active left" using assms(3) by (auto simp: FcgiRequest_move_def)
  have m: "mset (qs[i := left]) = add_mset left (mset qs - {#qs ! i#})" by (rule mset_update [OF assms(2)])
  have "qs ! i \<in># mset qs" using assms(2) by simp
  then have "mset (left # qs @ bs) = mset ((qs[i := left] @ [q]) @ bs)"
    by (simp add: m q(1))
  then show ?thesis
    by (rule valid_requests_perm) (simp add: valid_requests_inactive [OF q(2)] assms(1))
qed

lemma move_assign_keeps:
  assumes "valid_requests s (qs @ bs)" and "i < length qs" and "j < length qs" and "i \<noteq> j"
      and "FcgiRequest_move_assign False (qs ! j) (qs ! i) = Inr (q, left)"
  shows "valid_requests s (qs[j := q, i := left] @ bs)"
proof -
  have q: "q = qs ! i" "\<not> active left" "\<not> active (qs ! j)"
    using assms(5) by (auto simp: FcgiRequest_move_assign_def FcgiRequest_move_def split: if_splits)
  let ?rest = "remove1 (qs ! j) qs"
  have "mset (qs[j := q, i := left]) = add_mset left (mset (qs[j := q]) - {#q#})"
    using mset_update [of i "qs[j := q]" left] assms(2,4) q(1) by simp
  also have "\<dots> = mset (left # ?rest)"
    using mset_update [OF assms(3), of q] by simp
  finally have m: "mset (left # ?rest @ bs) = mset (qs[j := q, i := left] @ bs)" by simp
  have "mset (qs @ bs) = mset (qs ! j # ?rest @ bs)" using assms(3) by simp
  then have "valid_requests s (qs ! j # ?rest @ bs)" using assms(1) by (rule valid_requests_perm)
  then have "valid_requests s (left # ?rest @ bs)"
    by (simp add: valid_requests_inactive [OF q(2)] valid_requests_inactive [OF q(3)])
  then show ?thesis by (rule valid_requests_perm [OF m])
qed

section \<open>Every step and every reachable state\<close>

lemma system_step_keeps:
  assumes "system_step lim S S'" and "lim \<le> FD_SETSIZE" and "system_inv lim S"
  shows "system_inv lim S'"
  using assms(1,3)
proof (cases rule: system_step.cases)
  case (environment k s w qs)
  then show ?thesis using assms(3) environment_step [of lim w s _ k] by (auto simp: system_inv_def)
next
  case (overload s w qs b)
  have "request_buffer_on_throw (set_overload b s) = request_buffer_on_throw s" by (simp add: set_overload_def)
  then show ?thesis using overload assms(3) by (simp add: system_inv_def overload_step)
next
  case (saved_requests s new s' qs)
  then have "new = request_buffer_on_throw s" "s' = s\<lparr>request_buffer_on_throw := []\<rparr>"
    by (simp_all add: AcceptRequests_def)
  then show ?thesis using saved_requests(1,2) assms(3) by (simp add: system_inv_def phase_inv_def taken_step)
next
  case (cleanup s u s' qs)
  then show ?thesis using assms(3) cleanup_keeps(1,3) [OF _ _ cleanup(4)] by (auto simp: system_inv_def)
next
  case (cleanup_error s e s' qs)
  then show ?thesis using assms(3) cleanup_keeps(2,3) [OF _ _ cleanup_error(4)] by (auto simp: system_inv_def)
next
  case (accept s new s' qs)
  then show ?thesis using assms(3) accept_keeps(1) [OF _ _ assms(2) accept(3)] by (auto simp: system_inv_def)
next
  case (accept_error s e s' qs)
  then show ?thesis using assms(3) accept_keeps(2) [OF _ _ assms(2) accept_error(3)] by (auto simp: system_inv_def)
next
  case (call i qs c s b s' q' w)
  then show ?thesis using assms(3) call_keeps(1) [OF _ _ call(3,4)] by (auto simp: system_inv_def)
next
  case (call_error i qs c s e s' q' w)
  then show ?thesis using assms(3) call_keeps(1) [OF _ _ call_error(3,4)] by (auto simp: system_inv_def)
next
  case (destroy s q u s' q' w qs1 qs2)
  then show ?thesis using assms(3) destroy_keeps(1) [OF _ _ destroy(3), of lim w qs1]
    by (auto simp: system_inv_def)
next
  case (move i qs q left s w)
  then show ?thesis using assms(3) move_keeps [OF _ move(3,4)] by (simp add: system_inv_def)
next
  case (move_assign i qs j q left s w)
  then show ?thesis using assms(3) move_assign_keeps [OF _ move_assign(3-6)] by (simp add: system_inv_def)
qed

lemma system_reachable_step:
  assumes "(system_step lim)\<^sup>*\<^sup>* S0 S" and "lim \<le> FD_SETSIZE" and "system_inv lim S0"
  shows "system_inv lim S"
  using assms(1,3) by (induction rule: rtranclp_induct) (auto intro: system_step_keeps [OF _ assms(2)])

text \<open>The system when the interface has just been made.\<close>

definition started :: "interface \<Rightarrow> system" where
  "started s = \<lparr>server = s, waiting = False, application = []\<rparr>"

lemma started_inv: "accept_inv lim s \<Longrightarrow> request_buffer_on_throw s = [] \<Longrightarrow> system_inv lim (started s)"
  by (simp add: system_inv_def started_def phase_inv_def valid_requests_def)

lemma system_accept_defined:
  assumes "system_inv lim S" and "lim \<le> FD_SETSIZE"
  shows "waiting S \<Longrightarrow> fst (AcceptAfterCleanup lim (server S)) \<notin> {Undefined, Terminate, Diverge}"
    "\<not> waiting S \<Longrightarrow> fst (AcceptRequests lim (server S)) \<notin> {Undefined, Terminate, Diverge}"
proof -
  let ?s = "server S"
  have v: "valid_requests ?s (application S @ request_buffer_on_throw ?s)" and p: "phase_inv lim (waiting S) ?s"
    using assms(1) by (simp_all add: system_inv_def)
  show "fst (AcceptAfterCleanup lim ?s) \<notin> {Undefined, Terminate, Diverge}" if "waiting S"
    using accept_keeps(3-5) [OF _ v assms(2) prod.collapse [symmetric]] p that by simp
  show "fst (AcceptRequests lim ?s) \<notin> {Undefined, Terminate, Diverge}" if "\<not> waiting S"
  proof (cases "request_buffer_on_throw ?s = []")
    case True
    have "accept_inv lim ?s" using p that by (simp add: phase_inv_def)
    then show ?thesis using hoare_never [OF accept_requests_step [OF _ assms(2) True] refl] by simp
  qed (simp add: AcceptRequests_def)
qed

lemma system_call_defined:
  assumes "system_inv lim S" and "q \<in> set (application S)"
  shows "fst (perform c (server S, q)) \<noteq> Undefined" "fst (FcgiRequest_destructor (server S, q)) \<noteq> Undefined"
    "fst (FcgiRequest_destructor (server S, q)) \<noteq> Throw e"
proof -
  let ?s = "server S"
  have v: "valid_requests ?s (application S @ request_buffer_on_throw ?s)" and p: "phase_inv lim (waiting S) ?s"
    using assms(1) by (simp_all add: system_inv_def)
  obtain i where i: "i < length (application S)" "application S ! i = q"
    using assms(2) by (auto simp: in_set_conv_nth)
  have "perform c (?s, application S ! i)
      = (fst (perform c (?s, q)), (fst (snd (perform c (?s, q))), snd (snd (perform c (?s, q)))))"
    by (simp add: i(2))
  from call_keeps(2) [OF p v i(1) this] show "fst (perform c (?s, q)) \<noteq> Undefined" .
  obtain ps rs where "application S = ps @ q # rs" using assms(2) by (meson split_list)
  then have v': "valid_requests ?s (ps @ q # rs @ request_buffer_on_throw ?s)" using v by simp
  have "FcgiRequest_destructor (?s, q) = (fst (FcgiRequest_destructor (?s, q)),
      (fst (snd (FcgiRequest_destructor (?s, q))), snd (snd (FcgiRequest_destructor (?s, q)))))"
    by simp
  from destroy_keeps(2,3) [OF p v' this]
  show "fst (FcgiRequest_destructor (?s, q)) \<noteq> Undefined" "fst (FcgiRequest_destructor (?s, q)) \<noteq> Throw e" .
qed

lemma system_requests:
  assumes "system_inv lim S" and "\<not> bad_interface_state_detected (server S)"
  shows "distinct (map request_identifier (filter active (application S)))"
    "q \<in> set (application S) \<Longrightarrow> active q \<Longrightarrow> linked (server S) q \<and> assigned (server S) (request_identifier q)"
proof -
  have v: "valid_requests (server S) (application S @ request_buffer_on_throw (server S))"
    using assms(1) by (simp add: system_inv_def)
  then show "distinct (map request_identifier (filter active (application S)))"
    using assms(2) by (simp add: valid_requests_def)
  show "linked (server S) q \<and> assigned (server S) (request_identifier q)"
    if "q \<in> set (application S)" "active q"
  proof -
    have "request_valid (server S) q" "associated_interface_id q = interface_identifier (server S)"
      using v that by (simp_all add: valid_requests_def)
    then show ?thesis using that(2) assms(2) by (simp add: request_valid_def)
  qed
qed

text \<open>The writes have room for the three \<open>iovec\<close>s of a record.\<close>

fun enough_iovecs :: "request_call \<Rightarrow> bool" where
  "enough_iovecs (Call_Write iovec_MAX content type) = (3 \<le> iov_limit iovec_MAX)"
| "enough_iovecs c = True"

lemma perform_ends: "enough_iovecs c \<Longrightarrow> fst (perform c p) \<noteq> Diverge"
proof (cases c)
  case (Call_Write lm content type)
  assume "enough_iovecs c"
  then have "ends (WriteHelper lm content type)"
    unfolding WriteHelper_def by (intro ending write_loop_ends) (simp_all add: Call_Write)
  then show ?thesis by (cases p) (simp add: Call_Write ends_def)
qed (cases p; use ends_calls in \<open>simp add: ends_def\<close>)+

text \<open>
  C1. The histories of a server process in which no descriptor is beyond what an \<open>fd_set\<close> has room for
  (\<open>lim\<close> is at most \<open>FD_SETSIZE\<close>; without this the claim is false, see the end of \<open>Accept_Correct\<close>): an
  interface that has been constructed, calls of \<open>AcceptRequests\<close>, calls on the requests it has given
  out, in any order and also while \<open>select\<close> waits, their moves and destructions, and whatever the peers
  and the kernel do in between. A call on a request and each half of \<open>AcceptRequests\<close>, before and after
  \<open>select\<close>, is one step; histories in which the steps of two calls are mixed are not covered.
  In every state that is reached the invariant of the interface holds; if the interface is not
  corrupt, the requests in use are of distinct identifiers and each refers to an entry of the maps of
  the interface that still exists; and no next call has undefined behaviour or loops without end: not
  \<open>AcceptRequests\<close>, at its start or at \<open>select\<close>, and no call on a request (with room for three \<open>iovec\<close>s in
  a write), nor does a destructor throw.
\<close>

theorem system_safe:
  assumes "lim \<le> FD_SETSIZE" and "accept_inv lim s" and "request_buffer_on_throw s = []"
      and "(system_step lim)\<^sup>*\<^sup>* (started s) S"
  shows "interface_inv (server S)
    \<and> (\<not> bad_interface_state_detected (server S) \<longrightarrow>
        distinct (map request_identifier (filter active (application S)))
        \<and> (\<forall>q \<in> set (application S). active q \<longrightarrow>
              linked (server S) q \<and> assigned (server S) (request_identifier q)))
    \<and> fst ((if waiting S then AcceptAfterCleanup lim else AcceptRequests lim) (server S))
        \<notin> {Undefined, Terminate, Diverge}
    \<and> (\<forall>q \<in> set (application S).
        (\<forall>c. fst (perform c (server S, q)) \<noteq> Undefined
           \<and> (enough_iovecs c \<longrightarrow> fst (perform c (server S, q)) \<noteq> Diverge))
        \<and> fst (FcgiRequest_destructor (server S, q)) \<notin> {Undefined, Diverge}
        \<and> (\<forall>e. fst (FcgiRequest_destructor (server S, q)) \<noteq> Throw e))"
proof -
  have inv: "system_inv lim S"
    by (rule system_reachable_step [OF assms(4,1) started_inv [OF assms(2,3)]])
  then have "interface_inv (server S)"
    using phase_any [of lim "waiting S" "server S"] server_any_inv by (simp add: system_inv_def)
  moreover have "fst (FcgiRequest_destructor p) \<noteq> Diverge" for p :: "interface \<times> FcgiRequest"
    using ends_calls(3) by (cases p) (simp add: ends_def)
  ultimately show ?thesis
    using system_requests [OF inv] system_accept_defined [OF inv assms(1)] system_call_defined [OF inv]
      perform_ends
    by simp
qed

text \<open>A run: a request is accepted, the kernel gets new answers ready, and the application ends it.\<close>

definition with_answers :: "answer list \<Rightarrow> kernel \<Rightarrow> kernel" where
  "with_answers as k = k\<lparr>script := as\<rparr>"

definition example_history :: "(interface \<times> FcgiRequest \<times> interface \<times> FcgiRequest) option" where
  "example_history = (case AcceptRequests 1024 example_input of
     (Ok [q], s1) \<Rightarrow>
       (case perform (Call_End 0 0) (s1\<lparr>os := with_answers [Count 1000, Count 1000, Count 1] (os s1)\<rparr>, q) of
          (Ok b, (s2, q')) \<Rightarrow> Some (s1, q, s2, q')
        | _ \<Rightarrow> None)
   | _ \<Rightarrow> None)"

lemma example_history_run:
  "case example_history of Some (s1, q, s2, q') \<Rightarrow> completed q' \<and> request_map s2 = [] | None \<Rightarrow> False"
  by code_simp

lemma AcceptRequests_split:
  assumes "AcceptRequests lim s = (Ok qs, s')" and "request_buffer_on_throw s = []"
  obtains t u where "CleanupConnections s = (Ok u, t)" and "AcceptAfterCleanup lim t = (Ok qs, s')"
  using assms by (auto simp: AcceptRequests_def bind_def split: prod.splits outcome.splits)

theorem system_safe_witness:
  "\<exists>S q. (system_step 1024)\<^sup>*\<^sup>* (started example_input) S \<and> application S = [q] \<and> completed q
     \<and> request_map (server S) = [] \<and> interface_inv (server S)"
proof -
  let ?k = "with_answers [Count 1000, Count 1000, Count 1]"
  obtain s1 q s2 q' where run: "example_history = Some (s1, q, s2, q')" and q': "completed q'" "request_map s2 = []"
    using example_history_run by (auto split: option.splits)
  then obtain b where calls: "AcceptRequests 1024 example_input = (Ok [q], s1)"
      "perform (Call_End 0 0) (s1\<lparr>os := ?k (os s1)\<rparr>, q) = (Ok b, (s2, q'))"
    unfolding example_history_def
    by (auto simp del: perform.simps One_nat_def split: prod.splits outcome.splits list.splits)
  have buffer: "request_buffer_on_throw example_input = []"
    by (simp add: example_input_def example_read_def example_interface_def)
  obtain t u where cleaned: "CleanupConnections example_input = (Ok u, t)"
      and accepted: "AcceptAfterCleanup 1024 t = (Ok [q], s1)"
    using calls(1) buffer by (rule AcceptRequests_split)
  have r1: "system_step 1024 (started example_input) \<lparr>server = t, waiting = True, application = []\<rparr>"
    unfolding started_def by (rule system_step.cleanup [OF buffer cleaned])
  have r2: "system_step 1024 \<lparr>server = t, waiting = True, application = []\<rparr>
      \<lparr>server = s1, waiting = False, application = [q]\<rparr>"
    using system_step.accept [OF accepted, of "[]"] by simp
  have r3: "system_step 1024 \<lparr>server = s1, waiting = False, application = [q]\<rparr>
      \<lparr>server = s1\<lparr>os := ?k (os s1)\<rparr>, waiting = False, application = [q]\<rparr>"
    by (rule system_step.environment) (simp_all add: with_answers_def)
  have r4: "system_step 1024 \<lparr>server = s1\<lparr>os := ?k (os s1)\<rparr>, waiting = False, application = [q]\<rparr>
      \<lparr>server = s2, waiting = False, application = [q']\<rparr>"
    using system_step.call [of 0 "[q]" "Call_End 0 0"] calls(2) by simp
  have run: "(system_step 1024)\<^sup>*\<^sup>* (started example_input) \<lparr>server = s2, waiting = False, application = [q']\<rparr>"
    using r1 r2 r3 r4 by (meson converse_rtranclp_into_rtranclp rtranclp.rtrancl_refl)
  show ?thesis using run system_safe [OF _ example_input_inv buffer run] q' by fastforce
qed

end
