(* ===== verification/Spec2Isabelle.thy ===== *)
theory Spec2Isabelle
  imports Fcgi_Prelude Id_Manager Fcgi_Protocol Fcgi_Utilities Partition Pair_Encoder Pair_Encoder_Correct
    Request_Data Socket_Functions Outcome_Monad Server_State Server_Requests Server_Send Record_Status Record_Invariants Record_Rules Record_Safety
    Request_Object Request_Write Fcgi_Request Request_Rules Request_Safety Request_Lifetime
    Server_Accept Connection_Safety Accept_Requests Accept_Safety Accept_Correct Server_Construct System
begin

text \<open>
  The FastCGI server library of the repository: \<open>id_manager/\<close>, \<open>socket_functions/\<close> and \<open>fcgi/\<close>, as
  definitions that follow the source function by function and compute, with the theorems about them.

  \<^bold>\<open>The program.\<close> An application makes one \<open>FcgiServerInterface\<close> on a listening socket and calls
  \<open>AcceptRequests\<close> in a loop. The call removes connections that are to be closed, waits in \<open>select\<close>,
  lets the \<open>RecordStatus\<close> of each readable connection consume the bytes that have arrived, which keeps
  the \<open>RequestData\<close> of the requests in \<open>request_map_\<close>, makes an \<open>FcgiRequest\<close> for each complete
  request, and accepts new connections. The application writes its response through the
  \<open>FcgiRequest\<close> objects, from other threads if it likes, ends them, and destroys them; they reach
  back into the maps of the interface, write on its sockets, and wake it up by its self-pipe.

  \<^bold>\<open>The theories.\<close>
  \<^item> \<open>Fcgi_Prelude\<close>: words, \<open>std::map\<close> as a sorted list (\<open>om_find\<close>, \<open>om_insert\<close>, \<open>om_erase\<close>,
    \<open>om_wf\<close>), bytes. \<open>Outcome_Monad\<close>: what a call can do (return, throw, end the program, wait,
    loop for more turns than it is granted, be undefined), state passing for it, and a Hoare logic. An invalid iterator or pointer, and a
    descriptor too large for an \<open>fd_set\<close>, is the outcome \<open>Undefined\<close>; \<open>std::terminate\<close> is \<open>Terminate\<close>.
  \<^item> \<open>Id_Manager\<close> (\<open>id_manager_template.h\<close>): the set of identifiers as a list of intervals, over words of
    any width; it refines a set from which the least unused element is taken (locale \<open>id_pool\<close>).
  \<^item> \<open>Fcgi_Protocol\<close>, \<open>Fcgi_Utilities\<close>, \<open>Partition\<close>, \<open>Pair_Encoder\<close>, \<open>Pair_Encoder_Correct\<close>
    (\<open>fcgi_protocol_constants.h\<close>, \<open>fcgi_request_identifier.h\<close>, \<open>fcgi_utilities.cc\<close>,
    \<open>fcgi_utilities_templates.h\<close>): the wire format. The decoder accepts exactly the streams of a relational
    specification; the two producers of \<open>struct iovec\<close> lists denote complete records with the right
    content, within the limits of \<open>writev\<close>.
  \<^item> \<open>Request_Data\<close> (\<open>request_data.cc\<close>): the data of a request and when it is complete.
  \<^item> \<open>Socket_Functions\<close> (\<open>socket_functions.cc\<close>): the retry loops. The answers of the system calls are a
    list, the \<open>script\<close>, so that the theorems hold for all answers. The two writers share a contract
    (locale \<open>stream_writer\<close>).
  \<^item> \<open>Server_State\<close>: the members of the interface and the part of the kernel it uses (record
    \<open>interface\<close>, with \<open>kernel\<close>), and the invariants. \<open>Server_Requests\<close>, \<open>Server_Send\<close>, \<open>Server_Accept\<close>,
    \<open>Connection_Safety\<close>, \<open>Accept_Requests\<close>, \<open>Accept_Safety\<close>, \<open>Accept_Correct\<close>, \<open>Server_Construct\<close>
    (\<open>fcgi_server_interface.cc\<close>): the operations on the maps, the records the interface sends,
    \<open>AcceptConnection\<close>, \<open>AcceptRequests\<close>, constructor and destructor.
  \<^item> \<open>Record_Status\<close>, \<open>Record_Invariants\<close>, \<open>Record_Rules\<close>, \<open>Record_Safety\<close> (\<open>record_status.cc\<close>): the
    state machine that assembles records, and its correctness for all inputs.
  \<^item> \<open>Request_Object\<close>, \<open>Request_Write\<close>, \<open>Fcgi_Request\<close>, \<open>Request_Rules\<close>, \<open>Request_Safety\<close>,
    \<open>Request_Lifetime\<close> (\<open>fcgi_request.cc\<close>, \<open>fcgi_request_templates.h\<close>): the request object. Its three
    pointers into the maps of the interface are keys; following one that is no longer in its map is
    \<open>Undefined\<close>.
  \<^item> \<open>System\<close>: the interface and all the requests it has given out, as a step relation whose steps
    are the calls above and what the environment does in between.

  \<^bold>\<open>What is shown.\<close> \<open>descriptors_inv\<close> holds in every state: the maps agree on their keys, and what they
  name is open and of the right kind. Unless the interface is marked as corrupt, \<open>server_inv\<close> holds:
  the counts are those of the requests (\<open>counts_inv\<close>), each request is in order (\<open>requests_inv\<close>), the set of
  connections to close is a subset of the connections and contains every corrupted one (\<open>closure_inv\<close>), what
  has been sent on a connection that is not corrupt is a sequence of complete records
  (\<open>framing_inv\<close>), and every record status is in a state between two reads (\<open>reading_inv\<close>). Every
  operation keeps it; the theorems about an operation say in addition what it does on each path, and that it
  is never \<open>Undefined\<close>. \<open>request_valid\<close> is what a request object relies on, \<open>request_step\<close> what an operation of
  one leaves alone; with \<open>accept_inv\<close> and \<open>waiting_inv\<close>, which hold at the calls of \<open>AcceptRequests\<close> and
  while it waits, they give the safety of every reachable state (\<open>system_safe\<close>).

  \<^bold>\<open>Bounds and fuel.\<close> Machine integers that can wrap are words (\<open>unsigned long\<close> identifiers, bytes, the
  16 bit fields of headers, the identifiers of \<open>IdManager\<close>); descriptors and counts are integers with
  their bounds as invariants. \<open>size_t\<close> and \<open>ssize_t\<close> are those of a 64 bit platform. A system call for which
  the script has no answer any more waits: \<open>Blocked\<close>. The loops of \<open>ReadRecords\<close>, of the acceptance of
  connections, of \<open>Write\<close> and of the pair encoder have a number of turns as fuel, and a loop that is cut
  off is \<open>Diverge\<close>, an outcome of its own. Theorems show that this does not happen: with a turn for each
  byte and one turn more than there are full buffers in the queue (\<open>ReadRecords\<close>), with one turn more
  than there are answers in the script (accepting), with a turn for each byte (\<open>Write\<close>, if a write takes
  three \<open>iovec\<close>s; the pair encoder). \<open>Diverge\<close> is also excluded by the theorems about \<open>AcceptRequests\<close>,
  \<open>ReadRecords\<close> and the system. \<open>lim\<close> is the limit of open descriptors of the process; the theorems
  about \<open>AcceptRequests\<close> and the system need that it is at most \<open>FD_SETSIZE\<close>.

  \<^bold>\<open>Not modelled.\<close> The mutex \<open>interface_state_mutex_\<close>: each call is one step, except that
  \<open>AcceptRequests\<close> is divided where it waits in \<open>select\<close>; so the interleavings inside \<open>ReadRecords\<close>, where a request may be
  removed between two records while an iterator to it is cached, and those between the sections of a
  write are not covered, and the safety of the system is claimed for whole calls only. The write mutexes are modelled as flags. Failures of memory
  allocation and of the locking of a mutex. \<open>inet_pton\<close> and \<open>inet_ntop\<close> (a parameter), \<open>sysconf\<close> (a
  parameter), the regular expression library (its use, splitting at commas, is written out). The test
  client, the tests and the example programs.
\<close>

end
